(* ===== verification/Ppmd_Prelude.thy ===== *)
theory Ppmd_Prelude
  imports Main "HOL-Library.Word" "HOL-Library.Monad_Syntax"
begin

text \<open>
  The prelude of the development: the C integer types of \<^verbatim>\<open>src/lib/ppmd/Arch.h\<close> as words of
  their width, the collections the component theories add their rules to, and the generic
  facts on words, options and byte strings that several components share.  Byte strings
  are the streams behind the \<^verbatim>\<open>IByteIn\<close>/\<^verbatim>\<open>IByteOut\<close> interfaces of
  \<^verbatim>\<open>src/lib/ppmd/Interface.h\<close>; \<open>be_val\<close> reads one as a big-endian number, which is how the
  range coders' output is interpreted throughout.
\<close>

unbundle bit_operations_syntax

section \<open>The integer types of Arch.h\<close>

type_synonym Byte = "8 word"
type_synonym UInt16 = "16 word"
type_synonym UInt32 = "32 word"
type_synonym UInt64 = "64 word"

text \<open>\<open>ppmd_ops\<close>: unfolding rules of the small operations; \<open>mem_frame\<close>: reads that a
  write to another address leaves alone; \<open>word_nat\<close>: word operations read as operations
  on \<open>nat\<close>.\<close>

named_theorems ppmd_ops "definitions of the small operations"
named_theorems mem_frame "reads after writes"
named_theorems word_nat "word operations as operations on nat"

section \<open>Words as natural numbers\<close>

lemma unat_add_le:
  fixes a b :: "'a::len word"
  assumes "unat a + unat b < 2 ^ LENGTH('a)"
  shows "unat (a + b) = unat a + unat b"
  using assms by (simp add: unat_word_ariths)

lemma unat_mult_le:
  fixes a b :: "'a::len word"
  assumes "unat a * unat b < 2 ^ LENGTH('a)"
  shows "unat (a * b) = unat a * unat b"
  using assms by (simp add: unat_word_ariths)

lemma unat_sub_le:
  fixes a b :: "'a::len word"
  assumes "unat b \<le> unat a"
  shows "unat (a - b) = unat a - unat b"
  using assms by (simp add: unat_sub_if_size word_size)

lemma unat_push_bit_mod:
  fixes a :: "'a::len word"
  shows "unat (push_bit n a) = (unat a * 2 ^ n) mod 2 ^ LENGTH('a)"
  by (simp add: unsigned_push_bit_eq push_bit_eq_mult [of n "unat a"] take_bit_eq_mod)

lemma unat_push_bit_le:
  fixes a :: "'a::len word"
  assumes "unat a * 2 ^ n < 2 ^ LENGTH('a)"
  shows "unat (push_bit n a) = unat a * 2 ^ n"
  using assms by (simp add: unat_push_bit_mod)

lemma unat_drop_bit_div [word_nat]:
  fixes a :: "'a::len word"
  shows "unat (drop_bit n a) = unat a div 2 ^ n"
  by (simp add: unsigned_drop_bit_eq take_bit_nat_eq_self drop_bit_eq_div [of n "unat a"])

lemma unat_ucast_mod:
  fixes a :: "'a::len word"
  shows "unat (ucast a :: 'b::len word) = unat a mod 2 ^ LENGTH('b)"
  by (simp add: unsigned_ucast_eq take_bit_eq_mod)

lemma unat_ucast_up:
  fixes a :: "'a::len word"
  assumes "LENGTH('a) \<le> LENGTH('b::len)"
  shows "unat (ucast a :: 'b word) = unat a"
proof -
  have "unat a < 2 ^ LENGTH('a)" by (rule unsigned_less)
  also have "\<dots> \<le> 2 ^ LENGTH('b)" using assms by simp
  finally show ?thesis by (simp add: unat_ucast_mod)
qed

lemma unat_lt8: "unat (b :: Byte) < 256"
  using unsigned_less [of b] by simp

lemma unat_lt16: "unat (b :: UInt16) < 65536"
  using unsigned_less [of b] by simp

lemma unat_lt32: "unat (b :: UInt32) < 4294967296"
  using unsigned_less [of b] by simp

lemma unat_lt64: "unat (b :: UInt64) < 18446744073709551616"
  using unsigned_less [of b] by simp

text \<open>\<^verbatim>\<open>(code << 8) | byte\<close> is an addition.\<close>

lemma push8_or_byte: "push_bit 8 c OR ucast b = push_bit 8 c + (ucast b :: UInt32)"
  for c :: UInt32 and b :: Byte
  by (rule disjunctive_add [symmetric]) (auto simp: bit_simps dest: bit_imp_le_length)

lemma unat_push8_or_byte:
  fixes c :: UInt32 and b :: Byte
  assumes "unat c < 2 ^ 24"
  shows "unat (push_bit 8 c OR ucast b) = unat c * 256 + unat b"
proof -
  have "unat (push_bit 8 c) = unat c * 256"
    using assms by (simp add: unat_push_bit_le)
  moreover have "unat (ucast b :: UInt32) = unat b" by (simp add: unat_ucast_up)
  moreover have "unat c * 256 + unat b < 2 ^ 32"
    using assms unat_lt8 [of b] by simp
  ultimately show ?thesis
    unfolding push8_or_byte by (subst unat_add_le) simp_all
qed

section \<open>Byte streams\<close>

text \<open>
  \<^verbatim>\<open>IByteIn.Read\<close> ``reads one byte, returns 0 in case of EOF or error'' (Interface.h); a stream
  is the list of the bytes still to be read.
\<close>

fun IByteIn_Read :: "Byte list \<Rightarrow> Byte \<times> Byte list" where
  "IByteIn_Read [] = (0, [])"
| "IByteIn_Read (b # bs) = (b, bs)"

text \<open>The output stream is the list of the bytes written so far.\<close>

definition IByteOut_Write :: "Byte list \<Rightarrow> Byte \<Rightarrow> Byte list" where
  [ppmd_ops]: "IByteOut_Write out b = out @ [b]"

definition be_val :: "Byte list \<Rightarrow> nat" where
  "be_val bs = foldl (\<lambda>a b. a * 256 + unat b) 0 bs"

lemma be_val_Nil [simp]: "be_val [] = 0"
  by (simp add: be_val_def)

lemma be_val_snoc [simp]: "be_val (bs @ [b]) = be_val bs * 256 + unat b"
  by (simp add: be_val_def)

lemma be_val_append: "be_val (xs @ ys) = be_val xs * 256 ^ length ys + be_val ys"
proof (induction ys rule: rev_induct)
  case Nil
  then show ?case by simp
next
  case (snoc y ys)
  have "be_val (xs @ ys @ [y]) = be_val (xs @ ys) * 256 + unat y"
    using be_val_snoc [of "xs @ ys" y] by simp
  with snoc show ?case by (simp add: algebra_simps)
qed

lemma be_val_single [simp]: "be_val [b] = unat b"
  using be_val_snoc [of "[]" b] by simp

lemma be_val_Cons: "be_val (b # bs) = unat b * 256 ^ length bs + be_val bs"
  using be_val_append [of "[b]" bs] by simp

lemma be_val_less: "be_val bs < 256 ^ length bs"
proof (induction bs rule: rev_induct)
  case Nil
  then show ?case by simp
next
  case (snoc b bs)
  then have "be_val bs * 256 + 256 \<le> 256 ^ length bs * 256"
    by (metis Suc_leI add.commute mult_Suc mult_le_mono1 mult.commute)
  then show ?case
    using unat_lt8 [of b] by simp
qed

lemma be_val_replicate_ff: "be_val (replicate n 255) + 1 = 256 ^ n"
  by (induction n) (simp_all add: be_val_Cons)

lemma be_val_replicate_0 [simp]: "be_val (replicate n 0) = 0"
  by (induction n) (simp_all add: be_val_Cons)

lemma be_val_take_Suc:
  "n < length bs \<Longrightarrow> be_val (take (Suc n) bs) = be_val (take n bs) * 256 + unat (bs ! n)"
  by (simp add: take_Suc_conv_app_nth)

section \<open>Monadic options\<close>

lemma bind_SomeE:
  assumes "Option.bind m f = Some y"
  obtains x where "m = Some x" and "f x = Some y"
  using assms by (cases m) auto

end
