(* ===== verification/Output_Buffer.thy ===== *)
theory Output_Buffer
  imports Ppmd_Prelude
begin

text \<open>
  The growing output buffer (\<^verbatim>\<open>src/lib/buffer/blockoutput.h\<close>) and the byte writer that fills it
  (\<^verbatim>\<open>Writer\<close> in \<^verbatim>\<open>Buffer.c\<close>).  The storage is a list of blocks; \<^verbatim>\<open>OutBuffer.dst\<close> points into the
  last one.  The abstract view of a buffer is the list of bytes written (\<open>ob_data\<close>): every
  operation is an operation on that list, and \<open>OutputBuffer_Finish\<close> returns it.

  The Python C API is a parameter: \<open>new_bytes n\<close> is \<^verbatim>\<open>PyBytes_FromStringAndSize(NULL, n)\<close> (an
  object of \<open>n\<close> bytes with any content, \<open>None\<close> when there is no memory), \<open>list_room n\<close> says
  whether a Python list of \<open>n\<close> items can be made or extended to.
\<close>

section \<open>State\<close>

record pyapi =
  new_bytes :: "nat \<Rightarrow> Byte list option"
  list_room :: "nat \<Rightarrow> bool"

definition py_ok :: "pyapi \<Rightarrow> bool" where
  "py_ok api \<longleftrightarrow> (\<forall>n b. new_bytes api n = Some b \<longrightarrow> length b = n)"

text \<open>\<^verbatim>\<open>OutBuffer\<close>: \<^verbatim>\<open>dst\<close> is the number of the block it points to.\<close>

record OutBuffer =
  dst :: nat
  out_size :: nat
  out_pos :: nat

record BlocksOutputBuffer =
  blocks :: "Byte list list"
  allocated :: int
  max_length :: int

datatype ob_error =
    NoMemory
  | AssertFails  \<comment> \<open>an \<^verbatim>\<open>assert\<close> does not hold\<close>

type_synonym obuf = "BlocksOutputBuffer \<times> OutBuffer"

section \<open>Operations\<close>

text \<open>\<^verbatim>\<open>Writer\<close>: a byte for a full buffer is dropped.\<close>

definition Writer :: "obuf \<Rightarrow> Byte \<Rightarrow> obuf" where
  "Writer = (\<lambda>(buffer, ob) b.
     if out_size ob = out_pos ob then (buffer, ob)
     else (buffer\<lparr>blocks := (blocks buffer)[dst ob := (blocks buffer ! dst ob)[out_pos ob := b]]\<rparr>,
           ob\<lparr>out_pos := out_pos ob + 1\<rparr>))"

definition KB :: int where "KB = 1024"
definition MB :: int where "MB = 1024 * 1024"

definition BUFFER_BLOCK_SIZE :: "int list" where
  "BUFFER_BLOCK_SIZE =
     [32 * KB, 64 * KB, 256 * KB, 1 * MB, 4 * MB, 8 * MB, 16 * MB, 16 * MB,
      32 * MB, 32 * MB, 32 * MB, 32 * MB, 64 * MB, 64 * MB, 128 * MB, 128 * MB, 256 * MB]"

definition PY_SSIZE_T_MAX :: int where "PY_SSIZE_T_MAX = 2 ^ 63 - 1"

definition OutputBuffer_InitAndGrow :: "pyapi \<Rightarrow> int \<Rightarrow> ob_error + obuf" where
  "OutputBuffer_InitAndGrow api maxlen =
     (let block_size = (if 0 \<le> maxlen \<and> maxlen < BUFFER_BLOCK_SIZE ! 0 then maxlen
                        else BUFFER_BLOCK_SIZE ! 0)
      in case new_bytes api (nat block_size) of
           None \<Rightarrow> Inl NoMemory
         | Some b \<Rightarrow>
             if \<not> list_room api 1 then Inl NoMemory
             else Inr (\<lparr>blocks = [b], allocated = block_size, max_length = maxlen\<rparr>,
                       \<lparr>dst = 0, out_size = nat block_size, out_pos = 0\<rparr>))"

definition OutputBuffer_InitWithSize :: "pyapi \<Rightarrow> int \<Rightarrow> ob_error + obuf" where
  "OutputBuffer_InitWithSize api init_size =
     (case new_bytes api (nat init_size) of
        None \<Rightarrow> Inl NoMemory
      | Some b \<Rightarrow>
          if \<not> list_room api 1 then Inl NoMemory
          else Inr (\<lparr>blocks = [b], allocated = init_size, max_length = - 1\<rparr>,
                    \<lparr>dst = 0, out_size = nat init_size, out_pos = 0\<rparr>))"

definition OutputBuffer_Grow :: "pyapi \<Rightarrow> obuf \<Rightarrow> ob_error + obuf" where
  "OutputBuffer_Grow api = (\<lambda>(buffer, ob).
     let list_len = length (blocks buffer) in
     if out_pos ob \<noteq> out_size ob then Inl AssertFails
     else
       let block_size = (if list_len < length BUFFER_BLOCK_SIZE then BUFFER_BLOCK_SIZE ! list_len
                         else BUFFER_BLOCK_SIZE ! (length BUFFER_BLOCK_SIZE - 1));
           rest = max_length buffer - allocated buffer
       in if 0 \<le> max_length buffer \<and> rest \<le> 0 then Inl AssertFails
          else
            let block_size = (if 0 \<le> max_length buffer \<and> rest < block_size then rest else block_size)
            in if PY_SSIZE_T_MAX - allocated buffer < block_size then Inl NoMemory
               else case new_bytes api (nat block_size) of
                      None \<Rightarrow> Inl NoMemory
                    | Some b \<Rightarrow>
                        if \<not> list_room api (list_len + 1) then Inl NoMemory
                        else Inr (buffer\<lparr>blocks := blocks buffer @ [b],
                                         allocated := allocated buffer + block_size\<rparr>,
                                  ob\<lparr>dst := list_len, out_size := nat block_size, out_pos := 0\<rparr>))"

definition OutputBuffer_ReachedMaxLength :: "obuf \<Rightarrow> ob_error + bool" where
  "OutputBuffer_ReachedMaxLength = (\<lambda>(buffer, ob).
     if out_pos ob \<noteq> out_size ob then Inl AssertFails
     else Inr (allocated buffer = max_length buffer))"

text \<open>The copy into the final object: the blocks but the last as a whole, then \<^verbatim>\<open>pos\<close> bytes of
  the last one.\<close>

definition OutputBuffer_Finish :: "pyapi \<Rightarrow> obuf \<Rightarrow> ob_error + Byte list" where
  "OutputBuffer_Finish api = (\<lambda>(buffer, ob).
     let list_len = length (blocks buffer) in
     if (list_len = 1 \<and> out_pos ob = out_size ob) \<or> (list_len = 2 \<and> out_pos ob = 0)
     then Inr (blocks buffer ! 0)
     else case new_bytes api (nat (allocated buffer - (int (out_size ob) - int (out_pos ob)))) of
            None \<Rightarrow> Inl NoMemory
          | Some r \<Rightarrow>
              if list_len = 0 then Inl AssertFails
              else let copied = concat (take (list_len - 1) (blocks buffer))
                                @ take (out_pos ob) (blocks buffer ! (list_len - 1))
                   in Inr (copied @ drop (length copied) r))"

section \<open>The invariant and the bytes written\<close>

definition ob_inv :: "obuf \<Rightarrow> bool" where
  "ob_inv = (\<lambda>(buffer, ob).
     blocks buffer \<noteq> [] \<and> dst ob = length (blocks buffer) - 1 \<and>
     out_size ob = length (last (blocks buffer)) \<and> out_pos ob \<le> out_size ob \<and>
     allocated buffer = int (length (concat (blocks buffer))) \<and>
     (0 \<le> max_length buffer \<longrightarrow> allocated buffer \<le> max_length buffer))"

definition ob_data :: "obuf \<Rightarrow> Byte list" where
  "ob_data = (\<lambda>(buffer, ob). concat (butlast (blocks buffer)) @ take (out_pos ob) (last (blocks buffer)))"

definition ob_free :: "obuf \<Rightarrow> nat" where
  "ob_free = (\<lambda>(buffer, ob). out_size ob - out_pos ob)"

lemma ob_split:
  assumes "ob_inv (buffer, ob)"
  obtains bs b where "blocks buffer = bs @ [b]" "dst ob = length bs" "out_size ob = length b"
    "out_pos ob \<le> length b" "allocated buffer = int (length (concat bs) + length b)"
    "0 \<le> max_length buffer \<longrightarrow> allocated buffer \<le> max_length buffer"
proof -
  from assms have "blocks buffer \<noteq> []" by (simp add: ob_inv_def)
  then obtain bs b where "blocks buffer = bs @ [b]" by (metis rev_exhaust)
  with assms that show thesis by (auto simp: ob_inv_def)
qed

lemma ob_data_length: "ob_inv x \<Longrightarrow> int (length (ob_data x)) + int (ob_free x) = allocated (fst x)"
  by (cases x; simp; erule ob_split) (simp add: ob_data_def ob_free_def)

lemma block_sizes: "b \<in> set BUFFER_BLOCK_SIZE \<Longrightarrow> 32 * KB \<le> b \<and> b \<le> 256 * MB"
  by (auto simp: BUFFER_BLOCK_SIZE_def KB_def MB_def)

lemma Writer_spec:
  assumes "ob_inv x"
  shows "ob_inv (Writer x b) \<and>
    ob_data (Writer x b) = (if ob_free x = 0 then ob_data x else ob_data x @ [b]) \<and>
    ob_free (Writer x b) = ob_free x - 1 \<and> fst (Writer x b) = (fst x)\<lparr>blocks := blocks (fst (Writer x b))\<rparr>"
proof (cases x)
  case (Pair buffer ob)
  with assms obtain bs bl where s: "blocks buffer = bs @ [bl]" "dst ob = length bs" "out_size ob = length bl"
    "out_pos ob \<le> length bl" "allocated buffer = int (length (concat bs) + length bl)"
    "0 \<le> max_length buffer \<longrightarrow> allocated buffer \<le> max_length buffer"
    by (auto elim: ob_split)
  show ?thesis
  proof (cases "out_pos ob = length bl")
    case True
    then show ?thesis using assms Pair s by (simp add: Writer_def ob_free_def)
  next
    case False
    then have lt: "out_pos ob < length bl" using s by simp
    then have "take (Suc (out_pos ob)) (bl[out_pos ob := b]) = take (out_pos ob) bl @ [b]"
      by (simp add: take_Suc_conv_app_nth)
    then show ?thesis using Pair s lt by (simp add: Writer_def ob_inv_def ob_data_def ob_free_def)
  qed
qed

definition next_block :: "nat \<Rightarrow> int" where
  "next_block k = (if k < length BUFFER_BLOCK_SIZE then BUFFER_BLOCK_SIZE ! k
                   else BUFFER_BLOCK_SIZE ! (length BUFFER_BLOCK_SIZE - 1))"

lemma next_block_bounds: "32 * KB \<le> next_block k" "next_block k \<le> 256 * MB" "0 < next_block k"
proof -
  have "next_block k \<in> set BUFFER_BLOCK_SIZE"
  proof (cases "k < length BUFFER_BLOCK_SIZE")
    case False
    have "length BUFFER_BLOCK_SIZE - 1 < length BUFFER_BLOCK_SIZE" by (simp add: BUFFER_BLOCK_SIZE_def)
    then show ?thesis using False by (simp add: next_block_def)
  qed (simp add: next_block_def)
  from block_sizes [OF this] show "32 * KB \<le> next_block k" "next_block k \<le> 256 * MB" "0 < next_block k"
    by (simp_all add: KB_def)
qed

lemma InitAndGrow_spec:
  assumes "py_ok api" "OutputBuffer_InitAndGrow api maxlen = Inr x"
  shows "ob_inv x \<and> ob_data x = [] \<and> max_length (fst x) = maxlen \<and> length (blocks (fst x)) = 1 \<and>
    int (ob_free x) = (if 0 \<le> maxlen then min maxlen (32 * KB) else 32 * KB)"
proof -
  define bsz where "bsz = (if 0 \<le> maxlen \<and> maxlen < 32 * KB then maxlen else 32 * KB)"
  have z: "BUFFER_BLOCK_SIZE ! 0 = 32 * KB" by (simp add: BUFFER_BLOCK_SIZE_def)
  have nn: "0 \<le> bsz" by (simp add: bsz_def KB_def)
  obtain b where b: "new_bytes api (nat bsz) = Some b"
    and x: "x = (\<lparr>blocks = [b], allocated = bsz, max_length = maxlen\<rparr>, \<lparr>dst = 0, out_size = nat bsz, out_pos = 0\<rparr>)"
    using assms(2) unfolding OutputBuffer_InitAndGrow_def z bsz_def [symmetric] Let_def
    by (auto split: option.splits if_splits)
  have "length b = nat bsz" using assms(1) b by (simp add: py_ok_def)
  then show ?thesis using nn by (auto simp: x ob_inv_def ob_data_def ob_free_def bsz_def)
qed

lemma Grow_spec:
  assumes "py_ok api" "ob_inv x" "OutputBuffer_Grow api x = Inr y"
  shows "ob_inv y \<and> ob_data y = ob_data x \<and> max_length (fst y) = max_length (fst x) \<and>
    length (blocks (fst y)) = length (blocks (fst x)) + 1 \<and>
    int (ob_free y) = (let n = next_block (length (blocks (fst x)));
                           rest = max_length (fst x) - allocated (fst x)
                       in if 0 \<le> max_length (fst x) then min n rest else n) \<and> 0 < ob_free y"
proof -
  obtain buffer ob where x: "x = (buffer, ob)" by (cases x)
  obtain bs bl where s: "blocks buffer = bs @ [bl]" "dst ob = length bs" "out_size ob = length bl"
    "out_pos ob \<le> length bl" "allocated buffer = int (length (concat bs) + length bl)"
    "0 \<le> max_length buffer \<longrightarrow> allocated buffer \<le> max_length buffer"
    using assms(2) x by (auto elim: ob_split)
  define rest where "rest = max_length buffer - allocated buffer"
  define n where "n = next_block (length (blocks buffer))"
  define bsz where "bsz = (if 0 \<le> max_length buffer \<and> rest < n then rest else n)"
  obtain b where full: "out_pos ob = length bl" and room: "0 \<le> max_length buffer \<longrightarrow> 0 < rest"
    and b: "new_bytes api (nat bsz) = Some b"
    and y: "y = (buffer\<lparr>blocks := blocks buffer @ [b], allocated := allocated buffer + bsz\<rparr>,
         ob\<lparr>dst := length (blocks buffer), out_size := nat bsz, out_pos := 0\<rparr>)"
    using assms(3) s(3)
    unfolding OutputBuffer_Grow_def x prod.case Let_def next_block_def [symmetric]
      rest_def [symmetric] n_def [symmetric] bsz_def [symmetric]
    by (auto split: option.splits if_splits)
  have pos: "0 < bsz" using room next_block_bounds(3) [of "length (blocks buffer)"]
    by (simp add: bsz_def n_def)
  have "length b = nat bsz" using assms(1) b by (simp add: py_ok_def)
  then have "ob_inv y" using s full pos by (auto simp: y ob_inv_def bsz_def rest_def split: if_splits)
  moreover have "ob_data y = ob_data x" using s full by (simp add: x y ob_data_def butlast_append)
  moreover have "int (ob_free y) = bsz" using pos by (simp add: y ob_free_def)
  ultimately show ?thesis using pos by (simp add: x y n_def rest_def bsz_def Let_def min_def)
qed

text \<open>\<open>Finish\<close> on both paths, the fast one and the copy.\<close>

lemma Finish_spec:
  assumes "py_ok api" "ob_inv x" "OutputBuffer_Finish api x = Inr r"
  shows "r = ob_data x"
proof -
  obtain buffer ob where x: "x = (buffer, ob)" by (cases x)
  obtain bs bl where s: "blocks buffer = bs @ [bl]" "dst ob = length bs" "out_size ob = length bl"
    "out_pos ob \<le> length bl" "allocated buffer = int (length (concat bs) + length bl)"
    using assms(2) x by (auto elim: ob_split)
  let ?copied = "concat bs @ take (out_pos ob) bl"
  show ?thesis
  proof (cases "length bs = 0 \<and> out_pos ob = length bl \<or> length bs = 1 \<and> out_pos ob = 0")
    case True
    then show ?thesis
    proof
      assume "length bs = 0 \<and> out_pos ob = length bl"
      then show ?thesis using assms(3) s by (simp add: x OutputBuffer_Finish_def ob_data_def)
    next
      assume one: "length bs = 1 \<and> out_pos ob = 0"
      then obtain b0 where "bs = [b0]" by (cases bs) auto
      then show ?thesis using assms(3) s one by (simp add: x OutputBuffer_Finish_def ob_data_def)
    qed
  next
    case False
    have sz: "nat (allocated buffer - (int (out_size ob) - int (out_pos ob))) = length ?copied"
      using s by simp
    obtain r0 where r0: "new_bytes api (length ?copied) = Some r0"
      and r: "r = ?copied @ drop (length ?copied) r0"
      using assms(3) False s unfolding OutputBuffer_Finish_def x prod.case Let_def sz
      by (auto split: option.splits if_splits)
    have "length r0 = length ?copied" using assms(1) r0 unfolding py_ok_def by blast
    then show ?thesis using s by (simp add: x r ob_data_def)
  qed
qed

lemma InitAndGrow_total:
  assumes "\<And>n. new_bytes api n \<noteq> None" "list_room api 1"
  obtains x where "OutputBuffer_InitAndGrow api maxlen = Inr x"
proof (cases "OutputBuffer_InitAndGrow api maxlen")
  case (Inl e)
  then have False using assms
    unfolding OutputBuffer_InitAndGrow_def Let_def by (simp split: option.splits) (metis option.distinct(1))
  then show ?thesis ..
qed

lemma Grow_total:
  assumes "\<And>n. new_bytes api n \<noteq> None" "\<And>n. list_room api n"
    and "ob_free x = 0" "ob_inv x" "0 \<le> max_length (fst x) \<Longrightarrow> allocated (fst x) < max_length (fst x)"
    and "allocated (fst x) \<le> 2 ^ 62"
  obtains y where "OutputBuffer_Grow api x = Inr y"
proof (cases "OutputBuffer_Grow api x")
  case (Inl e)
  define n where "n = next_block (length (blocks (fst x)))"
  define bsz where "bsz = (if 0 \<le> max_length (fst x) \<and> max_length (fst x) - allocated (fst x) < n
     then max_length (fst x) - allocated (fst x) else n)"
  have "next_block (length (blocks (fst x))) \<le> 256 * MB" by (rule next_block_bounds)
  then have "bsz \<le> 2 ^ 28" by (auto simp: MB_def bsz_def n_def)
  then have "\<not> PY_SSIZE_T_MAX - allocated (fst x) < bsz"
    using assms(6) by (simp add: PY_SSIZE_T_MAX_def)
  moreover have "out_pos (snd x) = out_size (snd x)"
    using assms(3,4) by (cases x) (simp add: ob_free_def ob_inv_def)
  moreover obtain b where "new_bytes api (nat bsz) = Some b" using assms(1) by blast
  ultimately have False using assms(2,5) Inl
    unfolding OutputBuffer_Grow_def Let_def next_block_def [symmetric]
    by (cases x) (simp add: bsz_def n_def split: option.splits if_splits)
  then show ?thesis ..
qed

lemma Finish_total:
  assumes "ob_inv x" "\<And>n. new_bytes api n \<noteq> None"
  shows "\<exists>r. OutputBuffer_Finish api x = Inr r"
proof -
  obtain r where "new_bytes api (nat (allocated (fst x) - (int (out_size (snd x)) - int (out_pos (snd x))))) = Some r"
    using assms(2) by blast
  then show ?thesis
    using assms(1) by (cases x) (simp add: OutputBuffer_Finish_def ob_inv_def Let_def)
qed

text \<open>Writing a list of bytes keeps as many as fit.\<close>

definition write_bytes :: "Byte list \<Rightarrow> obuf \<Rightarrow> obuf" where
  "write_bytes bs x = fold (\<lambda>b x. Writer x b) bs x"

lemma write_bytes_spec:
  assumes "ob_inv x"
  shows "ob_inv (write_bytes bs x) \<and> ob_data (write_bytes bs x) = ob_data x @ take (ob_free x) bs \<and>
    ob_free (write_bytes bs x) = ob_free x - length bs \<and>
    max_length (fst (write_bytes bs x)) = max_length (fst x) \<and>
    allocated (fst (write_bytes bs x)) = allocated (fst x) \<and>
    length (blocks (fst (write_bytes bs x))) = length (blocks (fst x))"
  using assms
proof (induction bs arbitrary: x)
  case Nil
  then show ?case by (simp add: write_bytes_def)
next
  case (Cons b bs)
  note W = Writer_spec [OF Cons.prems, of b]
  have len: "length (blocks (fst (Writer x b))) = length (blocks (fst x))"
    by (cases x) (simp add: Writer_def)
  have "write_bytes (b # bs) x = write_bytes bs (Writer x b)" by (simp add: write_bytes_def)
  moreover have "max_length (fst (Writer x b)) = max_length (fst x)"
    "allocated (fst (Writer x b)) = allocated (fst x)"
    by (cases x; simp add: Writer_def)+
  moreover have "ob_inv (Writer x b)" using W by blast
  note IH = Cons.IH [OF this]
  ultimately show ?case using W IH len by (cases "ob_free x") auto
qed

section \<open>Histories of a buffer\<close>

text \<open>\<open>ob_hist api x0 ws x\<close>: from \<open>x0\<close>, calls of \<open>Writer\<close> and successful calls of \<open>Grow\<close> lead
  to \<open>x\<close>, and \<open>ws\<close> are the bytes \<open>Writer\<close> did not drop.\<close>

inductive ob_hist :: "pyapi \<Rightarrow> obuf \<Rightarrow> Byte list \<Rightarrow> obuf \<Rightarrow> bool" for api x0 where
  start: "ob_hist api x0 [] x0"
| written: "ob_hist api x0 ws x \<Longrightarrow> ob_free x \<noteq> 0 \<Longrightarrow> ob_hist api x0 (ws @ [b]) (Writer x b)"
| dropped: "ob_hist api x0 ws x \<Longrightarrow> ob_free x = 0 \<Longrightarrow> ob_hist api x0 ws (Writer x b)"
| grown: "ob_hist api x0 ws x \<Longrightarrow> OutputBuffer_Grow api x = Inr y \<Longrightarrow> ob_hist api x0 ws y"

lemma ob_hist_data:
  assumes "ob_hist api x0 ws x" "py_ok api" "ob_inv x0" "ob_data x0 = []"
  shows "ob_inv x \<and> ob_data x = ws \<and> max_length (fst x) = max_length (fst x0)"
  using assms
proof (induction rule: ob_hist.induct)
  case (written ws x b)
  then show ?case using Writer_spec [of x b] by (cases x) (auto simp: Writer_def)
next
  case (dropped ws x b)
  then show ?case using Writer_spec [of x b] by (cases x) (auto simp: Writer_def)
next
  case (grown ws x y)
  then show ?case using Grow_spec [of api x y] by auto
qed simp

text \<open>
  C16.  The output buffer refines a byte list.  After any history of writes and growths of a buffer
  made by \<open>OutputBuffer_InitAndGrow\<close>, the bytes object that \<open>OutputBuffer_Finish\<close> returns, on
  the fast path or through the copy, is exactly the bytes written, in order and without gaps;
  it is never longer than \<open>max_length\<close>, when one is set.
\<close>

theorem output_buffer_refines:
  assumes "py_ok api" "OutputBuffer_InitAndGrow api maxlen = Inr x0" "ob_hist api x0 ws x"
    and "OutputBuffer_Finish api x = Inr r"
  shows "r = ws \<and> (0 \<le> maxlen \<longrightarrow> int (length r) \<le> maxlen)"
proof -
  note I = InitAndGrow_spec [OF assms(1,2)]
  then have H: "ob_inv x" "ob_data x = ws" "max_length (fst x) = maxlen"
    using ob_hist_data [OF assms(3,1)] by auto
  have r: "r = ws" using Finish_spec [OF assms(1) H(1) assms(4)] H by simp
  have "int (length ws) \<le> allocated (fst x)" using ob_data_length [OF H(1)] H(2) by simp
  moreover have "0 \<le> maxlen \<longrightarrow> allocated (fst x) \<le> maxlen"
    using H(1,3) by (cases x) (auto simp: ob_inv_def)
  ultimately show ?thesis using r by auto
qed

text \<open>An interpreter with enough memory.\<close>

definition good_api :: pyapi where
  "good_api = \<lparr>new_bytes = (\<lambda>n. Some (replicate n 0)), list_room = (\<lambda>n. True)\<rparr>"

lemma good_api_ok: "py_ok good_api" "new_bytes good_api n \<noteq> None" "list_room good_api n"
  by (simp_all add: good_api_def py_ok_def)

text \<open>Three bytes into a buffer of two, then the fast path of \<open>Finish\<close>.\<close>

theorem output_buffer_refines_witness:
  "\<exists>x0 x. OutputBuffer_InitAndGrow good_api 2 = Inr x0 \<and> ob_hist good_api x0 [7, 8] x \<and>
     OutputBuffer_Finish good_api x = Inr [7, 8]"
proof -
  obtain x0 where x0: "OutputBuffer_InitAndGrow good_api 2 = Inr x0"
    by (rule InitAndGrow_total [OF good_api_ok(2,3)])
  let ?x1 = "Writer x0 7" let ?x2 = "Writer ?x1 8" let ?x3 = "Writer ?x2 9"
  note I = InitAndGrow_spec [OF good_api_ok(1) x0]
  then have f0: "ob_free x0 = 2" by (simp add: KB_def)
  have i1: "ob_inv ?x1" "ob_free ?x1 = 1" using Writer_spec [of x0 7] I f0 by auto
  have i2: "ob_inv ?x2" "ob_free ?x2 = 0" using Writer_spec [OF i1(1), of 8] i1(2) by auto
  have "ob_hist good_api x0 ([] @ [7]) ?x1" using f0 by (intro ob_hist.written ob_hist.start) simp
  then have "ob_hist good_api x0 (([] @ [7]) @ [8]) ?x2" by (rule ob_hist.written) (simp add: i1(2))
  then have h: "ob_hist good_api x0 [7, 8] ?x3" using i2 ob_hist.dropped [of good_api x0 _ ?x2] by simp
  have "ob_inv ?x3" using Writer_spec [OF i2(1), of 9] by simp
  then obtain r where r: "OutputBuffer_Finish good_api ?x3 = Inr r"
    using Finish_total good_api_ok(2) by blast
  have "r = [7, 8]" using output_buffer_refines [OF good_api_ok(1) x0 h r] by simp
  then show ?thesis using x0 h r by (intro exI [of _ x0] exI [of _ ?x3] conjI) simp_all
qed

end
