(* ===== verification/Thread_Decoder.thy ===== *)
theory Thread_Decoder
  imports Output_Buffer
begin

text \<open>
  The decoding thread (\<^verbatim>\<open>src/lib/buffer/ThreadDecoder.c\<close>, \<^verbatim>\<open>Reader\<close> in \<^verbatim>\<open>Buffer.c\<close>).  A call of
  \<^verbatim>\<open>Ppmd7T_decode\<close> or \<^verbatim>\<open>Ppmd8T_decode\<close> (the two differ in the symbol decoder only) starts a worker thread, or wakes the one that an
  earlier call left waiting for input in the middle of a symbol, and waits until the worker has
  ended or has run out of input again.

  The symbol decoder is an argument: \<open>dec st bs\<close> decodes one symbol from the state \<open>st\<close> and the
  input \<open>bs\<close> and returns the symbol, the new state and what is left of \<open>bs\<close>; \<open>None\<close> is undefined
  behaviour.  It reads 0 past the end of \<open>bs\<close>.  To follow it byte by byte, the model runs it on the
  bytes it has read for the symbol (\<open>got\<close>), those it may still read, and one more: it reads
  another byte now exactly when that run uses more than \<open>got\<close>.

  The program is a step relation: a critical section under \<^verbatim>\<open>mutex\<close> is one step, so is each
  unlocked access.  \<^verbatim>\<open>pthread_cond_timedwait\<close> may return at any time; a wait that finds its
  condition false goes back to waiting and is no step.
\<close>

section \<open>State\<close>

text \<open>\<^verbatim>\<open>InBuffer\<close>: \<open>src\<close> is the memory from \<^verbatim>\<open>src\<close> on that holds input; to read beyond it is undefined.\<close>

record InBuffer =
  src :: "Byte list"
  in_size :: nat
  in_pos :: nat

text \<open>\<^verbatim>\<open>ppmd_info\<close> with its \<^verbatim>\<open>ppmd_thread_control_t\<close> and the codec it points to.\<close>

record 's ppmd_info =
  cPpmd :: 's
  tin :: InBuffer
  tout :: obuf
  tmax :: int
  tresult :: int
  tempty :: bool
  tfinished :: bool

definition PPMD_RESULT_EOF :: int where "PPMD_RESULT_EOF = - 1"
definition PPMD_RESULT_ERROR :: int where "PPMD_RESULT_ERROR = - 2"

text \<open>\<open>Reader\<close> of \<^verbatim>\<open>Buffer.c\<close>, which does not look at \<^verbatim>\<open>size\<close>.\<close>

definition Reader :: "InBuffer \<Rightarrow> (Byte \<times> InBuffer) option" where
  "Reader b = (if in_pos b < length (src b) then Some (src b ! in_pos b, b\<lparr>in_pos := in_pos b + 1\<rparr>) else None)"

text \<open>\<^verbatim>\<open>*((Byte * )out->dst + out->pos++) = (Byte) c\<close>; \<open>None\<close>: beyond the block.\<close>

definition store_byte :: "obuf \<Rightarrow> Byte \<Rightarrow> obuf option" where
  "store_byte = (\<lambda>(buffer, ob) b.
     if out_pos ob < out_size ob
     then Some (buffer\<lparr>blocks := (blocks buffer)[dst ob := (blocks buffer ! dst ob)[out_pos ob := b]]\<rparr>,
                ob\<lparr>out_pos := out_pos ob + 1\<rparr>)
     else None)"

definition out_full :: "obuf \<Rightarrow> bool" where
  "out_full x \<longleftrightarrow> out_size (snd x) = out_pos (snd x)"

text \<open>The worker thread: \<open>Testing i m\<close> at the loop's head with its counter and its copy of
  \<^verbatim>\<open>max_length\<close>; \<open>Decoding i m got\<close> inside the symbol decoder, which has read \<open>got\<close>; \<open>Waiting\<close> on
  \<^verbatim>\<open>notEmpty\<close> in \<^verbatim>\<open>Ppmd_thread_Reader\<close>; \<open>Reading\<close> behind the wait.\<close>

datatype worker =
    NoThread
  | Starting
  | Testing int int
  | Decoding int int "Byte list"
  | Waiting int int "Byte list"
  | Reading int int "Byte list"
  | Storing int int int
  | Exiting int
  | Exited

text \<open>The calling thread: \<open>Idle\<close> outside \<^verbatim>\<open>T_decode\<close>, in it the points between its critical
  sections, and those of \<^verbatim>\<open>T_Free\<close>.\<close>

datatype controller =
    Idle
  | Enter int
  | Kick bool
  | Await
  | Join
  | Return int
  | Cancel
  | Cancelled
  | Freed

type_synonym 's conf = "controller \<times> worker \<times> 's ppmd_info"
type_synonym 's symbol_decoder = "'s \<Rightarrow> Byte list \<Rightarrow> (int \<times> 's \<times> Byte list) option"

section \<open>Steps\<close>

definition avail :: "InBuffer \<Rightarrow> Byte list" where
  "avail b = drop (in_pos b) (take (in_size b) (src b))"

definition ahead :: "'s symbol_decoder \<Rightarrow> 's ppmd_info \<Rightarrow> Byte list \<Rightarrow> (int \<times> 's \<times> Byte list) option" where
  "ahead dec s got = dec (cPpmd s) (got @ avail (tin s) @ [0])"

inductive worker_step :: "'s symbol_decoder \<Rightarrow> worker \<times> 's ppmd_info \<Rightarrow> worker \<times> 's ppmd_info \<Rightarrow> bool"
  for dec where
  w_start: "worker_step dec (Starting, s) (Testing 0 (tmax s), s\<lparr>tfinished := False\<rparr>)"
| w_stop: "\<not> i < m \<or> out_full (tout s) \<Longrightarrow> worker_step dec (Testing i m, s) (Exiting i, s)"
| w_decode: "i < m \<Longrightarrow> \<not> out_full (tout s) \<Longrightarrow> worker_step dec (Testing i m, s) (Decoding i m [], s)"
| w_read: "ahead dec s got = Some (c, st, l) \<Longrightarrow> length l \<le> length (avail (tin s)) \<Longrightarrow> in_pos (tin s) \<noteq> in_size (tin s) \<Longrightarrow> Reader (tin s) = Some (b, inb) \<Longrightarrow>
    worker_step dec (Decoding i m got, s) (Decoding i m (got @ [b]), s\<lparr>tin := inb\<rparr>)"
| w_block: "ahead dec s got = Some (c, st, l) \<Longrightarrow> length l \<le> length (avail (tin s)) \<Longrightarrow> in_pos (tin s) = in_size (tin s) \<Longrightarrow>
    worker_step dec (Decoding i m got, s) (Waiting i m got, s\<lparr>tempty := True\<rparr>)"
| w_wake: "\<not> tempty s \<Longrightarrow> worker_step dec (Waiting i m got, s) (Reading i m got, s)"
| w_resume: "Reader (tin s) = Some (b, inb) \<Longrightarrow>
    worker_step dec (Reading i m got, s) (Decoding i m (got @ [b]), s\<lparr>tin := inb\<rparr>)"
| w_symbol: "ahead dec s got = Some (c, st, l) \<Longrightarrow> length (avail (tin s)) < length l \<Longrightarrow> c \<noteq> PPMD_RESULT_EOF \<Longrightarrow> c \<noteq> PPMD_RESULT_ERROR \<Longrightarrow>
    worker_step dec (Decoding i m got, s) (Storing i m c, s\<lparr>cPpmd := st\<rparr>)"
| w_end: "ahead dec s got = Some (c, st, l) \<Longrightarrow> length (avail (tin s)) < length l \<Longrightarrow> c = PPMD_RESULT_EOF \<or> c = PPMD_RESULT_ERROR \<Longrightarrow>
    worker_step dec (Decoding i m got, s) (Exiting c, s\<lparr>cPpmd := st\<rparr>)"
| w_store: "store_byte (tout s) (word_of_int c) = Some x \<Longrightarrow>
    worker_step dec (Storing i m c, s) (Testing (i + 1) m, s\<lparr>tout := x\<rparr>)"
| w_exit: "worker_step dec (Exiting r, s) (Exited, s\<lparr>tresult := r, tfinished := True\<rparr>)"

text \<open>A call of \<^verbatim>\<open>T_decode\<close>: \<open>call_step\<close> is a step of it or of the worker during it.\<close>

fun in_call :: "controller \<Rightarrow> bool" where
  "in_call (Enter m) = True"
| "in_call (Kick b) = True"
| "in_call Await = True"
| "in_call Join = True"
| "in_call c = False"

inductive call_step :: "'s symbol_decoder \<Rightarrow> 's conf \<Rightarrow> 's conf \<Rightarrow> bool" for dec where
  c_enter: "call_step dec (Enter m, w, s) (Kick (tfinished s), w, s\<lparr>tmax := m, tresult := 0\<rparr>)"
| c_create: "call_step dec (Kick True, w, s) (Await, Starting, s\<lparr>tfinished := False\<rparr>)"
| c_refill: "call_step dec (Kick False, w, s) (Await, w, s\<lparr>tempty := False\<rparr>)"
| c_empty: "tempty s \<Longrightarrow> call_step dec (Await, w, s) (Return 0, w, s)"
| c_finished: "\<not> tempty s \<Longrightarrow> tfinished s \<Longrightarrow> call_step dec (Await, w, s) (Join, w, s)"
| c_join: "call_step dec (Join, Exited, s) (Return (tresult s), NoThread, s)"
| c_worker: "worker_step dec (w, s) (w', s') \<Longrightarrow> in_call c \<Longrightarrow> call_step dec (c, w, s) (c, w', s')"

text \<open>The whole program: between the calls the client exchanges the input and the output buffer;
  the worker is free to move then, too.  \<^verbatim>\<open>T_Free\<close> ends it: it wakes a worker that has not finished
  and cancels it, which takes effect where the worker waits.\<close>

inductive thread_step :: "'s symbol_decoder \<Rightarrow> 's conf \<Rightarrow> 's conf \<Rightarrow> bool" for dec where
  t_client: "thread_step dec (Idle, w, s) (Idle, w, s\<lparr>tin := inb, tout := x\<rparr>)"
| t_call: "thread_step dec (Idle, w, s) (Enter m, w, s)"
| t_return: "thread_step dec (Return r, w, s) (Idle, w, s)"
| t_step: "call_step dec cf cf' \<Longrightarrow> thread_step dec cf cf'"
| t_worker: "worker_step dec (w, s) (w', s') \<Longrightarrow> thread_step dec (c, w, s) (c, w', s')"
| t_free: "tfinished s \<Longrightarrow> thread_step dec (Idle, w, s) (Freed, w, s)"
| t_free_wake: "\<not> tfinished s \<Longrightarrow> thread_step dec (Idle, w, s) (Cancel, w, s\<lparr>tempty := False\<rparr>)"
| t_cancel: "thread_step dec (Cancel, w, s) (Cancelled, w, s)"
| t_cancelled: "thread_step dec (Cancelled, Waiting i m got, s) (Freed, NoThread, s\<lparr>tfinished := True\<rparr>)"
| t_joined: "thread_step dec (Cancelled, Exited, s) (Freed, NoThread, s\<lparr>tfinished := True\<rparr>)"

text \<open>\<^verbatim>\<open>Ppmd_thread_decode_init\<close>; the buffers and the codec are what the client has put there.\<close>

definition thread_init :: "'s ppmd_info \<Rightarrow> 's conf" where
  "thread_init s = (Idle, NoThread, s\<lparr>tempty := False, tfinished := True\<rparr>)"

definition reachable :: "'s symbol_decoder \<Rightarrow> 's conf \<Rightarrow> bool" where
  "reachable dec cf \<longleftrightarrow> (\<exists>s. (thread_step dec)\<^sup>*\<^sup>* (thread_init s) cf)"

inductive_cases worker_stepE: "worker_step dec (w, s) cf"
inductive_cases call_stepE: "call_step dec (c, w, s) cf"
inductive_cases thread_stepE: "thread_step dec (c, w, s) cf"

section \<open>The handover between the two threads\<close>

text \<open>Outside a call there is either no worker, or one that waits for input.\<close>

definition at_rest :: "worker \<Rightarrow> 's ppmd_info \<Rightarrow> bool" where
  "at_rest w s \<longleftrightarrow> (w = NoThread \<and> tfinished s \<and> \<not> tempty s) \<or>
     ((\<exists>i m got. w = Waiting i m got) \<and> tempty s \<and> \<not> tfinished s)"

definition at_work :: "worker \<Rightarrow> 's ppmd_info \<Rightarrow> bool" where
  "at_work w s \<longleftrightarrow> w \<noteq> NoThread \<and> (tfinished s \<longleftrightarrow> w = Exited) \<and> (tempty s \<longrightarrow> (\<exists>i m got. w = Waiting i m got))"

fun thread_inv :: "'s conf \<Rightarrow> bool" where
  "thread_inv (Kick b, w, s) \<longleftrightarrow> at_rest w s \<and> b = tfinished s"
| "thread_inv (Await, w, s) \<longleftrightarrow> at_work w s"
| "thread_inv (Join, w, s) \<longleftrightarrow> w = Exited \<and> tfinished s \<and> \<not> tempty s"
| "thread_inv (Cancel, w, s) \<longleftrightarrow> at_work w s"
| "thread_inv (Cancelled, w, s) \<longleftrightarrow> at_work w s"
| "thread_inv (Freed, w, s) \<longleftrightarrow> w = NoThread \<and> tfinished s"
| "thread_inv (c, w, s) \<longleftrightarrow> at_rest w s"

lemma worker_step_at_rest: "worker_step dec (w, s) cf \<Longrightarrow> at_rest w s \<Longrightarrow> False"
  by (auto simp: at_rest_def elim: worker_stepE)

lemma worker_step_at_work: "worker_step dec (w, s) (w', s') \<Longrightarrow> at_work w s \<Longrightarrow> at_work w' s'"
  by (auto simp: at_work_def elim!: worker_stepE)

lemma call_step_inv:
  assumes "call_step dec (c, w, s) (c', w', s')" "thread_inv (c, w, s)"
  shows "thread_inv (c', w', s')"
  using assms
proof (cases rule: call_step.cases)
  case c_worker
  then show ?thesis using assms(2) worker_step_at_work [of dec w s w' s'] worker_step_at_rest [of dec w s]
    by (cases c) (auto elim: worker_stepE)
qed (use assms(2) in \<open>auto simp: at_rest_def at_work_def\<close>)

lemma thread_step_inv:
  assumes "thread_step dec cf cf'" "thread_inv cf"
  shows "thread_inv cf'"
  using assms
proof (induction rule: thread_step.induct)
  case (t_step cf cf')
  then show ?case by (cases cf; cases cf') (auto intro: call_step_inv)
next
  case (t_worker w s w' s' c)
  then show ?case using worker_step_at_work [of dec w s w' s'] worker_step_at_rest [of dec w s]
    by (cases c) (auto elim: worker_stepE)
qed (auto simp: at_rest_def at_work_def)

lemma reachable_inv: "reachable dec cf \<Longrightarrow> thread_inv cf"
proof -
  assume "reachable dec cf"
  then obtain s where "(thread_step dec)\<^sup>*\<^sup>* (thread_init s) cf" by (auto simp: reachable_def)
  moreover have "thread_inv (thread_init s)" by (simp add: thread_init_def at_rest_def)
  ultimately show ?thesis by (induction rule: rtranclp_induct) (auto intro: thread_step_inv)
qed

section \<open>A call as a function\<close>

text \<open>What a worker does that runs alone until it has ended or waits: from the head of the loop
  (\<open>loop\<close>) and from within the symbol decoder (\<open>work\<close>).\<close>

definition ends :: "int \<Rightarrow> 's ppmd_info \<Rightarrow> worker \<times> 's ppmd_info" where
  "ends r s = (Exited, s\<lparr>tresult := r, tfinished := True\<rparr>)"

function work :: "'s symbol_decoder \<Rightarrow> int \<Rightarrow> int \<Rightarrow> Byte list \<Rightarrow> 's ppmd_info \<Rightarrow> (worker \<times> 's ppmd_info) option" where
  "work dec m i got s =
     (case ahead dec s got of
        None \<Rightarrow> None
      | Some (c, st, l) \<Rightarrow>
          let k = length (avail (tin s)) in
          if l = [] then Some (Waiting i m (got @ avail (tin s)),
                               s\<lparr>tin := (tin s)\<lparr>in_pos := in_pos (tin s) + k\<rparr>, tempty := True\<rparr>)
          else let s = s\<lparr>cPpmd := st, tin := (tin s)\<lparr>in_pos := in_pos (tin s) + (k - (length l - 1))\<rparr>\<rparr> in
            if c = PPMD_RESULT_EOF \<or> c = PPMD_RESULT_ERROR then Some (ends c s)
            else case store_byte (tout s) (word_of_int c) of
                None \<Rightarrow> None
              | Some x \<Rightarrow> let s = s\<lparr>tout := x\<rparr> in
                  if i + 1 < m \<and> \<not> out_full (tout s) then work dec m (i + 1) [] s
                  else Some (ends (i + 1) s))"
  by pat_completeness auto
termination by (relation "measure (\<lambda>(dec, m, i, got, s). nat (m - i))") auto

declare work.simps [simp del]

definition loop :: "'s symbol_decoder \<Rightarrow> int \<Rightarrow> int \<Rightarrow> 's ppmd_info \<Rightarrow> (worker \<times> 's ppmd_info) option" where
  "loop dec m i s = (if i < m \<and> \<not> out_full (tout s) then work dec m i [] s else Some (ends i s))"

definition resume :: "'s symbol_decoder \<Rightarrow> int \<Rightarrow> int \<Rightarrow> Byte list \<Rightarrow> 's ppmd_info \<Rightarrow> (worker \<times> 's ppmd_info) option" where
  "resume dec m i got s =
     (case Reader (tin s) of None \<Rightarrow> None
      | Some (b, inb) \<Rightarrow> work dec m i (got @ [b]) (s\<lparr>tin := inb\<rparr>))"

definition leave :: "(worker \<times> 's ppmd_info) option \<Rightarrow> (int \<times> worker \<times> 's ppmd_info) option" where
  "leave x = (case x of
       Some (Exited, s) \<Rightarrow> Some (tresult s, NoThread, s)
     | Some (Waiting i m got, s) \<Rightarrow> Some (0, Waiting i m got, s)
     | _ \<Rightarrow> None)"

definition T_decode ::
    "'s symbol_decoder \<Rightarrow> int \<Rightarrow> worker \<Rightarrow> 's ppmd_info \<Rightarrow> (int \<times> worker \<times> 's ppmd_info) option" where
  "T_decode dec m w s =
     (let s = s\<lparr>tmax := m, tresult := 0\<rparr> in
      if tfinished s then leave (loop dec m 0 (s\<lparr>tfinished := False\<rparr>))
      else case w of Waiting i m' got \<Rightarrow> leave (resume dec m' i got (s\<lparr>tempty := False\<rparr>)) | _ \<Rightarrow> None)"

text \<open>The same from every point of a call.\<close>

fun worker_future :: "'s symbol_decoder \<Rightarrow> worker \<Rightarrow> 's ppmd_info \<Rightarrow> (worker \<times> 's ppmd_info) option" where
  "worker_future dec NoThread s = None"
| "worker_future dec Starting s = loop dec (tmax s) 0 (s\<lparr>tfinished := False\<rparr>)"
| "worker_future dec (Testing i m) s = loop dec m i s"
| "worker_future dec (Decoding i m got) s = work dec m i got s"
| "worker_future dec (Waiting i m got) s =
     (if tempty s then Some (Waiting i m got, s) else resume dec m i got s)"
| "worker_future dec (Reading i m got) s = resume dec m i got s"
| "worker_future dec (Storing i m c) s =
     (case store_byte (tout s) (word_of_int c) of None \<Rightarrow> None | Some x \<Rightarrow> loop dec m (i + 1) (s\<lparr>tout := x\<rparr>))"
| "worker_future dec (Exiting r) s = Some (ends r s)"
| "worker_future dec Exited s = Some (Exited, s)"

fun call_future :: "'s symbol_decoder \<Rightarrow> 's conf \<Rightarrow> (int \<times> worker \<times> 's ppmd_info) option" where
  "call_future dec (Enter m, w, s) = T_decode dec m w s"
| "call_future dec (Kick b, w, s) =
     (if b then leave (loop dec (tmax s) 0 (s\<lparr>tfinished := False\<rparr>))
      else case w of Waiting i m' got \<Rightarrow> leave (resume dec m' i got (s\<lparr>tempty := False\<rparr>)) | _ \<Rightarrow> None)"
| "call_future dec (Await, w, s) = leave (worker_future dec w s)"
| "call_future dec (Join, w, s) = leave (worker_future dec w s)"
| "call_future dec (Return r, w, s) = Some (r, w, s)"
| "call_future dec (c, w, s) = None"

definition tin_ok :: "InBuffer \<Rightarrow> bool" where
  "tin_ok b \<longleftrightarrow> in_pos b \<le> in_size b \<and> in_size b = length (src b)"

lemma length_avail: "tin_ok b \<Longrightarrow> length (avail b) = in_size b - in_pos b"
  by (simp add: tin_ok_def avail_def)

lemma Reader_avail:
  assumes "tin_ok b" "Reader b = Some (x, b')"
  shows "avail b = x # avail b'" "tin_ok b'" "b' = b\<lparr>in_pos := in_pos b + 1\<rparr>"
  using assms by (auto simp: Reader_def tin_ok_def avail_def Cons_nth_drop_Suc split: if_splits)

lemma worker_step_future:
  assumes "worker_step dec (w, s) (w', s')" "tin_ok (tin s)"
  shows "worker_future dec w' s' = worker_future dec w s \<and> tin_ok (tin s')"
  using assms
proof (cases rule: worker_step.cases)
  case (w_read got c st l b inb i m)
  note R = Reader_avail [OF assms(2) \<open>Reader (tin s) = Some (b, inb)\<close>]
  then have "ahead dec (s\<lparr>tin := inb\<rparr>) (got @ [b]) = Some (c, st, l)"
    using w_read by (simp add: ahead_def)
  moreover have "Suc (n + length (avail inb)) - (length l - Suc 0) = Suc (n + length (avail inb) - (length l - Suc 0))"
    for n using w_read R(1) by auto
  ultimately show ?thesis using w_read R
    by (simp add: work.simps [of dec m i got] work.simps [of dec m i "got @ [b]"] Let_def)
next
  case (w_block got c st l i m)
  then have "avail (tin s) = []" by (simp add: avail_def)
  then show ?thesis using w_block assms(2) by (simp add: work.simps)
next
  case (w_symbol got c st l i m)
  then have "l \<noteq> []" "length (avail (tin s)) - (length l - Suc 0) = 0" by auto
  then show ?thesis using w_symbol assms(2)
    by (cases "store_byte (tout s) (word_of_int c)") (simp_all add: work.simps [of dec m i got] Let_def loop_def)
next
  case (w_end got c st l i m)
  then have "l \<noteq> []" "length (avail (tin s)) - (length l - Suc 0) = 0" by auto
  then show ?thesis using w_end assms(2) by (simp add: work.simps [of dec m i got] Let_def)
qed (auto simp: loop_def resume_def ends_def dest: Reader_avail(2))

lemma call_step_future:
  assumes "call_step dec (c, w, s) (c', w', s')" "thread_inv (c, w, s)" "tin_ok (tin s)"
  shows "call_future dec (c', w', s') = call_future dec (c, w, s) \<and> tin_ok (tin s')"
  using assms
proof (cases rule: call_step.cases)
  case c_worker
  then show ?thesis
    using assms(2) worker_step_future [OF _ assms(3), of dec w w' s'] worker_step_at_rest [of dec w s]
    by (cases c) (auto elim: worker_stepE)
qed (use assms(2,3) in \<open>auto simp: T_decode_def at_rest_def at_work_def leave_def split: worker.splits\<close>)

lemma call_run_future:
  assumes "(call_step dec)\<^sup>*\<^sup>* cf cf'" "thread_inv cf" "tin_ok (tin (snd (snd cf)))"
  shows "call_future dec cf' = call_future dec cf \<and> thread_inv cf' \<and> tin_ok (tin (snd (snd cf')))"
  using assms
proof (induction rule: rtranclp_induct)
  case (step cf1 cf2)
  then show ?case
    using call_step_future [of dec "fst cf1" "fst (snd cf1)" "snd (snd cf1)"]
      call_step_inv [of dec "fst cf1" "fst (snd cf1)" "snd (snd cf1)"]
    by (cases cf2) auto
qed simp

section \<open>Calls return\<close>

text \<open>A measure that every step of a call decreases: the point of the controller, then the symbols
  the worker may still produce and the bytes it may still read.\<close>

fun controller_rank :: "controller \<Rightarrow> nat" where
  "controller_rank (Enter m) = 5"
| "controller_rank (Kick b) = 4"
| "controller_rank Await = 3"
| "controller_rank Join = 2"
| "controller_rank (Return r) = 1"
| "controller_rank c = 0"

fun worker_rank :: "worker \<Rightarrow> 's ppmd_info \<Rightarrow> nat" where
  "worker_rank NoThread s = 0"
| "worker_rank Starting s = 4 * nat (tmax s) + 2 * (length (src (tin s)) - in_pos (tin s)) + 3"
| "worker_rank (Testing i m) s = 4 * nat (m - i) + 2 * (length (src (tin s)) - in_pos (tin s)) + 2"
| "worker_rank (Decoding i m got) s = 4 * nat (m - (i + 1)) + 2 * (length (src (tin s)) - in_pos (tin s)) + 5"
| "worker_rank (Waiting i m got) s =
     (if tempty s then 0 else 4 * nat (m - (i + 1)) + 2 * (length (src (tin s)) - in_pos (tin s)) + 7)"
| "worker_rank (Reading i m got) s = 4 * nat (m - (i + 1)) + 2 * (length (src (tin s)) - in_pos (tin s)) + 6"
| "worker_rank (Storing i m c) s = 4 * nat (m - (i + 1)) + 2 * (length (src (tin s)) - in_pos (tin s)) + 4"
| "worker_rank (Exiting r) s = 1"
| "worker_rank Exited s = 0"

definition call_rank :: "'s conf \<Rightarrow> nat \<times> nat" where
  "call_rank = (\<lambda>(c, w, s). (controller_rank c, worker_rank w s))"

lemma worker_step_rank: "worker_step dec (w, s) (w', s') \<Longrightarrow> worker_rank w' s' < worker_rank w s"
  by (auto simp: Reader_def split: if_splits elim!: worker_stepE)

lemma call_step_rank: "call_step dec cf cf' \<Longrightarrow> (call_rank cf', call_rank cf) \<in> less_than <*lex*> less_than"
  by (induction rule: call_step.induct) (auto simp: call_rank_def dest: worker_step_rank)

lemma call_step_wf: "wf {(cf', cf). call_step dec cf cf'}"
  by (rule wf_subset [OF wf_inv_image [of "less_than <*lex*> less_than" call_rank]])
    (auto dest: call_step_rank)

lemma work_progress:
  assumes "worker_future dec w s \<noteq> None" "w \<noteq> Exited" "\<not> (tempty s \<and> (\<exists>i m got. w = Waiting i m got))" "tin_ok (tin s)"
  shows "\<exists>w' s'. worker_step dec (w, s) (w', s')"
proof (cases w)
  case (Decoding i m got)
  then obtain c st l where a: "ahead dec s got = Some (c, st, l)"
    using assms(1) by (auto simp: work.simps split: option.splits)
  have "in_pos (tin s) \<noteq> in_size (tin s) \<Longrightarrow> \<exists>b inb. Reader (tin s) = Some (b, inb)"
    using assms(4) by (auto simp: Reader_def tin_ok_def)
  then show ?thesis
    using Decoding a w_read [OF a] w_block [OF a] w_symbol [OF a] w_end [OF a]
    by (cases "length l \<le> length (avail (tin s))") (fastforce simp: not_le)+
next
  case (Reading i m got)
  then obtain b inb where "Reader (tin s) = Some (b, inb)"
    using assms(1) by (auto simp: resume_def split: option.splits)
  then show ?thesis using Reading worker_step.w_resume by blast
next
  case (Storing i m c)
  then show ?thesis using assms(1) w_store [of s c _ dec i m] by (auto split: option.splits)
next
  case (Testing i m)
  then show ?thesis using w_stop [of i m s dec] w_decode [of i m s dec] by blast
qed (use assms in \<open>auto intro: worker_step.intros\<close>)

lemma call_progress:
  assumes "call_future dec (c, w, s) \<noteq> None" "in_call c" "thread_inv (c, w, s)" "tin_ok (tin s)"
  shows "\<exists>cf'. call_step dec (c, w, s) cf'"
proof (cases c)
  case (Kick b)
  then show ?thesis by (cases b) (auto intro: call_step.intros)
next
  case Await
  show ?thesis
  proof (cases "w = Exited \<or> (tempty s \<and> (\<exists>i m got. w = Waiting i m got))")
    case True
    then show ?thesis using Await assms(3) c_empty [of s dec w] c_finished [of s dec w]
      by (cases "tempty s") (auto simp: at_work_def)
  next
    case False
    moreover have "worker_future dec w s \<noteq> None" using assms(1) Await
      by (cases "worker_future dec w s") (simp_all add: leave_def)
    ultimately obtain w' s' where "worker_step dec (w, s) (w', s')" using work_progress assms(4) by blast
    then show ?thesis using c_worker [of dec w s w' s' c] assms(2) by blast
  qed
qed (use assms in \<open>auto intro: call_step.intros\<close>)

lemma call_completes:
  assumes "thread_inv cf" "tin_ok (tin (snd (snd cf)))" "call_future dec cf = Some (r, w', s')"
  shows "(call_step dec)\<^sup>*\<^sup>* cf (Return r, w', s')"
  using assms
proof (induction cf rule: wf_induct_rule [OF call_step_wf [of dec]])
  case (1 cf)
  obtain c w s where cf: "cf = (c, w, s)" by (cases cf)
  show ?case
  proof (cases "in_call c")
    case True
    then obtain cf1 where st: "call_step dec cf cf1"
      using call_progress [of dec c w s] "1.prems" cf by auto
    obtain c1 w1 s1 where cf1: "cf1 = (c1, w1, s1)" by (cases cf1)
    note f = call_step_future [OF st [unfolded cf cf1]] and i = call_step_inv [OF st [unfolded cf cf1]]
    have "(call_step dec)\<^sup>*\<^sup>* cf1 (Return r, w', s')"
      using "1.prems" f i st cf cf1 by (intro "1.IH") auto
    then show ?thesis by (rule converse_rtranclp_into_rtranclp [of "call_step dec", OF st])
  next
    case False
    then have "cf = (Return r, w', s')" using "1.prems"(3) cf by (cases c) auto
    then show ?thesis by simp
  qed
qed

section \<open>What a call produces\<close>

lemma store_byte_Writer: "store_byte x b = Some y \<Longrightarrow> y = Writer x b \<and> ob_free x \<noteq> 0"
  by (cases x) (auto simp: store_byte_def Writer_def ob_free_def split: if_splits)

lemma out_full_free: "ob_inv x \<Longrightarrow> out_full x \<longleftrightarrow> ob_free x = 0"
  by (cases x) (auto simp: out_full_def ob_inv_def ob_free_def)

definition produces :: "int \<Rightarrow> int \<Rightarrow> 's ppmd_info \<Rightarrow> worker \<times> 's ppmd_info \<Rightarrow> Byte list \<Rightarrow> bool" where
  "produces m i s = (\<lambda>(w', s') bs. ob_inv (tout s') \<and> ob_data (tout s') = ob_data (tout s) @ bs \<and>
     ((w' = Exited \<and> (tresult s' < 0 \<or>
         tresult s' = i + int (length bs) \<and>
           (i < m \<longrightarrow> tresult s' \<le> m \<and> (tresult s' = m \<or> out_full (tout s'))))) \<or>
      (\<exists>got'. w' = Waiting (i + int (length bs)) m got')))"

lemma work_produces:
  "work dec m i got s = Some ws \<Longrightarrow> ob_inv (tout s) \<Longrightarrow> \<exists>bs. produces m i s ws bs"
proof (induction dec m i got s rule: work.induct)
  case (1 dec m i got s)
  obtain c st l where a: "ahead dec s got = Some (c, st, l)"
    using "1.prems"(1) by (auto simp: work.simps [of dec m i got] split: option.splits)
  define k where "k = length (avail (tin s))"
  define s1 where "s1 = s\<lparr>cPpmd := st, tin := (tin s)\<lparr>in_pos := in_pos (tin s) + (k - (length l - 1))\<rparr>\<rparr>"
  have t1: "tout s1 = tout s" by (simp add: s1_def)
  show ?case
  proof (cases "l = [] \<or> c = PPMD_RESULT_EOF \<or> c = PPMD_RESULT_ERROR")
    case True
    then have "produces m i s ws []"
      using "1.prems" a t1
      by (auto simp: work.simps [of dec m i got] Let_def produces_def ends_def k_def [symmetric] s1_def [symmetric]
          PPMD_RESULT_EOF_def PPMD_RESULT_ERROR_def split: if_splits)
    then show ?thesis ..
  next
    case False
    then have w: "(case store_byte (tout s1) (word_of_int c) of None \<Rightarrow> None
      | Some x \<Rightarrow> if i + 1 < m \<and> \<not> out_full x then work dec m (i + 1) [] (s1\<lparr>tout := x\<rparr>)
                  else Some (ends (i + 1) (s1\<lparr>tout := x\<rparr>))) = Some ws"
      using "1.prems"(1) a unfolding s1_def k_def work.simps [of dec m i got] Let_def One_nat_def
      by (cases "store_byte (tout s) (word_of_int c)") simp_all
    then obtain x where x: "store_byte (tout s1) (word_of_int c) = Some x"
      by (cases "store_byte (tout s1) (word_of_int c)") auto
    have W: "ob_inv x \<and> ob_data x = ob_data (tout s) @ [word_of_int c]"
      using store_byte_Writer [OF x] Writer_spec [OF "1.prems"(2), of "word_of_int c"] t1 by auto
    show ?thesis
    proof (cases "i + 1 < m \<and> \<not> out_full x")
      case True
      then have "\<exists>bs. produces m (i + 1) (s1\<lparr>tout := x\<rparr>) ws bs"
        using "1.IH" [OF a refl refl k_def _ s1_def, of x] False w x W
        by (auto simp: t1)
      then obtain bs where "produces m (i + 1) (s1\<lparr>tout := x\<rparr>) ws bs" ..
      then have "produces m i s ws (word_of_int c # bs)"
        using W True by (cases ws) (auto simp: produces_def algebra_simps)
      then show ?thesis ..
    next
      case F: False
      then have "produces m i s ws [word_of_int c]"
        using w x W by (auto simp: produces_def ends_def)
      then show ?thesis ..
    qed
  qed
qed

section \<open>Properties\<close>

text \<open>
  C19.  Handover.  Whenever the program is outside a call of \<open>T_decode\<close>, whatever the interleaving that led
  there, the worker cannot move: it has been joined, exactly when \<open>finished\<close> is set, or it waits for
  input with \<open>empty\<close> set, so that even a spurious wake-up sends it back to waiting.  The client
  thus has the codec, the input and the output buffer for itself.
\<close>

theorem thread_handover:
  assumes "reachable dec (c, w, s)" "c = Idle \<or> (\<exists>r. c = Return r)"
  shows "(\<nexists>cf. worker_step dec (w, s) cf) \<and> (tfinished s \<longleftrightarrow> w = NoThread) \<and>
    (w = NoThread \<or> tempty s \<and> (\<exists>i m got. w = Waiting i m got))"
proof -
  have "at_rest w s" using reachable_inv [OF assms(1)] assms(2) by auto
  then show ?thesis using worker_step_at_rest [of dec w s] by (auto simp: at_rest_def)
qed

text \<open>
  C18.  A call of \<open>T_decode\<close> is a function.  Every interleaving of the two threads that brings a call to its
  return gives the result, the buffers and the codec state of \<open>T_decode\<close>, which runs the
  worker alone, and leaves the worker as it says.
\<close>

theorem T_decode_refines:
  assumes "reachable dec (Idle, w, s)" "tin_ok (tin s)"
    and "(call_step dec)\<^sup>*\<^sup>* (Enter m, w, s) (Return r, w', s')"
  shows "T_decode dec m w s = Some (r, w', s')"
proof -
  have "thread_inv (Enter m, w, s)" using reachable_inv [OF assms(1)] by simp
  with call_run_future [OF assms(3)] assms(2) show ?thesis by simp
qed


text \<open>
  C21.  No deadlock, and no lost wake-up.  Where the function \<open>T_decode\<close> has a result, a call can get from every point of every
  interleaving to its return; with \<open>call_terminates\<close>, every fair execution gets there.
\<close>

theorem T_decode_returns:
  assumes "reachable dec (Idle, w, s)" "tin_ok (tin s)" "T_decode dec m w s = Some (r, w', s')"
    and "(call_step dec)\<^sup>*\<^sup>* (Enter m, w, s) cf"
  shows "(call_step dec)\<^sup>*\<^sup>* cf (Return r, w', s')"
proof -
  have "thread_inv (Enter m, w, s)" using reachable_inv [OF assms(1)] by simp
  with call_run_future [OF assms(4)] assms(2,3) show ?thesis by (intro call_completes) auto
qed

text \<open>
  C22.  What the result of \<open>T_decode\<close> counts.  When the worker has ended without an end mark or an error, a
  new worker's result is the number of bytes it has stored, at most \<open>max_length\<close>, and less only when the output is full.  A
  worker that an earlier call had left waiting reports the bytes of that call too, and keeps to
  the \<open>max_length\<close> of the call that started it: the number is not that of the bytes the present call has
  stored, which is what the callers subtract from their remaining length.
\<close>

theorem T_decode_count:
  assumes "T_decode dec m w s = Some (r, NoThread, s')" "0 \<le> r" "ob_inv (tout s)"
  shows "\<exists>bs. ob_data (tout s') = ob_data (tout s) @ bs \<and>
    (tfinished s \<and> 0 \<le> m \<longrightarrow> r = int (length bs) \<and> r \<le> m \<and> (r < m \<longrightarrow> out_full (tout s'))) \<and>
    (\<forall>i m' got. \<not> tfinished s \<and> w = Waiting i m' got \<and> i < m' \<longrightarrow>
       r = i + int (length bs) \<and> r \<le> m' \<and> (r < m' \<longrightarrow> out_full (tout s')))"
proof -
  let ?s = "s\<lparr>tmax := m, tresult := 0\<rparr>"
  have leave: "\<exists>s1. x = Some (Exited, s1) \<and> s' = s1 \<and> tresult s1 = r"
    if "leave x = Some (r, NoThread, s')" for x :: "(worker \<times> _) option"
    using that by (auto simp: leave_def split: option.splits worker.splits)
  show ?thesis
  proof (cases "tfinished s")
    case True
    then obtain s1 where l: "loop dec m 0 (?s\<lparr>tfinished := False\<rparr>) = Some (Exited, s1)" "s' = s1" "tresult s1 = r"
      using assms(1) leave by (auto simp: T_decode_def)
    show ?thesis
    proof (cases "0 < m \<and> \<not> out_full (tout s)")
      case T: True
      then obtain bs where "produces m 0 (?s\<lparr>tfinished := False\<rparr>) (Exited, s1) bs"
        using l(1) work_produces [of dec m 0 "[]"] assms(3) by (fastforce simp: loop_def)
      then show ?thesis using True T l assms(2) by (intro exI [of _ bs]) (auto simp: produces_def)
    next
      case False
      then show ?thesis using l True by (intro exI [of _ "[]"]) (auto simp: loop_def ends_def)
    qed
  next
    case False
    then obtain i m' got s1 where w: "w = Waiting i m' got"
      and l: "resume dec m' i got (?s\<lparr>tempty := False\<rparr>) = Some (Exited, s1)" "s' = s1" "tresult s1 = r"
      using assms(1) leave by (auto simp: T_decode_def split: worker.splits)
    then obtain b inb where b: "work dec m' i (got @ [b]) (?s\<lparr>tempty := False, tin := inb\<rparr>) = Some (Exited, s1)"
      by (auto simp: resume_def split: option.splits)
    then obtain bs where "produces m' i (?s\<lparr>tempty := False, tin := inb\<rparr>) (Exited, s1) bs"
      using work_produces [OF b] assms(3) by auto
    then show ?thesis using w False l assms(2) by (intro exI [of _ bs]) (auto simp: produces_def)
  qed
qed

text \<open>
  C38.  An empty refill reads past the input.  When a worker waits for input and the next call of
  \<open>T_decode\<close> comes with nothing to read (a call of \<^verbatim>\<open>decode\<close> with \<^verbatim>\<open>b''\<close>), the
  worker is woken all the same and reads the byte behind the end of the buffer: it does not look at
  the sizes again.
\<close>

theorem empty_refill_reads_past_end:
  assumes "reachable dec (Idle, Waiting i m' got, s)" "in_pos (tin s) = length (src (tin s))"
  shows "\<exists>s'. (call_step dec)\<^sup>*\<^sup>* (Enter m, Waiting i m' got, s) (Await, Reading i m' got, s') \<and>
    Reader (tin s') = None \<and> T_decode dec m (Waiting i m' got) s = None"
proof -
  let ?s = "s\<lparr>tmax := m, tresult := 0\<rparr>"
  have f: "\<not> tfinished s" using reachable_inv [OF assms(1)] by (simp add: at_rest_def)
  have "call_step dec (Enter m, Waiting i m' got, s) (Kick False, Waiting i m' got, ?s)"
    using c_enter [of dec m "Waiting i m' got" s] f by simp
  moreover have "call_step dec (Kick False, Waiting i m' got, ?s) (Await, Waiting i m' got, ?s\<lparr>tempty := False\<rparr>)"
    by (rule c_refill)
  moreover have "call_step dec (Await, Waiting i m' got, ?s\<lparr>tempty := False\<rparr>) (Await, Reading i m' got, ?s\<lparr>tempty := False\<rparr>)"
    by (intro c_worker w_wake) simp_all
  ultimately have "(call_step dec)\<^sup>*\<^sup>* (Enter m, Waiting i m' got, s) (Await, Reading i m' got, ?s\<lparr>tempty := False\<rparr>)"
    by (meson converse_rtranclp_into_rtranclp rtranclp.rtrancl_refl)
  moreover have "Reader (tin (?s\<lparr>tempty := False\<rparr>)) = None" using assms(2) by (simp add: Reader_def)
  ultimately show ?thesis using f
    by (intro exI [of _ "?s\<lparr>tempty := False\<rparr>"]) (simp add: T_decode_def resume_def leave_def)
qed

text \<open>
  C39.  \<open>T_Free\<close> races with the worker it wants to cancel.  It clears \<open>empty\<close> and wakes a waiting worker
  before it cancels it; a worker that gets the mutex first leaves its wait, the only
  place where the cancellation takes effect, and reads on behind the end of an input buffer that has long been given
  back.
\<close>

theorem free_races_with_worker:
  assumes "reachable dec (Idle, Waiting i m got, s)" "in_pos (tin s) = length (src (tin s))"
  shows "\<exists>s'. (thread_step dec)\<^sup>*\<^sup>* (Idle, Waiting i m got, s) (Cancelled, Reading i m got, s') \<and>
    Reader (tin s') = None \<and> (\<nexists>cf. thread_step dec (Cancelled, Reading i m got, s') cf)"
proof -
  let ?s = "s\<lparr>tempty := False\<rparr>"
  have f: "\<not> tfinished s" using reachable_inv [OF assms(1)] by (simp add: at_rest_def)
  have "thread_step dec (Idle, Waiting i m got, s) (Cancel, Waiting i m got, ?s)"
    using f by (rule t_free_wake)
  moreover have "thread_step dec (Cancel, Waiting i m got, ?s) (Cancel, Reading i m got, ?s)"
    by (intro t_worker w_wake) simp
  moreover have "thread_step dec (Cancel, Reading i m got, ?s) (Cancelled, Reading i m got, ?s)"
    by (rule t_cancel)
  ultimately have "(thread_step dec)\<^sup>*\<^sup>* (Idle, Waiting i m got, s) (Cancelled, Reading i m got, ?s)"
    by (meson converse_rtranclp_into_rtranclp rtranclp.rtrancl_refl)
  moreover have none: "Reader (tin ?s) = None" using assms(2) by (simp add: Reader_def)
  moreover have "\<not> thread_step dec (Cancelled, Reading i m got, ?s) cf" for cf
    using none by (auto elim!: thread_stepE call_stepE worker_stepE)
  ultimately show ?thesis by (intro exI [of _ ?s]) simp
qed

text \<open>
  C40.  A refill with no room for output writes past the block.  A waiting worker is in the middle of a symbol
  and stores it without looking at the output again; when the present call has brought an output
  buffer without room (a call of \<^verbatim>\<open>decode\<close> with length 0) and the bytes that complete the symbol, the
  byte is written behind the end of the block.
\<close>

theorem full_refill_writes_past_end:
  assumes "reachable dec (Idle, Waiting i m' got, s)" "tin_ok (tin s)" "ob_inv (tout s)" "out_full (tout s)"
    and "Reader (tin s) = Some (b, inb)"
    and "dec (cPpmd s) (got @ [b] @ avail inb @ [0]) = Some (c, st, l)" "length (avail inb) < length l" "0 \<le> c"
  shows "\<exists>s'. (call_step dec)\<^sup>*\<^sup>* (Enter m, Waiting i m' got, s) (Await, Storing i m' c, s') \<and>
    store_byte (tout s') (word_of_int c) = None"
proof -
  let ?s = "s\<lparr>tmax := m, tresult := 0, tempty := False\<rparr>" and ?w = "Waiting i m' got"
  have f: "\<not> tfinished s" using reachable_inv [OF assms(1)] by (simp add: at_rest_def)
  have "call_step dec (Enter m, ?w, s) (Kick False, ?w, s\<lparr>tmax := m, tresult := 0\<rparr>)"
    using c_enter [of dec m ?w s] f by simp
  moreover have "call_step dec (Kick False, ?w, s\<lparr>tmax := m, tresult := 0\<rparr>) (Await, ?w, ?s)"
    using c_refill [of dec ?w "s\<lparr>tmax := m, tresult := 0\<rparr>"] by simp
  moreover have "call_step dec (Await, ?w, ?s) (Await, Reading i m' got, ?s)"
    by (intro c_worker w_wake) simp_all
  moreover have "call_step dec (Await, Reading i m' got, ?s) (Await, Decoding i m' (got @ [b]), ?s\<lparr>tin := inb\<rparr>)"
    using assms(5) by (intro c_worker w_resume) simp_all
  moreover have "call_step dec (Await, Decoding i m' (got @ [b]), ?s\<lparr>tin := inb\<rparr>)
      (Await, Storing i m' c, ?s\<lparr>tin := inb, cPpmd := st\<rparr>)"
    using assms(6-8) by (intro c_worker w_symbol)
      (simp_all add: ahead_def PPMD_RESULT_EOF_def PPMD_RESULT_ERROR_def)
  ultimately have "(call_step dec)\<^sup>*\<^sup>* (Enter m, ?w, s) (Await, Storing i m' c, ?s\<lparr>tin := inb, cPpmd := st\<rparr>)"
    by (meson converse_rtranclp_into_rtranclp rtranclp.rtrancl_refl)
  moreover have "store_byte (tout s) (word_of_int c) = None"
    using assms(3,4) store_byte_Writer [of "tout s" "word_of_int c"] by (cases "store_byte (tout s) (word_of_int c)") (auto simp: out_full_free)
  ultimately show ?thesis by (intro exI [of _ "?s\<lparr>tin := inb, cPpmd := st\<rparr>"]) simp
qed

section \<open>Witnesses\<close>

text \<open>A decoder whose symbols are bytes, and a first call that asks for three of them but is given
  one: the worker is left waiting.\<close>

definition byte_decoder :: "unit symbol_decoder" where
  "byte_decoder st bs = (case bs of [] \<Rightarrow> Some (0, (), []) | b # bs \<Rightarrow> Some (int (unat b), (), bs))"

definition block4 :: "Byte list \<Rightarrow> nat \<Rightarrow> obuf" where
  "block4 bs k = (\<lparr>blocks = [bs], allocated = 4, max_length = 4\<rparr>, \<lparr>dst = 0, out_size = 4, out_pos = k\<rparr>)"

definition info0 :: "unit ppmd_info" where
  "info0 = \<lparr>cPpmd = (), tin = \<lparr>src = [65], in_size = 1, in_pos = 0\<rparr>, tout = block4 [0, 0, 0, 0] 0,
     tmax = 0, tresult = 0, tempty = False, tfinished = True\<rparr>"

definition info1 :: "unit ppmd_info" where
  "info1 = \<lparr>cPpmd = (), tin = \<lparr>src = [65], in_size = 1, in_pos = 1\<rparr>, tout = block4 [65, 0, 0, 0] 1,
     tmax = 3, tresult = 0, tempty = True, tfinished = False\<rparr>"

lemma first_call: "T_decode byte_decoder 3 NoThread info0 = Some (0, Waiting 1 3 [], info1)"
  by (simp add: T_decode_def info0_def info1_def loop_def out_full_def block4_def work.simps ahead_def avail_def
      byte_decoder_def PPMD_RESULT_EOF_def PPMD_RESULT_ERROR_def Let_def store_byte_def leave_def)

lemma info0_reachable: "reachable byte_decoder (Idle, NoThread, info0)"
  unfolding reachable_def thread_init_def info0_def by (rule exI [of _ info0]) (simp add: info0_def)

lemma info0_ok: "tin_ok (tin info0)"
  by (simp add: info0_def tin_ok_def)

lemma call_is_thread: "(call_step dec)\<^sup>*\<^sup>* cf cf' \<Longrightarrow> (thread_step dec)\<^sup>*\<^sup>* cf cf'"
  by (induction rule: rtranclp_induct) (auto intro: t_step rtranclp.rtrancl_into_rtrancl)

lemma reachable_call:
  assumes "reachable dec (Idle, w, s)" "(call_step dec)\<^sup>*\<^sup>* (Enter m, w, s) (Return r, w', s')"
  shows "reachable dec (Idle, w', s')"
proof -
  obtain s0 where s0: "(thread_step dec)\<^sup>*\<^sup>* (thread_init s0) (Idle, w, s)" using assms(1) by (auto simp: reachable_def)
  have "(thread_step dec)\<^sup>*\<^sup>* (thread_init s0) (Enter m, w, s)"
    using s0 t_call by (rule rtranclp.rtrancl_into_rtrancl)
  then have "(thread_step dec)\<^sup>*\<^sup>* (thread_init s0) (Return r, w', s')"
    using call_is_thread [OF assms(2)] by (rule rtranclp_trans)
  then have "(thread_step dec)\<^sup>*\<^sup>* (thread_init s0) (Idle, w', s')"
    using t_return by (rule rtranclp.rtrancl_into_rtrancl)
  then show ?thesis unfolding reachable_def by blast
qed

lemma first_run: "(call_step byte_decoder)\<^sup>*\<^sup>* (Enter 3, NoThread, info0) (Return 0, Waiting 1 3 [], info1)"
  using call_completes [of "(Enter 3, NoThread, info0)" byte_decoder 0 "Waiting 1 3 []" info1]
    reachable_inv [OF info0_reachable] info0_ok first_call by simp

lemma info1_reachable: "reachable byte_decoder (Idle, Waiting 1 3 [], info1)"
  by (rule reachable_call [OF info0_reachable first_run])

theorem thread_handover_witness:
  "reachable byte_decoder (Idle, Waiting 1 3 [], info1) \<and> (\<nexists>cf. worker_step byte_decoder (Waiting 1 3 [], info1) cf)"
  using thread_handover [OF info1_reachable] info1_reachable by blast

theorem T_decode_refines_witness:
  "T_decode byte_decoder 3 NoThread info0 = Some (0, Waiting 1 3 [], info1)"
  by (rule T_decode_refines [OF info0_reachable info0_ok first_run])

theorem T_decode_returns_witness:
  "(call_step byte_decoder)\<^sup>*\<^sup>* (Kick True, NoThread, info0\<lparr>tmax := 3\<rparr>) (Return 0, Waiting 1 3 [], info1)"
proof -
  have "call_step byte_decoder (Enter 3, NoThread, info0) (Kick True, NoThread, info0\<lparr>tmax := 3\<rparr>)"
    using c_enter [of byte_decoder 3 NoThread info0] by (simp add: info0_def)
  then show ?thesis
    by (intro T_decode_returns [OF info0_reachable info0_ok first_call] r_into_rtranclp)
qed

text \<open>The second call brings three bytes and asks for two; its result is 3.\<close>

definition info2 :: "unit ppmd_info" where
  "info2 = info1\<lparr>tin := \<lparr>src = [66, 67, 68], in_size = 3, in_pos = 0\<rparr>, tout := block4 [0, 0, 0, 0] 0\<rparr>"

theorem T_decode_count_witness:
  "\<exists>s'. T_decode byte_decoder 2 (Waiting 1 3 []) info2 = Some (3, NoThread, s') \<and> ob_data (tout s') = [66, 67]"
proof -
  obtain s' where c: "T_decode byte_decoder 2 (Waiting 1 3 []) info2 = Some (3, NoThread, s')"
    by (simp add: T_decode_def info2_def info1_def resume_def Reader_def out_full_def block4_def work.simps ahead_def avail_def
      byte_decoder_def PPMD_RESULT_EOF_def PPMD_RESULT_ERROR_def Let_def store_byte_def leave_def ends_def)
  have "ob_inv (tout info2)" "ob_data (tout info2) = []" "\<not> tfinished info2"
    by (simp_all add: info2_def info1_def block4_def ob_inv_def ob_data_def)
  then obtain bs where bs: "ob_data (tout s') = bs" "3 = 1 + int (length bs)"
    using T_decode_count [OF c] by auto
  moreover have "take 2 (ob_data (tout s')) = [66, 67]"
    using c by (auto simp: T_decode_def info2_def info1_def resume_def Reader_def out_full_def block4_def work.simps ahead_def avail_def
      byte_decoder_def PPMD_RESULT_EOF_def PPMD_RESULT_ERROR_def Let_def store_byte_def leave_def ends_def ob_data_def)
  ultimately show ?thesis using c by (intro exI [of _ s']) auto
qed

theorem empty_refill_reads_past_end_witness:
  "\<exists>s'. (call_step byte_decoder)\<^sup>*\<^sup>* (Enter 5, Waiting 1 3 [], info1) (Await, Reading 1 3 [], s') \<and> Reader (tin s') = None"
  using empty_refill_reads_past_end [OF info1_reachable, of 5] by (auto simp: info1_def)

theorem free_races_with_worker_witness:
  "\<exists>s'. (thread_step byte_decoder)\<^sup>*\<^sup>* (Idle, Waiting 1 3 [], info1) (Cancelled, Reading 1 3 [], s') \<and> Reader (tin s') = None"
  using free_races_with_worker [OF info1_reachable] by (auto simp: info1_def)

text \<open>The second call brings one byte and an empty block.\<close>

theorem full_refill_writes_past_end_witness:
  "\<exists>s'. (call_step byte_decoder)\<^sup>*\<^sup>* (Enter 0, Waiting 1 3 [],
      info1\<lparr>tin := \<lparr>src = [66], in_size = 1, in_pos = 0\<rparr>,
            tout := (\<lparr>blocks = [[]], allocated = 0, max_length = 0\<rparr>, \<lparr>dst = 0, out_size = 0, out_pos = 0\<rparr>)\<rparr>)
      (Await, Storing 1 3 66, s') \<and> store_byte (tout s') 66 = None"
proof -
  let ?inb = "\<lparr>src = [66], in_size = 1, in_pos = 0\<rparr>" and
    ?x = "(\<lparr>blocks = [[]], allocated = 0, max_length = 0\<rparr>, \<lparr>dst = 0, out_size = 0, out_pos = 0\<rparr>)"
  let ?s = "info1\<lparr>tin := ?inb, tout := ?x\<rparr>"
  have "thread_step byte_decoder (Idle, Waiting 1 3 [], info1) (Idle, Waiting 1 3 [], ?s)" by (rule t_client)
  then have r: "reachable byte_decoder (Idle, Waiting 1 3 [], ?s)"
    using info1_reachable unfolding reachable_def by (meson rtranclp.rtrancl_into_rtrancl)
  have a: "tin_ok (tin ?s)" "ob_inv (tout ?s)" "out_full (tout ?s)"
    "Reader (tin ?s) = Some (66, ?inb\<lparr>in_pos := 1\<rparr>)"
    "byte_decoder (cPpmd ?s) ([] @ [66] @ avail (?inb\<lparr>in_pos := 1\<rparr>) @ [0]) = Some (66, (), [0])"
    "length (avail (?inb\<lparr>in_pos := 1\<rparr>)) < length [0 :: Byte]" "(0 :: int) \<le> 66"
    by (simp_all add: tin_ok_def ob_inv_def out_full_def Reader_def byte_decoder_def avail_def)
  from full_refill_writes_past_end [OF r a, of 0] show ?thesis by auto
qed

end
