(* ===== verification/Ppmd_Core.thy ===== *)
theory Ppmd_Core
  imports Ppmd_Prelude
begin

text \<open>
  What the two models share, from \<^verbatim>\<open>src/lib/ppmd/Ppmd.h\<close>: the scaling macros, the SEE
  record, the 6-byte state \<^verbatim>\<open>CPpmd_State\<close>, and the byte arena \<^verbatim>\<open>p->Base\<close> in which contexts,
  state arrays, free nodes and the raw text live on top of each other.

  The model is the 64-bit build (\<^verbatim>\<open>PPMD_32BIT\<close> undefined): a reference stored in the arena is
  a 32-bit offset from \<^verbatim>\<open>Base\<close>, a pointer of the C code is modelled by the same offset as a
  \<open>nat\<close>, and the arena is a function from offsets to bytes.  Multi-byte fields are little
  endian.
\<close>

section \<open>Scaling\<close>

definition PPMD_INT_BITS :: nat where "PPMD_INT_BITS = 7"
definition PPMD_PERIOD_BITS :: nat where "PPMD_PERIOD_BITS = 7"
definition PPMD_BIN_SCALE :: UInt32 where
  "PPMD_BIN_SCALE = push_bit (PPMD_INT_BITS + PPMD_PERIOD_BITS) 1"

text \<open>The macros compute in \<^verbatim>\<open>int\<close>; their arguments are 16-bit values, so 32-bit words hold
  every intermediate result.\<close>

definition PPMD_GET_MEAN_SPEC :: "UInt32 \<Rightarrow> nat \<Rightarrow> nat \<Rightarrow> UInt32" where
  "PPMD_GET_MEAN_SPEC summ sh rd = drop_bit sh (summ + push_bit (sh - rd) 1)"

definition PPMD_GET_MEAN :: "UInt32 \<Rightarrow> UInt32" where
  "PPMD_GET_MEAN summ = PPMD_GET_MEAN_SPEC summ PPMD_PERIOD_BITS 2"

definition PPMD_UPDATE_PROB_0 :: "UInt16 \<Rightarrow> UInt16" where
  "PPMD_UPDATE_PROB_0 prob =
     ucast (ucast prob + push_bit PPMD_INT_BITS 1 - PPMD_GET_MEAN (ucast prob))"

definition PPMD_UPDATE_PROB_1 :: "UInt16 \<Rightarrow> UInt16" where
  "PPMD_UPDATE_PROB_1 prob = ucast (ucast prob - PPMD_GET_MEAN (ucast prob))"

definition PPMD_N1 :: nat where "PPMD_N1 = 4"
definition PPMD_N2 :: nat where "PPMD_N2 = 4"
definition PPMD_N3 :: nat where "PPMD_N3 = 4"
definition PPMD_N4 :: nat where
  "PPMD_N4 = (128 + 3 - 1 * PPMD_N1 - 2 * PPMD_N2 - 3 * PPMD_N3) div 4"
definition PPMD_NUM_INDEXES :: nat where
  "PPMD_NUM_INDEXES = PPMD_N1 + PPMD_N2 + PPMD_N3 + PPMD_N4"

definition MAX_FREQ :: nat where "MAX_FREQ = 124"
definition UNIT_SIZE :: nat where "UNIT_SIZE = 12"

lemmas ppmd_consts = PPMD_INT_BITS_def PPMD_PERIOD_BITS_def PPMD_N1_def PPMD_N2_def PPMD_N3_def
  PPMD_N4_def MAX_FREQ_def UNIT_SIZE_def

lemma PPMD_NUM_INDEXES_eq [simp]: "PPMD_NUM_INDEXES = 38"
  by (simp add: PPMD_NUM_INDEXES_def ppmd_consts)

section \<open>SEE contexts\<close>

record CPpmd_See =
  Summ :: UInt16
  Shift :: Byte
  Count :: Byte

definition Ppmd_See_Update :: "CPpmd_See \<Rightarrow> CPpmd_See" where
  "Ppmd_See_Update p =
     (if unat (Shift p) < PPMD_PERIOD_BITS
      then let p = p\<lparr>Count := Count p - 1\<rparr>
           in if Count p = 0
              then p\<lparr>Summ := push_bit 1 (Summ p), Count := push_bit (unat (Shift p)) 3,
                     Shift := Shift p + 1\<rparr>
              else p
      else p)"

section \<open>The arena\<close>

type_synonym arena = "nat \<Rightarrow> Byte"

definition rd16 :: "arena \<Rightarrow> nat \<Rightarrow> UInt16" where
  "rd16 m a = ucast (m a) OR push_bit 8 (ucast (m (a + 1)))"

definition rd32 :: "arena \<Rightarrow> nat \<Rightarrow> UInt32" where
  "rd32 m a = ucast (rd16 m a) OR push_bit 16 (ucast (rd16 m (a + 2)))"

definition wr8 :: "arena \<Rightarrow> nat \<Rightarrow> Byte \<Rightarrow> arena" where
  "wr8 m a v = m(a := v)"

definition wr16 :: "arena \<Rightarrow> nat \<Rightarrow> UInt16 \<Rightarrow> arena" where
  "wr16 m a v = m(a := ucast v, a + 1 := ucast (drop_bit 8 v))"

definition wr32 :: "arena \<Rightarrow> nat \<Rightarrow> UInt32 \<Rightarrow> arena" where
  "wr32 m a v = wr16 (wr16 m a (ucast v)) (a + 2) (ucast (drop_bit 16 v))"

lemma rd16_wr16_same [simp]: "rd16 (wr16 m a v) a = v"
  unfolding rd16_def wr16_def
  by (rule bit_word_eqI) (auto simp: bit_simps not_less)

text \<open>Reads outside the written bytes.\<close>

lemma wr8_same [simp]: "wr8 m a v a = v"
  by (simp add: wr8_def)

lemma wr8_other [mem_frame]: "x \<noteq> a \<Longrightarrow> wr8 m a v x = m x"
  by (simp add: wr8_def)

lemma wr16_other [mem_frame]: "x < a \<or> a + 2 \<le> x \<Longrightarrow> wr16 m a v x = m x"
  by (auto simp: wr16_def)

lemma wr32_other [mem_frame]: "x < a \<or> a + 4 \<le> x \<Longrightarrow> wr32 m a v x = m x"
  by (auto simp: wr32_def wr16_def)

text \<open>Two arenas that agree on the bytes read give the same value.\<close>

lemma rd16_cong: "m a = m' a \<Longrightarrow> m (a + 1) = m' (a + 1) \<Longrightarrow> rd16 m a = rd16 m' a"
  by (simp add: rd16_def)

lemma rd32_cong: "\<forall>x. a \<le> x \<and> x < a + 4 \<longrightarrow> m x = m' x \<Longrightarrow> rd32 m a = rd32 m' a"
  by (simp add: rd32_def rd16_def)

lemma rd16_wr8_other [mem_frame]: "x + 2 \<le> a \<or> a < x \<Longrightarrow> rd16 (wr8 m a v) x = rd16 m x"
  by (auto simp: rd16_def wr8_def)

lemma rd16_wr16_other [mem_frame]:
  "x + 2 \<le> a \<or> a + 2 \<le> x \<Longrightarrow> rd16 (wr16 m a v) x = rd16 m x"
  by (auto simp: rd16_def wr16_def)

lemma rd16_wr32_other [mem_frame]:
  "x + 2 \<le> a \<or> a + 4 \<le> x \<Longrightarrow> rd16 (wr32 m a v) x = rd16 m x"
  by (auto simp: rd16_def wr32_def wr16_def)

lemma rd32_wr8_other [mem_frame]: "x + 4 \<le> a \<or> a < x \<Longrightarrow> rd32 (wr8 m a v) x = rd32 m x"
  by (auto simp: rd32_def mem_frame)

lemma rd32_wr16_other [mem_frame]:
  "x + 4 \<le> a \<or> a + 2 \<le> x \<Longrightarrow> rd32 (wr16 m a v) x = rd32 m x"
  by (auto simp: rd32_def mem_frame)

lemma rd32_wr32_other [mem_frame]:
  "x + 4 \<le> a \<or> a + 4 \<le> x \<Longrightarrow> rd32 (wr32 m a v) x = rd32 m x"
  by (auto simp: rd32_def mem_frame)

lemma rd32_wr32_same [simp]: "rd32 (wr32 m a v) a = v"
proof -
  have "rd16 (wr32 m a v) a = ucast v" "rd16 (wr32 m a v) (a + 2) = ucast (drop_bit 16 v)"
    by (simp_all add: wr32_def mem_frame)
  then show ?thesis
    unfolding rd32_def by (intro bit_word_eqI) (auto simp: bit_simps not_less)
qed

section \<open>States\<close>

text \<open>\<^verbatim>\<open>CPpmd_State\<close>, packed: Symbol at 0, Freq at 1, SuccessorLow at 2, SuccessorHigh at 4.\<close>

record CPpmd_State =
  Symbol :: Byte
  Freq :: Byte
  SuccessorLow :: UInt16
  SuccessorHigh :: UInt16

definition SUCCESSOR :: "CPpmd_State \<Rightarrow> UInt32" where
  "SUCCESSOR s = ucast (SuccessorLow s) OR push_bit 16 (ucast (SuccessorHigh s))"

definition SetSuccessor :: "CPpmd_State \<Rightarrow> UInt32 \<Rightarrow> CPpmd_State" where
  "SetSuccessor s v =
     s\<lparr>SuccessorLow := ucast (v AND 0xFFFF), SuccessorHigh := ucast (drop_bit 16 v AND 0xFFFF)\<rparr>"

lemma and_ffff: "v AND 0xFFFF = take_bit 16 v" for v :: UInt32
  by (simp add: take_bit_eq_mask mask_eq_exp_minus_1)

lemma SUCCESSOR_SetSuccessor [simp]: "SUCCESSOR (SetSuccessor s v) = v"
  unfolding SUCCESSOR_def SetSuccessor_def and_ffff
  by (intro bit_word_eqI) (auto simp: bit_simps not_less)

lemma SetSuccessor_fields [simp]:
  "Symbol (SetSuccessor s v) = Symbol s" "Freq (SetSuccessor s v) = Freq s"
  by (simp_all add: SetSuccessor_def)

definition rd_state :: "arena \<Rightarrow> nat \<Rightarrow> CPpmd_State" where
  "rd_state m s = \<lparr>Symbol = m s, Freq = m (s + 1),
     SuccessorLow = rd16 m (s + 2), SuccessorHigh = rd16 m (s + 4)\<rparr>"

definition wr_state :: "arena \<Rightarrow> nat \<Rightarrow> CPpmd_State \<Rightarrow> arena" where
  "wr_state m s v = wr16 (wr16 (wr8 (wr8 m s (Symbol v)) (s + 1) (Freq v))
     (s + 2) (SuccessorLow v)) (s + 4) (SuccessorHigh v)"

text \<open>Field writes through a \<^verbatim>\<open>CPpmd_State *\<close>.\<close>

definition wr_Freq :: "arena \<Rightarrow> nat \<Rightarrow> Byte \<Rightarrow> arena" where
  "wr_Freq m s v = wr8 m (s + 1) v"

definition wr_Successor :: "arena \<Rightarrow> nat \<Rightarrow> UInt32 \<Rightarrow> arena" where
  "wr_Successor m s v = wr_state m s (SetSuccessor (rd_state m s) v)"

lemma rd_wr_state_same [simp]: "rd_state (wr_state m s v) s = v"
  by (simp add: rd_state_def wr_state_def mem_frame)

lemma wr_state_other [mem_frame]: "x < s \<or> s + 6 \<le> x \<Longrightarrow> wr_state m s v x = m x"
  by (auto simp: wr_state_def mem_frame)

lemma rd16_wr_state_other [mem_frame]:
  "x + 2 \<le> s \<or> s + 6 \<le> x \<Longrightarrow> rd16 (wr_state m s v) x = rd16 m x"
  by (auto simp: wr_state_def mem_frame)

lemma rd32_wr_state_other [mem_frame]:
  "x + 4 \<le> s \<or> s + 6 \<le> x \<Longrightarrow> rd32 (wr_state m s v) x = rd32 m x"
  by (auto simp: wr_state_def mem_frame)

lemma rd_state_cong:
  "\<forall>x. s \<le> x \<and> x < s + 6 \<longrightarrow> m x = m' x \<Longrightarrow> rd_state m s = rd_state m' s"
  by (simp add: rd_state_def rd16_def)

lemma rd_state_wr_state_other [mem_frame]:
  "x + 6 \<le> s \<or> s + 6 \<le> x \<Longrightarrow> rd_state (wr_state m s v) x = rd_state m x"
  by (rule rd_state_cong) (auto simp: mem_frame)

end
