(* ===== verification/Ppmd_Base.thy ===== *)
theory Ppmd_Base
  imports Ppmd_Core
begin

text \<open>
  The part of the model state that \<^verbatim>\<open>CPpmd7\<close> (\<^verbatim>\<open>Ppmd7.h\<close>) and \<^verbatim>\<open>CPpmd8\<close> (\<^verbatim>\<open>Ppmd8.h\<close>) have in
  common, as an extensible record, with the unit tables both constructors build and the
  pointer and copy macros both C files repeat.

  \<^verbatim>\<open>Byte *\<close> and structure pointers into the arena are offsets from \<^verbatim>\<open>Base\<close> (\<open>nat\<close>); \<open>REF\<close>
  and \<open>GetPtr\<close> convert between them and the 32-bit references stored in the arena.  Arrays
  whose index the code computes are functions (\<open>FreeList\<close>, \<open>See\<close>, \<open>BinSumm\<close>); the constant
  lookup tables are lists.  \<open>Base\<close> itself is kept as the flag ``not NULL''.
\<close>

section \<open>State\<close>

record ppmd =
  MinContext :: nat
  MaxContext :: nat
  FoundState :: nat
  OrderFall :: UInt32
  InitEsc :: UInt32
  PrevSuccess :: UInt32
  MaxOrder :: UInt32
  RunLength :: UInt32  \<comment> \<open>Int32, two's complement\<close>
  InitRL :: UInt32     \<comment> \<open>Int32, two's complement\<close>
  Size :: UInt32
  GlueCount :: UInt32
  Base :: bool         \<comment> \<open>\<^verbatim>\<open>Base != NULL\<close>\<close>
  mem :: arena         \<comment> \<open>the bytes at \<^verbatim>\<open>Base\<close>\<close>
  LoUnit :: nat
  HiUnit :: nat
  Text :: nat
  UnitsStart :: nat
  AlignOffset :: UInt32
  Indx2Units :: "Byte list"
  Units2Indx :: "Byte list"
  FreeList :: "nat \<Rightarrow> UInt32"
  NS2Indx :: "Byte list"
  NS2BSIndx :: "Byte list"
  DummySee :: CPpmd_See
  See :: "nat \<Rightarrow> nat \<Rightarrow> CPpmd_See"
  BinSumm :: "nat \<Rightarrow> nat \<Rightarrow> UInt16"

section \<open>Pointers and references\<close>

definition REF :: "nat \<Rightarrow> UInt32" where
  "REF p = word_of_nat p"

definition GetPtr :: "UInt32 \<Rightarrow> nat" where
  "GetPtr offs = unat offs"

text \<open>\<^verbatim>\<open>(UInt32)(a - b)\<close> for two pointers.\<close>

definition ptr_diff :: "nat \<Rightarrow> nat \<Rightarrow> UInt32" where
  "ptr_diff a b = word_of_int (int a - int b)"

lemma GetPtr_REF: "a < 2 ^ 32 \<Longrightarrow> GetPtr (REF a) = a"
  by (simp add: GetPtr_def REF_def unat_of_nat)

lemma unat_ptr_diff: "b \<le> a \<Longrightarrow> a < 2 ^ 32 \<Longrightarrow> unat (ptr_diff a b) = a - b"
proof -
  assume le: "b \<le> a" and lt: "a < 2 ^ 32"
  have "int a - int b = int (a - b)" using le by (rule of_nat_diff [symmetric])
  then have "ptr_diff a b = word_of_nat (a - b)" by (simp only: ptr_diff_def of_int_of_nat_eq)
  then show ?thesis using lt by (simp add: unat_of_nat)
qed

text \<open>The end of the allocation: \<^verbatim>\<open>AlignOffset + size + UNIT_SIZE\<close> bytes (Ppmd7; Ppmd8
  allocates no guard unit).\<close>

definition arena_top :: "'a ppmd_scheme \<Rightarrow> nat" where
  "arena_top p = unat (AlignOffset p) + unat (Size p)"

section \<open>Unit tables\<close>

definition U2B :: "nat \<Rightarrow> nat" where
  "U2B nu = nu * UNIT_SIZE"

definition U2I :: "'a ppmd_scheme \<Rightarrow> nat \<Rightarrow> nat" where
  "U2I p nu = unat (Units2Indx p ! (nu - 1))"

definition I2U :: "'a ppmd_scheme \<Rightarrow> nat \<Rightarrow> nat" where
  "I2U p indx = unat (Indx2Units p ! indx)"

text \<open>One round of the first loop of the constructors: \<open>step\<close> entries of \<^verbatim>\<open>Units2Indx\<close>, one
  of \<^verbatim>\<open>Indx2Units\<close>.  The loop fills both arrays from the start, so they are built by
  appending; \<open>k\<close> is the number of entries of \<^verbatim>\<open>Units2Indx\<close> so far.\<close>

definition units_round :: "nat \<Rightarrow> nat \<times> Byte list \<times> Byte list \<Rightarrow> nat \<times> Byte list \<times> Byte list" where
  "units_round i = (\<lambda>(k, u2i, i2u).
     let step = (if 12 \<le> i then 4 else i div 4 + 1); k = k + step
     in (k, u2i @ replicate step (word_of_nat i), i2u @ [word_of_nat k]))"

definition units_tables :: "nat \<times> Byte list \<times> Byte list" where
  "units_tables = fold units_round [0..<PPMD_NUM_INDEXES] (0, [], [])"

definition units_u2i :: "Byte list" where "units_u2i = fst (snd units_tables)"
definition units_i2u :: "Byte list" where "units_i2u = snd (snd units_tables)"

text \<open>\<open>tables_ok\<close>: the tables are those of the constructor, which nothing else writes.\<close>

definition tables_ok :: "'a ppmd_scheme \<Rightarrow> bool" where
  "tables_ok p \<longleftrightarrow> Units2Indx p = units_u2i \<and> Indx2Units p = units_i2u"

section \<open>Copies\<close>

text \<open>\<^verbatim>\<open>MyMem12Cpy\<close>: \<open>n\<close> units of three 32-bit words, copied in order.  \<^verbatim>\<open>do { } while (--n)\<close>
  with \<open>n = 0\<close> would run \<open>2^32\<close> times over memory that is not there.\<close>

primrec MyMem12Cpy_units :: "nat \<Rightarrow> nat \<Rightarrow> nat \<Rightarrow> arena \<Rightarrow> arena" where
  "MyMem12Cpy_units 0 d s m = m"
| "MyMem12Cpy_units (Suc n) d s m =
     (let m = wr32 m d (rd32 m s);
          m = wr32 m (d + 4) (rd32 m (s + 4));
          m = wr32 m (d + 8) (rd32 m (s + 8))
      in MyMem12Cpy_units n (d + 12) (s + 12) m)"

definition MyMem12Cpy :: "nat \<Rightarrow> nat \<Rightarrow> nat \<Rightarrow> arena \<Rightarrow> arena option" where
  "MyMem12Cpy dest src num m = (if num = 0 then None else Some (MyMem12Cpy_units num dest src m))"

definition SwapStates :: "arena \<Rightarrow> nat \<Rightarrow> nat \<Rightarrow> arena" where
  "SwapStates m t1 t2 =
     (let tmp = rd_state m t1; m = wr_state m t1 (rd_state m t2) in wr_state m t2 tmp)"

text \<open>The second loop of the constructors, \<^verbatim>\<open>if (--k == 0) k = (++m) - sub\<close>, over the last \<open>n\<close>
  entries of \<^verbatim>\<open>NS2Indx\<close>.\<close>

primrec ns2indx_loop :: "nat \<Rightarrow> nat \<Rightarrow> nat \<Rightarrow> nat \<Rightarrow> Byte list" where
  "ns2indx_loop sub 0 m k = []"
| "ns2indx_loop sub (Suc n) m k =
     word_of_nat m # (if k - 1 = 0 then ns2indx_loop sub n (m + 1) (m + 1 - sub)
                      else ns2indx_loop sub n m (k - 1))"

section \<open>Contexts\<close>

text \<open>The fields at the same offsets in \<^verbatim>\<open>CPpmd7_Context\<close> and \<^verbatim>\<open>CPpmd8_Context\<close>: SummFreq at 2,
  Stats at 4, Suffix at 8.  The single state of a binary context starts at SummFreq.\<close>

definition SummFreq :: "arena \<Rightarrow> nat \<Rightarrow> UInt16" where "SummFreq m c = rd16 m (c + 2)"
definition Stats :: "arena \<Rightarrow> nat \<Rightarrow> UInt32" where "Stats m c = rd32 m (c + 4)"
definition Suffix :: "arena \<Rightarrow> nat \<Rightarrow> UInt32" where "Suffix m c = rd32 m (c + 8)"

definition wr_SummFreq :: "arena \<Rightarrow> nat \<Rightarrow> UInt16 \<Rightarrow> arena" where
  "wr_SummFreq m c v = wr16 m (c + 2) v"
definition wr_Stats :: "arena \<Rightarrow> nat \<Rightarrow> UInt32 \<Rightarrow> arena" where
  "wr_Stats m c v = wr32 m (c + 4) v"
definition wr_Suffix :: "arena \<Rightarrow> nat \<Rightarrow> UInt32 \<Rightarrow> arena" where
  "wr_Suffix m c v = wr32 m (c + 8) v"

definition ONE_STATE :: "nat \<Rightarrow> nat" where "ONE_STATE c = c + 2"
definition STATS :: "arena \<Rightarrow> nat \<Rightarrow> nat" where "STATS m c = GetPtr (Stats m c)"
definition SUFFIX :: "arena \<Rightarrow> nat \<Rightarrow> nat" where "SUFFIX m c = GetPtr (Suffix m c)"

text \<open>\<^verbatim>\<open>s->Freq\<close>, and the reference in \<^verbatim>\<open>s->SuccessorLow/High\<close>.\<close>

definition sFreq :: "arena \<Rightarrow> nat \<Rightarrow> Byte" where "sFreq m s = Freq (rd_state m s)"
definition sSymbol :: "arena \<Rightarrow> nat \<Rightarrow> Byte" where "sSymbol m s = Symbol (rd_state m s)"
definition sSuccessor :: "arena \<Rightarrow> nat \<Rightarrow> UInt32" where
  "sSuccessor m s = SUCCESSOR (rd_state m s)"

text \<open>\<^verbatim>\<open>for (s = stats; s->Symbol != sym; s++);\<close>  The search is not bounded by the number of
  states: it leaves the allocation (\<open>None\<close>) if the symbol is not there.\<close>

function find_symbol :: "arena \<Rightarrow> nat \<Rightarrow> nat \<Rightarrow> Byte \<Rightarrow> nat option" where
  "find_symbol m lim s ch =
     (if lim < s + 6 then None else if sSymbol m s = ch then Some s else find_symbol m lim (s + 6) ch)"
  by pat_completeness auto
termination
  by (relation "measure (\<lambda>(m, lim, s, ch). lim - s)") auto

declare find_symbol.simps [simp del]

section \<open>States of a fresh context\<close>

definition fresh_state :: "nat \<Rightarrow> CPpmd_State" where
  "fresh_state i =
     SetSuccessor \<lparr>Symbol = word_of_nat i, Freq = 1, SuccessorLow = 0, SuccessorHigh = 0\<rparr> 0"

text \<open>The 256 states of the order-0 context, written in order.\<close>

definition fresh_states :: "arena \<Rightarrow> nat \<Rightarrow> arena" where
  "fresh_states m s = fold (\<lambda>i m. wr_state m (s + 6 * i) (fresh_state i)) [0..<256] m"

section \<open>Rescaling loops\<close>

text \<open>\<^verbatim>\<open>for (; s != stats; s--) s[0] = s[-1];\<close> and the store of the saved state.\<close>

function Rotate_down :: "arena \<Rightarrow> nat \<Rightarrow> nat \<Rightarrow> CPpmd_State \<Rightarrow> arena option" where
  "Rotate_down m stats s tmp =
     (if s = stats then Some (wr_state m s tmp)
      else if s < stats + 6 then None
      else Rotate_down (wr_state m s (rd_state m (s - 6))) stats (s - 6) tmp)"
  by pat_completeness auto
termination
  by (relation "measure (\<lambda>(m, stats, s, tmp). s)") auto

text \<open>The inner \<^verbatim>\<open>do { s1[0] = s1[-1]; } while (--s1 != stats && tmp.Freq > s1[-1].Freq)\<close>.\<close>

function Insert_down :: "arena \<Rightarrow> nat \<Rightarrow> nat \<Rightarrow> CPpmd_State \<Rightarrow> arena option" where
  "Insert_down m stats s1 tmp =
     (if s1 < stats + 6 then None
      else let m = wr_state m s1 (rd_state m (s1 - 6)); s1 = s1 - 6
           in if s1 \<noteq> stats \<and> sFreq m (s1 - 6) < CPpmd_State.Freq tmp
              then Insert_down m stats s1 tmp
              else Some (wr_state m s1 tmp))"
  by pat_completeness auto
termination
  by (relation "measure (\<lambda>(m, stats, s1, tmp). s1)") auto

declare Rotate_down.simps [simp del] Insert_down.simps [simp del]

text \<open>\<^verbatim>\<open>(Byte)((Freq + adder) >> 1)\<close>.\<close>

definition halve :: "Byte \<Rightarrow> UInt32 \<Rightarrow> Byte" where
  "halve f adder = ucast (drop_bit 1 (ucast f + adder))"

text \<open>The \<^verbatim>\<open>do { } while (--i)\<close> loop over the states after the first; \<open>s\<close> is the state before
  the next one.\<close>

primrec Rescale_loop ::
    "nat \<Rightarrow> UInt32 \<Rightarrow> nat \<Rightarrow> arena \<Rightarrow> nat \<Rightarrow> UInt32 \<Rightarrow> UInt32 \<Rightarrow>
     (arena \<times> nat \<times> UInt32 \<times> UInt32) option" where
  "Rescale_loop 0 adder stats m s escFreq sumFreq = Some (m, s, escFreq, sumFreq)"
| "Rescale_loop (Suc i) adder stats m s escFreq sumFreq =
     (let s = s + 6;
          escFreq = escFreq - ucast (sFreq m s);
          m = wr_Freq m s (halve (sFreq m s) adder);
          sumFreq = sumFreq + ucast (sFreq m s)
      in do { m \<leftarrow> (if sFreq m (s - 6) < sFreq m s
                    then Insert_down m stats s (rd_state m s) else Some m);
              Rescale_loop i adder stats m s escFreq sumFreq })"

text \<open>\<^verbatim>\<open>do { i++; } while ((--s)->Freq == 0)\<close>: the number of states from the end with frequency 0.\<close>

function Count_zeros :: "arena \<Rightarrow> nat \<Rightarrow> nat \<Rightarrow> nat option" where
  "Count_zeros m s i =
     (if s < 6 then None
      else if sFreq m (s - 6) = 0 then Count_zeros m (s - 6) (i + 1) else Some (i + 1))"
  by pat_completeness auto
termination
  by (relation "measure (\<lambda>(m, s, i). s)") auto

text \<open>\<^verbatim>\<open>do { tmp.Freq -= tmp.Freq >> 1; escFreq >>= 1; } while (escFreq > 1)\<close>.\<close>

function Halve_single :: "Byte \<Rightarrow> UInt32 \<Rightarrow> Byte" where
  "Halve_single f escFreq =
     (let f = f - drop_bit 1 f; escFreq' = drop_bit 1 escFreq
      in if 1 < escFreq' then Halve_single f escFreq' else f)"
  by pat_completeness auto
termination
proof (relation "measure (\<lambda>(f, e). unat e)")
  fix f f' :: Byte and e e' :: UInt32
  assume "f' = f - drop_bit 1 f" "e' = drop_bit 1 e" "1 < e'"
  then have "1 < drop_bit 1 e" by simp
  then have "1 < unat e div 2" by (simp add: word_less_nat_alt unat_drop_bit_div)
  then show "((f', e'), f, e) \<in> measure (\<lambda>(f, e). unat e)"
    using \<open>e' = drop_bit 1 e\<close> by (simp add: unat_drop_bit_div)
qed simp

declare Count_zeros.simps [simp del] Halve_single.simps [simp del]

section \<open>SEE and binary contexts\<close>

text \<open>A \<^verbatim>\<open>CPpmd_See *\<close>: the dummy, or an element of \<open>See\<close>.\<close>

datatype see_ref = DummyRef | SeeRef nat nat

fun get_see :: "'a ppmd_scheme \<Rightarrow> see_ref \<Rightarrow> CPpmd_See" where
  "get_see p DummyRef = DummySee p"
| "get_see p (SeeRef i k) = See p i k"

fun put_see :: "'a ppmd_scheme \<Rightarrow> see_ref \<Rightarrow> CPpmd_See \<Rightarrow> 'a ppmd_scheme" where
  "put_see p DummyRef v = p\<lparr>DummySee := v\<rparr>"
| "put_see p (SeeRef i k) v = p\<lparr>See := (See p)(i := (See p i)(k := v))\<rparr>"

text \<open>\<^verbatim>\<open>*prob = v\<close> for an element of \<^verbatim>\<open>BinSumm\<close>.\<close>

definition put_bin :: "'a ppmd_scheme \<Rightarrow> nat \<Rightarrow> nat \<Rightarrow> UInt16 \<Rightarrow> 'a ppmd_scheme" where
  "put_bin p i k v = p\<lparr>BinSumm := (BinSumm p)(i := (BinSumm p i)(k := v))\<rparr>"

section \<open>The tables are what the macros need\<close>

lemma units_i2u_eq: "units_i2u = [1, 2, 3, 4, 6, 8, 10, 12, 15, 18, 21, 24, 28, 32, 36, 40, 44, 48,
   52, 56, 60, 64, 68, 72, 76, 80, 84, 88, 92, 96, 100, 104, 108, 112, 116, 120, 124, 128]"
  by (simp add: units_i2u_def units_tables_def units_round_def upt_rec)

section \<open>Reading back the fresh states\<close>

definition fresh_upto :: "nat \<Rightarrow> arena \<Rightarrow> nat \<Rightarrow> arena" where
  "fresh_upto n m s = fold (\<lambda>i m. wr_state m (s + 6 * i) (fresh_state i)) [0..<n] m"

lemma fresh_upto_Suc: "fresh_upto (Suc n) m s = wr_state (fresh_upto n m s) (s + 6 * n) (fresh_state n)"
  by (simp add: fresh_upto_def)

lemma fresh_upto_outside: "x < s \<or> s + 6 * n \<le> x \<Longrightarrow> fresh_upto n m s x = m x"
proof (induction n)
  case (Suc n)
  then show ?case unfolding fresh_upto_Suc by (subst wr_state_other) auto
qed (simp add: fresh_upto_def)

lemma fresh_upto_inside: "i < n \<Longrightarrow> rd_state (fresh_upto n m s) (s + 6 * i) = fresh_state i"
proof (induction n)
  case (Suc n)
  show ?case
  proof (cases "i = n")
    case False
    then show ?thesis using Suc unfolding fresh_upto_Suc by (subst rd_state_wr_state_other) auto
  qed (simp add: fresh_upto_Suc)
qed simp

lemma fresh_states_upto: "fresh_states m s = fresh_upto 256 m s"
  by (simp only: fresh_states_def fresh_upto_def)

lemma fresh_states_outside [mem_frame]: "x < s \<or> s + 1536 \<le> x \<Longrightarrow> fresh_states m s x = m x"
  unfolding fresh_states_upto by (rule fresh_upto_outside) simp

lemma rd16_fresh_states [mem_frame]:
  "x + 2 \<le> s \<or> s + 1536 \<le> x \<Longrightarrow> rd16 (fresh_states m s) x = rd16 m x"
  by (rule rd16_cong) (auto simp: fresh_states_outside)

lemma rd32_fresh_states [mem_frame]:
  "x + 4 \<le> s \<or> s + 1536 \<le> x \<Longrightarrow> rd32 (fresh_states m s) x = rd32 m x"
  by (rule rd32_cong) (auto simp: fresh_states_outside)

lemma rd_fresh_states: "i < 256 \<Longrightarrow> rd_state (fresh_states m s) (s + 6 * i) = fresh_state i"
  unfolding fresh_states_upto by (rule fresh_upto_inside)

lemma fresh_states_fields:
  assumes "i < 256"
  shows "sSymbol (fresh_states m s) (s + 6 * i) = word_of_nat i"
    "sFreq (fresh_states m s) (s + 6 * i) = 1"
    "sSuccessor (fresh_states m s) (s + 6 * i) = 0"
  by (simp_all add: sSymbol_def sFreq_def sSuccessor_def rd_fresh_states [OF assms] fresh_state_def)

end
