(* ===== verification/Ppmd7_Model.thy ===== *)
theory Ppmd7_Model
  imports Ppmd_Base
begin

text \<open>
  The PPMdH model of \<^verbatim>\<open>src/lib/ppmd/Ppmd7.c\<close>: the suballocator (free lists of units, glueing
  and splitting of free blocks), the restart of the model, and the updates after each coded
  symbol.  Operations are state passing over \<open>CPpmd7\<close>; the \<open>option\<close> monad has \<open>None\<close> where the
  C code has no defined behaviour (an array overrun, a division by zero, a search that leaves
  the allocation) or does not return, and a pointer the code may set to NULL is itself an
  \<open>option\<close>.  Names that \<^verbatim>\<open>Ppmd8.c\<close> uses as well carry the suffix 7.
\<close>

section \<open>State\<close>

definition PPMD7_MIN_ORDER :: nat where "PPMD7_MIN_ORDER = 2"
definition PPMD7_MAX_ORDER :: nat where "PPMD7_MAX_ORDER = 64"

record CPpmd7 = ppmd +
  HiBitsFlag :: UInt32
  HB2Flag :: "Byte list"

definition PPMD7_kExpEscape :: "Byte list" where
  "PPMD7_kExpEscape = [25, 14, 9, 7, 5, 5, 4, 4, 4, 3, 3, 3, 2, 2, 2, 2]"

definition kInitBinEsc7 :: "UInt16 list" where
  "kInitBinEsc7 = [0x3CDD, 0x1F3F, 0x59BF, 0x48F3, 0x64A1, 0x5ABC, 0x6632, 0x6051]"

text \<open>\<^verbatim>\<open>CPpmd7_Context\<close>: NumStats is a 16-bit field at offset 0.\<close>

definition NumStats7 :: "arena \<Rightarrow> nat \<Rightarrow> UInt16" where "NumStats7 m c = rd16 m c"
definition wr_NumStats7 :: "arena \<Rightarrow> nat \<Rightarrow> UInt16 \<Rightarrow> arena" where "wr_NumStats7 m c v = wr16 m c v"

section \<open>Construction and allocation\<close>

definition Ppmd7_Construct :: "CPpmd7 \<Rightarrow> CPpmd7" where
  "Ppmd7_Construct p = p\<lparr>
     Base := False,
     Indx2Units := units_i2u,
     Units2Indx := units_u2i,
     NS2Indx := [0, 1, 2] @ ns2indx_loop 2 253 3 1,
     NS2BSIndx := [0, 2] @ replicate 9 4 @ replicate 245 6,
     HB2Flag := replicate 0x40 0 @ replicate 0xC0 8\<rparr>"

definition Ppmd7_Free :: "CPpmd7 \<Rightarrow> CPpmd7" where
  "Ppmd7_Free p = p\<lparr>Size := 0, Base := False\<rparr>"

text \<open>The allocator (\<^verbatim>\<open>IAllocPtr\<close>) is a parameter: a block of the given number of bytes with
  arbitrary content, or NULL.\<close>

definition Ppmd7_Alloc :: "CPpmd7 \<Rightarrow> UInt32 \<Rightarrow> (nat \<Rightarrow> arena option) \<Rightarrow> bool \<times> CPpmd7" where
  "Ppmd7_Alloc p sz alloc =
     (if \<not> Base p \<or> Size p \<noteq> sz
      then let p = (Ppmd7_Free p)\<lparr>AlignOffset := 4 - (sz AND 3)\<rparr>
           in case alloc (unat (AlignOffset p + sz) + UNIT_SIZE) of
                None \<Rightarrow> (False, p\<lparr>Base := False\<rparr>)
              | Some blk \<Rightarrow> (True, p\<lparr>Size := sz, Base := True, mem := blk\<rparr>)
      else (True, p))"

section \<open>Free lists\<close>

definition InsertNode7 :: "CPpmd7 \<Rightarrow> nat \<Rightarrow> nat \<Rightarrow> CPpmd7" where
  "InsertNode7 p node indx =
     p\<lparr>mem := wr32 (mem p) node (FreeList p indx), FreeList := (FreeList p)(indx := REF node)\<rparr>"

definition RemoveNode7 :: "CPpmd7 \<Rightarrow> nat \<Rightarrow> nat \<times> CPpmd7" where
  "RemoveNode7 p indx =
     (let node = GetPtr (FreeList p indx)
      in (node, p\<lparr>FreeList := (FreeList p)(indx := rd32 (mem p) node)\<rparr>))"

definition SplitBlock7 :: "CPpmd7 \<Rightarrow> nat \<Rightarrow> nat \<Rightarrow> nat \<Rightarrow> CPpmd7" where
  "SplitBlock7 p ptr oldIndx newIndx =
     (let nu = I2U p oldIndx - I2U p newIndx;
          ptr = ptr + U2B (I2U p newIndx);
          i = U2I p nu
      in if I2U p i \<noteq> nu
         then let i = i - 1; k = I2U p i; p = InsertNode7 p (ptr + U2B k) (nu - k - 1)
              in InsertNode7 p ptr i
         else InsertNode7 p ptr i)"

subsection \<open>Glueing\<close>

text \<open>\<^verbatim>\<open>CPpmd7_Node\<close>: Stamp (16 bits) at 0, NU (16 bits) at 2, Next at 4, Prev at 8.  The head of
  the doubly linked list is the guard unit after the arena.\<close>

definition nStamp :: "arena \<Rightarrow> nat \<Rightarrow> UInt16" where "nStamp m n = rd16 m n"
definition nNU :: "arena \<Rightarrow> nat \<Rightarrow> UInt16" where "nNU m n = rd16 m (n + 2)"
definition nNext :: "arena \<Rightarrow> nat \<Rightarrow> UInt32" where "nNext m n = rd32 m (n + 4)"
definition nPrev :: "arena \<Rightarrow> nat \<Rightarrow> UInt32" where "nPrev m n = rd32 m (n + 8)"
definition wr_Stamp :: "arena \<Rightarrow> nat \<Rightarrow> UInt16 \<Rightarrow> arena" where "wr_Stamp m n v = wr16 m n v"
definition wr_NU :: "arena \<Rightarrow> nat \<Rightarrow> UInt16 \<Rightarrow> arena" where "wr_NU m n v = wr16 m (n + 2) v"
definition wr_Next :: "arena \<Rightarrow> nat \<Rightarrow> UInt32 \<Rightarrow> arena" where "wr_Next m n v = wr32 m (n + 4) v"
definition wr_Prev :: "arena \<Rightarrow> nat \<Rightarrow> UInt32 \<Rightarrow> arena" where "wr_Prev m n v = wr32 m (n + 8) v"

text \<open>The inner loop of the first pass: the free list of one size, from \<open>nx\<close> on, is linked
  behind \<open>n\<close>.\<close>

partial_function (option) Glue_collect7 ::
    "UInt16 \<Rightarrow> arena \<Rightarrow> UInt32 \<Rightarrow> UInt32 \<Rightarrow> (arena \<times> UInt32) option" where
  "Glue_collect7 nu m n nx =
     (if nx = 0 then Some (m, n)
      else let node = GetPtr nx;
               m = wr_Next m node n;
               m = wr_Prev m (GetPtr n) nx;
               n = nx;
               nx = rd32 m node;
               m = wr_Stamp m node 0;
               m = wr_NU m node nu
           in Glue_collect7 nu m n nx)"

primrec Glue_lists7 :: "nat list \<Rightarrow> CPpmd7 \<Rightarrow> UInt32 \<Rightarrow> (CPpmd7 \<times> UInt32) option" where
  "Glue_lists7 [] p n = Some (p, n)"
| "Glue_lists7 (i # is) p n =
     do { (m, n) \<leftarrow> Glue_collect7 (word_of_nat (I2U p i)) (mem p) n (FreeList p i);
          Glue_lists7 is (p\<lparr>mem := m, FreeList := (FreeList p)(i := 0)\<rparr>) n }"

text \<open>The inner \<^verbatim>\<open>for (;;)\<close> of the second pass: the block at \<open>n\<close> of \<open>nu\<close> units absorbs the free
  blocks that follow it.\<close>

partial_function (option) Glue_absorb7 :: "arena \<Rightarrow> UInt32 \<Rightarrow> UInt32 \<Rightarrow> arena option" where
  "Glue_absorb7 m n nu =
     (let node2 = GetPtr n + U2B (unat nu);
          nu = nu + ucast (nNU m node2)
      in if nStamp m node2 \<noteq> 0 \<or> 0x10000 \<le> nu then Some m
         else let m = wr_Next m (GetPtr (nPrev m node2)) (nNext m node2);
                  m = wr_Prev m (GetPtr (nNext m node2)) (nPrev m node2);
                  m = wr_NU m (GetPtr n) (ucast nu)
              in Glue_absorb7 m n nu)"

partial_function (option) Glue_blocks7 :: "UInt32 \<Rightarrow> arena \<Rightarrow> UInt32 \<Rightarrow> arena option" where
  "Glue_blocks7 head m n =
     (if n = head then Some m
      else do { m \<leftarrow> Glue_absorb7 m n (ucast (nNU m (GetPtr n)));
                Glue_blocks7 head m (nNext m (GetPtr n)) })"

text \<open>The third pass: blocks larger than 128 units are cut, the rest goes to the list of its
  size, or to two of them.\<close>

fun Glue_cut7 :: "CPpmd7 \<Rightarrow> nat \<Rightarrow> nat \<Rightarrow> CPpmd7 \<times> nat \<times> nat" where
  "Glue_cut7 p node nu =
     (if 128 < nu
      then Glue_cut7 (InsertNode7 p node (PPMD_NUM_INDEXES - 1)) (node + U2B 128) (nu - 128)
      else (p, node, nu))"

declare Glue_cut7.simps [simp del]

definition Glue_put7 :: "CPpmd7 \<Rightarrow> nat \<Rightarrow> CPpmd7" where
  "Glue_put7 p n =
     (let (p, node, nu) = Glue_cut7 p n (unat (nNU (mem p) n));
          i = U2I p nu
      in if I2U p i \<noteq> nu
         then let i = i - 1; k = I2U p i; p = InsertNode7 p (node + U2B k) (nu - k - 1)
              in InsertNode7 p node i
         else InsertNode7 p node i)"

partial_function (option) Glue_fill7 :: "UInt32 \<Rightarrow> CPpmd7 \<Rightarrow> UInt32 \<Rightarrow> CPpmd7 option" where
  "Glue_fill7 head p n =
     (if n = head then Some p
      else let nx = nNext (mem p) (GetPtr n) in Glue_fill7 head (Glue_put7 p (GetPtr n)) nx)"

definition GlueFreeBlocks7 :: "CPpmd7 \<Rightarrow> CPpmd7 option" where
  "GlueFreeBlocks7 p =
     do { let head = AlignOffset p + Size p;
          let p = p\<lparr>GlueCount := 255\<rparr>;
          (p, n) \<leftarrow> Glue_lists7 [0..<PPMD_NUM_INDEXES] p head;
          let m = wr_Stamp (mem p) (GetPtr head) 1;
          let m = wr_Next m (GetPtr head) n;
          let m = wr_Prev m (GetPtr n) head;
          let m = (if LoUnit p \<noteq> HiUnit p then wr_Stamp m (LoUnit p) 1 else m);
          m \<leftarrow> Glue_blocks7 head m n;
          Glue_fill7 head (p\<lparr>mem := m\<rparr>) (nNext m (GetPtr head)) }"

subsection \<open>Allocating units\<close>

text \<open>The inner \<open>None\<close> is the NULL the code returns when the arena is full.\<close>

definition AllocUnitsRare7 :: "CPpmd7 \<Rightarrow> nat \<Rightarrow> (nat option \<times> CPpmd7) option" where
  "AllocUnitsRare7 p indx =
     do { let glue = (GlueCount p = 0);
          p \<leftarrow> (if glue then GlueFreeBlocks7 p else Some p);
          if glue \<and> FreeList p indx \<noteq> 0
          then (let (r, p) = RemoveNode7 p indx in Some (Some r, p))
          else case find (\<lambda>i. FreeList p i \<noteq> 0) [indx + 1..<PPMD_NUM_INDEXES] of
                 None \<Rightarrow>
                   (let numBytes = U2B (I2U p indx); p = p\<lparr>GlueCount := GlueCount p - 1\<rparr>
                    in if word_of_nat numBytes < ptr_diff (UnitsStart p) (Text p)
                       then Some (Some (UnitsStart p - numBytes),
                                  p\<lparr>UnitsStart := UnitsStart p - numBytes\<rparr>)
                       else Some (None, p))
               | Some i \<Rightarrow>
                   (let (r, p) = RemoveNode7 p i in Some (Some r, SplitBlock7 p r i indx)) }"

definition AllocUnits7 :: "CPpmd7 \<Rightarrow> nat \<Rightarrow> (nat option \<times> CPpmd7) option" where
  "AllocUnits7 p indx =
     (if FreeList p indx \<noteq> 0 then let (r, p) = RemoveNode7 p indx in Some (Some r, p)
      else let numBytes = U2B (I2U p indx)
           in if word_of_nat numBytes \<le> ptr_diff (HiUnit p) (LoUnit p)
              then Some (Some (LoUnit p), p\<lparr>LoUnit := LoUnit p + numBytes\<rparr>)
              else AllocUnitsRare7 p indx)"

definition ShrinkUnits7 :: "CPpmd7 \<Rightarrow> nat \<Rightarrow> nat \<Rightarrow> nat \<Rightarrow> (nat \<times> CPpmd7) option" where
  "ShrinkUnits7 p oldPtr oldNU newNU =
     (let i0 = U2I p oldNU; i1 = U2I p newNU
      in if i0 = i1 then Some (oldPtr, p)
         else if FreeList p i1 \<noteq> 0
         then let (ptr, p) = RemoveNode7 p i1
              in do { m \<leftarrow> MyMem12Cpy ptr oldPtr newNU (mem p);
                      Some (ptr, InsertNode7 (p\<lparr>mem := m\<rparr>) oldPtr i0) }
         else Some (oldPtr, SplitBlock7 p oldPtr i0 i1))"

section \<open>Restart\<close>

definition kDefaultBinSumm7 :: "nat \<Rightarrow> nat \<Rightarrow> UInt16" where
  "kDefaultBinSumm7 i k =
     word_of_nat (unat PPMD_BIN_SCALE - unat (kInitBinEsc7 ! (k mod 8)) div (i + 2))"

definition kDefaultSee :: "nat \<Rightarrow> CPpmd_See" where
  "kDefaultSee i = (let sh = PPMD_PERIOD_BITS - 4
     in \<lparr>Summ = word_of_nat ((5 * i + 10) * 2 ^ sh), Shift = word_of_nat sh, Count = 4\<rparr>)"

text \<open>The loops over \<open>BinSumm\<close> and \<open>See\<close> write every element of arrays whose bounds are
  constants; they are given by the element.\<close>

definition RestartModel7 :: "CPpmd7 \<Rightarrow> CPpmd7" where
  "RestartModel7 p =
     (let p = p\<lparr>FreeList := (\<lambda>i. if i < PPMD_NUM_INDEXES then 0 else FreeList p i)\<rparr>;
          p = p\<lparr>Text := unat (AlignOffset p)\<rparr>;
          p = p\<lparr>HiUnit := Text p + unat (Size p)\<rparr>;
          lo = HiUnit p - unat (Size p) div 8 div UNIT_SIZE * 7 * UNIT_SIZE;
          p = p\<lparr>LoUnit := lo, UnitsStart := lo, GlueCount := 0\<rparr>;
          il = - (if MaxOrder p < 12 then MaxOrder p else 12) - 1;
          p = p\<lparr>OrderFall := MaxOrder p, RunLength := il, InitRL := il, PrevSuccess := 0\<rparr>;
          c = HiUnit p - UNIT_SIZE;
          p = p\<lparr>HiUnit := c, MinContext := c, MaxContext := c\<rparr>;
          m = wr_Suffix (mem p) c 0;
          m = wr_NumStats7 m c 256;
          m = wr_SummFreq m c (256 + 1);
          p = p\<lparr>FoundState := LoUnit p, LoUnit := LoUnit p + U2B (256 div 2)\<rparr>;
          m = wr_Stats m c (REF (FoundState p));
          m = fresh_states m (FoundState p)
      in p\<lparr>mem := m,
           BinSumm := (\<lambda>i k. if i < 128 \<and> k < 64 then kDefaultBinSumm7 i k else BinSumm p i k),
           See := (\<lambda>i k. if i < 25 \<and> k < 16 then kDefaultSee i else See p i k)\<rparr>)"

definition Ppmd7_Init :: "CPpmd7 \<Rightarrow> UInt32 \<Rightarrow> CPpmd7" where
  "Ppmd7_Init p maxOrder =
     (let p = RestartModel7 (p\<lparr>MaxOrder := maxOrder\<rparr>)
      in p\<lparr>DummySee := \<lparr>Summ = 0, Shift = word_of_nat PPMD_PERIOD_BITS, Count = 64\<rparr>\<rparr>)"

section \<open>Updating the model\<close>

text \<open>The states are searched up to the end of the allocation.\<close>

definition lim7 :: "CPpmd7 \<Rightarrow> nat" where "lim7 p = arena_top p + UNIT_SIZE"

subsection \<open>CreateSuccessors\<close>

text \<open>The \<^verbatim>\<open>while (c->Suffix)\<close> walk: \<open>Inl c\<close> is the early return, \<open>Inr (c, ps)\<close> the context
  and the states to extend; more than \<open>PPMD7_MAX_ORDER\<close> of them overrun \<^verbatim>\<open>ps\<close>.\<close>

function Successors_walk7 ::
    "CPpmd7 \<Rightarrow> UInt32 \<Rightarrow> nat \<Rightarrow> nat list \<Rightarrow> (nat + nat \<times> nat list) option" where
  "Successors_walk7 p upBranch c ps =
     (if Suffix (mem p) c = 0 then Some (Inr (c, ps))
      else let c = SUFFIX (mem p) c
           in do { s \<leftarrow> (if NumStats7 (mem p) c \<noteq> 1
                        then find_symbol (mem p) (lim7 p) (STATS (mem p) c)
                               (sSymbol (mem p) (FoundState p))
                        else Some (ONE_STATE c));
                   let successor = sSuccessor (mem p) s;
                   if successor \<noteq> upBranch
                   then (let c = GetPtr successor
                         in Some (if ps = [] then Inl c else Inr (c, ps)))
                   else if length ps < PPMD7_MAX_ORDER
                   then Successors_walk7 p upBranch c (ps @ [s])
                   else None })"
  by pat_completeness auto
termination
  by (relation "measure (\<lambda>(p, u, c, ps). PPMD7_MAX_ORDER - length ps)") auto

declare Successors_walk7.simps [simp del]

text \<open>The frequency the new contexts start with, from the frequencies in \<open>c\<close>.\<close>

definition Successors_freq7 :: "CPpmd7 \<Rightarrow> nat \<Rightarrow> Byte \<Rightarrow> Byte option" where
  "Successors_freq7 p c ch =
     (if NumStats7 (mem p) c = 1 then Some (sFreq (mem p) (ONE_STATE c))
      else do { s \<leftarrow> find_symbol (mem p) (lim7 p) (STATS (mem p) c) ch;
                let cf = (ucast (sFreq (mem p) s) :: UInt32) - 1;
                let s0 = ucast (SummFreq (mem p) c) - ucast (NumStats7 (mem p) c) - cf;
                if 2 * cf \<le> s0 then Some (ucast (1 + (of_bool (5 * cf > s0) :: UInt32)))
                else if 2 * s0 = 0 then None
                else Some (ucast (1 + (2 * cf + 3 * s0 - 1) div (2 * s0))) })"

definition AllocContext7 :: "CPpmd7 \<Rightarrow> (nat option \<times> CPpmd7) option" where
  "AllocContext7 p =
     (if HiUnit p \<noteq> LoUnit p
      then Some (Some (HiUnit p - UNIT_SIZE), p\<lparr>HiUnit := HiUnit p - UNIT_SIZE\<rparr>)
      else if FreeList p 0 \<noteq> 0 then let (r, p) = RemoveNode7 p 0 in Some (Some r, p)
      else AllocUnitsRare7 p 0)"

text \<open>The child loop pops \<^verbatim>\<open>ps\<close> from its end; the argument lists it in that order.\<close>

primrec Successors_create7 ::
    "nat list \<Rightarrow> CPpmd_State \<Rightarrow> nat \<Rightarrow> CPpmd7 \<Rightarrow> (nat option \<times> CPpmd7) option" where
  "Successors_create7 [] upState c p = Some (Some c, p)"
| "Successors_create7 (s # ss) upState c p =
     do { (r, p) \<leftarrow> AllocContext7 p;
          case r of
            None \<Rightarrow> Some (None, p)
          | Some c1 \<Rightarrow>
              (let m = wr_NumStats7 (mem p) c1 1;
                   m = wr_state m (ONE_STATE c1) upState;
                   m = wr_Suffix m c1 (REF c);
                   m = wr_Successor m s (REF c1)
               in Successors_create7 ss upState c1 (p\<lparr>mem := m\<rparr>)) }"

definition CreateSuccessors7 :: "CPpmd7 \<Rightarrow> bool \<Rightarrow> (nat option \<times> CPpmd7) option" where
  "CreateSuccessors7 p skip =
     (let upBranch = sSuccessor (mem p) (FoundState p)
      in do { r \<leftarrow> Successors_walk7 p upBranch (MinContext p) (if skip then [] else [FoundState p]);
              case r of
                Inl c \<Rightarrow> Some (Some c, p)
              | Inr (c, ps) \<Rightarrow>
                  (let ch = mem p (GetPtr upBranch)
                   in do { fr \<leftarrow> Successors_freq7 p c ch;
                           let upState = SetSuccessor
                                 \<lparr>Symbol = ch, Freq = fr, SuccessorLow = 0, SuccessorHigh = 0\<rparr>
                                 (upBranch + 1);
                           if ps = [] then None else Successors_create7 (rev ps) upState c p }) })"

subsection \<open>UpdateModel\<close>

text \<open>The first block: the frequency of the symbol in the suffix context.\<close>

definition Update_suffix7 :: "CPpmd7 \<Rightarrow> CPpmd7 option" where
  "Update_suffix7 p =
     (let m = mem p in
      if unat (sFreq m (FoundState p)) < MAX_FREQ div 4 \<and> Suffix m (MinContext p) \<noteq> 0
      then let c = SUFFIX m (MinContext p)
           in if NumStats7 m c = 1
              then let s = ONE_STATE c
                   in Some (if sFreq m s < 32 then p\<lparr>mem := wr_Freq m s (sFreq m s + 1)\<rparr> else p)
              else do { let s = STATS m c;
                        (m, s) \<leftarrow>
                          (if sSymbol m s \<noteq> sSymbol m (FoundState p)
                           then do { s \<leftarrow> find_symbol m (lim7 p) (s + 6) (sSymbol m (FoundState p));
                                     Some (if sFreq m (s - 6) \<le> sFreq m s
                                           then (SwapStates m s (s - 6), s - 6) else (m, s)) }
                           else Some (m, s));
                        let m = (if unat (sFreq m s) < MAX_FREQ - 9
                                 then let m = wr_Freq m s (sFreq m s + 2)
                                      in wr_SummFreq m c (SummFreq m c + 2)
                                 else m);
                        Some (p\<lparr>mem := m\<rparr>) }
      else Some p)"

text \<open>One round of the loop over the contexts from \<^verbatim>\<open>MaxContext\<close> to \<^verbatim>\<open>MinContext\<close>: the
  symbol is added to \<open>c\<close>.  First the room for it; \<open>(False, p)\<close>: an allocation failed.\<close>

definition Update_expand7 :: "UInt32 \<Rightarrow> CPpmd7 \<Rightarrow> nat \<Rightarrow> (bool \<times> CPpmd7) option" where
  "Update_expand7 ns1 p c =
     (if ns1 AND 1 = 0
      then let oldNU = unat (drop_bit 1 ns1); i = U2I p oldNU
           in if i \<noteq> U2I p (oldNU + 1)
              then do { (r, p) \<leftarrow> AllocUnits7 p (i + 1);
                        case r of
                          None \<Rightarrow> Some (False, p)
                        | Some ptr \<Rightarrow>
                            (let oldPtr = STATS (mem p) c
                             in do { m \<leftarrow> MyMem12Cpy ptr oldPtr oldNU (mem p);
                                     let p = InsertNode7 (p\<lparr>mem := m\<rparr>) oldPtr i;
                                     Some (True, p\<lparr>mem := wr_Stats (mem p) c (REF ptr)\<rparr>) }) }
              else Some (True, p)
      else Some (True, p))"

definition Update_grow7 :: "UInt32 \<Rightarrow> CPpmd7 \<Rightarrow> nat \<Rightarrow> (bool \<times> CPpmd7) option" where
  "Update_grow7 ns p c =
     (let ns1 = (ucast (NumStats7 (mem p) c) :: UInt32) in
      if ns1 \<noteq> 1
      then do { (ok, p) \<leftarrow> Update_expand7 ns1 p c;
                if \<not> ok then Some (False, p)
                else (let sm = (ucast (SummFreq (mem p) c) :: UInt32);
                          sm = sm + of_bool (2 * ns1 < ns)
                                  + 2 * of_bool (4 * ns1 \<le> ns \<and> sm \<le> 8 * ns1)
                      in Some (True, p\<lparr>mem := wr_SummFreq (mem p) c (ucast sm)\<rparr>)) }
      else do { (r, p) \<leftarrow> AllocUnits7 p 0;
                case r of
                  None \<Rightarrow> Some (False, p)
                | Some s \<Rightarrow>
                    (let m = wr_state (mem p) s (rd_state (mem p) (ONE_STATE c));
                         m = wr_Stats m c (REF s);
                         m = (if unat (sFreq m s) < MAX_FREQ div 4 - 1
                              then wr_Freq m s (push_bit 1 (sFreq m s))
                              else wr_Freq m s (word_of_nat (MAX_FREQ - 4)));
                         m = wr_SummFreq m c (ucast (ucast (sFreq m s) + InitEsc p + of_bool (3 < ns)))
                     in Some (True, p\<lparr>mem := m\<rparr>)) })"

text \<open>The rest of the round; \<open>ns1\<close> is the number of states before it.\<close>

definition Update_append7 :: "UInt32 \<Rightarrow> UInt32 \<Rightarrow> UInt16 \<Rightarrow> CPpmd7 \<Rightarrow> nat \<Rightarrow> CPpmd7" where
  "Update_append7 successor s0 ns1 p c =
     (let m = mem p;
          sm = (ucast (SummFreq m c) :: UInt32);
          cf = 2 * ucast (sFreq m (FoundState p)) * (sm + 6);
          sf = s0 + sm;
          (cf, m) =
            (if cf < 6 * sf
             then (1 + of_bool (sf < cf) + of_bool (4 * sf \<le> cf), wr_SummFreq m c (SummFreq m c + 3))
             else let cf = 4 + of_bool (9 * sf \<le> cf) + of_bool (12 * sf \<le> cf) + of_bool (15 * sf \<le> cf)
                  in (cf, wr_SummFreq m c (ucast (sm + cf))));
          s = STATS m c + 6 * unat ns1;
          m = wr_Successor m s successor;
          m = wr8 m s (sSymbol m (FoundState p));
          m = wr_Freq m s (ucast cf);
          m = wr_NumStats7 m c (ns1 + 1)
      in p\<lparr>mem := m\<rparr>)"

text \<open>\<open>(False, p)\<close>: the model has been restarted.\<close>

partial_function (option) Update_contexts7 ::
    "UInt32 \<Rightarrow> UInt32 \<Rightarrow> UInt32 \<Rightarrow> CPpmd7 \<Rightarrow> nat \<Rightarrow> (bool \<times> CPpmd7) option" where
  "Update_contexts7 successor s0 ns p c =
     (if c = MinContext p then Some (True, p)
      else let ns1 = NumStats7 (mem p) c
           in do { (ok, p) \<leftarrow> Update_grow7 ns p c;
                   if \<not> ok then Some (False, RestartModel7 p)
                   else (let p = Update_append7 successor s0 ns1 p c
                         in Update_contexts7 successor s0 ns p (SUFFIX (mem p) c)) })"

text \<open>The end of the update, once the successor of the found state is known.\<close>

definition Update_finish7 :: "UInt32 \<Rightarrow> UInt32 \<Rightarrow> CPpmd7 \<Rightarrow> CPpmd7 option" where
  "Update_finish7 successor fSuccessor p =
     (let m = mem p;
          ns = (ucast (NumStats7 m (MinContext p)) :: UInt32);
          s0 = ucast (SummFreq m (MinContext p)) - ns - (ucast (sFreq m (FoundState p)) - 1)
      in do { (ok, p) \<leftarrow> Update_contexts7 successor s0 ns p (MaxContext p);
              Some (if ok then p\<lparr>MaxContext := GetPtr fSuccessor, MinContext := GetPtr fSuccessor\<rparr>
                    else p) })"

definition UpdateModel7 :: "CPpmd7 \<Rightarrow> CPpmd7 option" where
  "UpdateModel7 p =
     (let fSuccessor = sSuccessor (mem p) (FoundState p) in
      do { p \<leftarrow> Update_suffix7 p;
           if OrderFall p = 0
           then do { (r, p) \<leftarrow> CreateSuccessors7 p True;
                     case r of
                       None \<Rightarrow> Some (RestartModel7 p)
                     | Some c \<Rightarrow> Some (p\<lparr>MinContext := c, MaxContext := c,
                         mem := wr_Successor (mem p) (FoundState p) (REF c)\<rparr>) }
           else
             (let p = p\<lparr>mem := wr8 (mem p) (Text p) (sSymbol (mem p) (FoundState p)), Text := Text p + 1\<rparr>;
                  successor = REF (Text p)
              in if UnitsStart p \<le> Text p then Some (RestartModel7 p)
                 else if fSuccessor \<noteq> 0
                 then do { (r, p) \<leftarrow> (if fSuccessor \<le> successor then CreateSuccessors7 p False
                                     else Some (Some (GetPtr fSuccessor), p));
                           case r of
                             None \<Rightarrow> Some (RestartModel7 p)
                           | Some cs \<Rightarrow>
                               (let p = p\<lparr>OrderFall := OrderFall p - 1\<rparr>
                                in if OrderFall p = 0
                                   then Update_finish7 (REF cs) (REF cs)
                                          (p\<lparr>Text := Text p - of_bool (MaxContext p \<noteq> MinContext p)\<rparr>)
                                   else Update_finish7 successor (REF cs) p) }
                 else Update_finish7 successor (REF (MinContext p))
                        (p\<lparr>mem := wr_Successor (mem p) (FoundState p) successor\<rparr>)) })"

subsection \<open>Rescale\<close>

definition Rescale7 :: "CPpmd7 \<Rightarrow> CPpmd7 option" where
  "Rescale7 p =
     (let c = MinContext p; stats = STATS (mem p) c in
      do { m \<leftarrow> Rotate_down (mem p) stats (FoundState p) (rd_state (mem p) (FoundState p));
           let s = stats;
           let escFreq = ucast (SummFreq m c) - ucast (sFreq m s);
           let m = wr_Freq m s (sFreq m s + 4);
           let adder = of_bool (OrderFall p \<noteq> 0);
           let m = wr_Freq m s (halve (sFreq m s) adder);
           let sumFreq = ucast (sFreq m s);
           let i = unat (NumStats7 m c);
           (m, s, escFreq, sumFreq) \<leftarrow>
             (if i - 1 = 0 then None else Rescale_loop (i - 1) adder stats m s escFreq sumFreq);
           (done, escFreq, p) \<leftarrow>
             (if sFreq m s = 0
              then do { let numStats = unat (NumStats7 m c);
                        i \<leftarrow> Count_zeros m s 0;
                        let escFreq = escFreq + word_of_nat i;
                        let m = wr_NumStats7 m c (NumStats7 m c - word_of_nat i);
                        if NumStats7 m c = 1
                        then do { let tmp = rd_state m stats;
                                  let tmp = tmp\<lparr>Freq := Halve_single (Freq tmp) escFreq\<rparr>;
                                  let p = InsertNode7 (p\<lparr>mem := m\<rparr>) stats (U2I p ((numStats + 1) div 2));
                                  Some (True, escFreq, p\<lparr>FoundState := ONE_STATE c,
                                    mem := wr_state (mem p) (ONE_STATE c) tmp\<rparr>) }
                        else do { let n0 = (numStats + 1) div 2;
                                  let n1 = (unat (NumStats7 m c) + 1) div 2;
                                  let p = p\<lparr>mem := m\<rparr>;
                                  p \<leftarrow> (if n0 \<noteq> n1
                                       then do { (r, p) \<leftarrow> ShrinkUnits7 p stats n0 n1;
                                                 Some (p\<lparr>mem := wr_Stats (mem p) c (REF r)\<rparr>) }
                                       else Some p);
                                  Some (False, escFreq, p) } }
              else Some (False, escFreq, p\<lparr>mem := m\<rparr>));
           Some (if done then p
                 else let m = wr_SummFreq (mem p) c (ucast (sumFreq + escFreq - drop_bit 1 escFreq))
                      in p\<lparr>mem := m, FoundState := STATS m c\<rparr>) })"

subsection \<open>Escapes\<close>

text \<open>The index of the SEE context, for a context that has not all 256 symbols.\<close>

definition see_index7 :: "CPpmd7 \<Rightarrow> UInt32 \<Rightarrow> nat \<times> nat" where
  "see_index7 p numMasked =
     (let m = mem p; c = MinContext p;
          ns = (ucast (NumStats7 m c) :: UInt32);
          nonMasked = ns - numMasked
      in (unat (NS2Indx p ! (unat nonMasked - 1)),
          unat (of_bool (nonMasked < ucast (NumStats7 m (SUFFIX m c)) - ns)
                + 2 * of_bool (ucast (SummFreq m c) < 11 * ns)
                + 4 * of_bool (numMasked > nonMasked)
                + HiBitsFlag p)))"

definition Ppmd7_MakeEscFreq :: "CPpmd7 \<Rightarrow> UInt32 \<Rightarrow> see_ref \<times> UInt32 \<times> CPpmd7" where
  "Ppmd7_MakeEscFreq p numMasked =
     (if NumStats7 (mem p) (MinContext p) \<noteq> 256
      then let (i, k) = see_index7 p numMasked;
               see = See p i k;
               r = drop_bit (unat (Shift see)) (Summ see);
               p = put_see p (SeeRef i k) (see\<lparr>Summ := Summ see - r\<rparr>)
           in (SeeRef i k, ucast r + of_bool (r = 0), p)
      else (DummyRef, 1, p))"

subsection \<open>The update after each kind of decision\<close>

definition NextContext7 :: "CPpmd7 \<Rightarrow> CPpmd7 option" where
  "NextContext7 p =
     (let c = GetPtr (sSuccessor (mem p) (FoundState p))
      in if OrderFall p = 0 \<and> Text p < c then Some (p\<lparr>MinContext := c, MaxContext := c\<rparr>)
         else UpdateModel7 p)"

definition Ppmd7_Update1 :: "CPpmd7 \<Rightarrow> CPpmd7 option" where
  "Ppmd7_Update1 p =
     (let s = FoundState p; c = MinContext p;
          m = wr_Freq (mem p) s (sFreq (mem p) s + 4);
          m = wr_SummFreq m c (SummFreq m c + 4)
      in do { p \<leftarrow> (if sFreq m (s - 6) < sFreq m s
                   then let p = p\<lparr>mem := SwapStates m s (s - 6), FoundState := s - 6\<rparr>
                        in if MAX_FREQ < unat (sFreq (mem p) (s - 6)) then Rescale7 p else Some p
                   else Some (p\<lparr>mem := m\<rparr>));
              NextContext7 p })"

definition Ppmd7_Update1_0 :: "CPpmd7 \<Rightarrow> CPpmd7 option" where
  "Ppmd7_Update1_0 p =
     (let s = FoundState p; c = MinContext p; m = mem p;
          p = p\<lparr>PrevSuccess := of_bool ((ucast (SummFreq m c) :: UInt32) < 2 * ucast (sFreq m s))\<rparr>;
          p = p\<lparr>RunLength := RunLength p + PrevSuccess p\<rparr>;
          m = wr_SummFreq m c (SummFreq m c + 4);
          m = wr_Freq m s (sFreq m s + 4);
          p = p\<lparr>mem := m\<rparr>
      in do { p \<leftarrow> (if MAX_FREQ < unat (sFreq m s) then Rescale7 p else Some p);
              NextContext7 p })"

definition Ppmd7_UpdateBin :: "CPpmd7 \<Rightarrow> CPpmd7 option" where
  "Ppmd7_UpdateBin p =
     (let s = FoundState p; m = mem p;
          m = wr_Freq m s (sFreq m s + of_bool (sFreq m s < 128))
      in NextContext7 (p\<lparr>mem := m, PrevSuccess := 1, RunLength := RunLength p + 1\<rparr>))"

definition Ppmd7_Update2 :: "CPpmd7 \<Rightarrow> CPpmd7 option" where
  "Ppmd7_Update2 p =
     (let s = FoundState p; c = MinContext p;
          m = wr_SummFreq (mem p) c (SummFreq (mem p) c + 4);
          m = wr_Freq m s (sFreq m s + 4);
          p = p\<lparr>mem := m\<rparr>
      in do { p \<leftarrow> (if MAX_FREQ < unat (sFreq m s) then Rescale7 p else Some p);
              UpdateModel7 (p\<lparr>RunLength := InitRL p\<rparr>) })"

text \<open>\<^verbatim>\<open>Ppmd7_GetBinSumm\<close>: the element's indices, and the state with \<open>HiBitsFlag\<close> set.  Bit 31
  of \<open>RunLength\<close> (its sign) arrives at bit 5.\<close>

definition Ppmd7_GetBinSumm :: "CPpmd7 \<Rightarrow> nat \<times> nat \<times> CPpmd7" where
  "Ppmd7_GetBinSumm p =
     (let m = mem p; c = MinContext p; one = ONE_STATE c;
          p = p\<lparr>HiBitsFlag := ucast (HB2Flag p ! unat (sSymbol m (FoundState p)))\<rparr>
      in (unat (sFreq m one) - 1,
          unat (PrevSuccess p
            + ucast (NS2BSIndx p ! (unat (NumStats7 m (SUFFIX m c)) - 1))
            + HiBitsFlag p
            + 2 * ucast (HB2Flag p ! unat (sSymbol m one))
            + (drop_bit 26 (RunLength p) AND 0x20)),
          p))"

end
