(* ===== verification/Range_Coder.thy ===== *)
theory Range_Coder
  imports Ppmd_Prelude
begin

text \<open>
  The contract between an arithmetic coder and its clients, shared by the two range coders
  of the library (the carry-propagating coder of 7z in \<^verbatim>\<open>Ppmd7Enc.c\<close>/\<^verbatim>\<open>Ppmd7Dec.c\<close> and
  the carryless coder in \<^verbatim>\<open>Ppmd8Enc.c\<close>/\<^verbatim>\<open>Ppmd8Dec.c\<close>).

  A model codes a list of \<open>decision\<close>s: a symbol is the interval \<open>[start, start + size)\<close> of
  \<open>[0, total)\<close>, a binary context codes one bit with the probability \<open>size0 / 2^14\<close> of a 0.
  An encoder state stands for an interval \<open>[T, T + R)\<close> of integers, read against the first
  \<open>j + hdr\<close> bytes of the final output, where \<open>j\<close> counts the bytes shifted out; the locale
  \<open>range_coder\<close> states that each step narrows the interval and that a decoder which has read
  the same bytes takes the same decisions.  The composition lemma for whole runs is proved
  once here.
\<close>

section \<open>Decisions\<close>

datatype decision =
    Interval UInt32 UInt32 UInt32  \<comment> \<open>start, size, total\<close>
  | Bit bool UInt32            \<comment> \<open>the bit (\<open>True\<close> is 1), size of the 0 part\<close>

section \<open>Intervals against the output\<close>

text \<open>\<open>holds h B T R j\<close>: the number formed by the first \<open>j + h\<close> bytes of \<open>B\<close> lies in
  \<open>[T, T + R)\<close>.\<close>

definition holds :: "nat \<Rightarrow> Byte list \<Rightarrow> nat \<Rightarrow> nat \<Rightarrow> nat \<Rightarrow> bool" where
  "holds h B T R j \<longleftrightarrow>
     j + h \<le> length B \<and> T \<le> be_val (take (j + h) B) \<and> be_val (take (j + h) B) < T + R"

lemma holds_shift:
  assumes "holds h B (T * 256) (R * 256) (Suc j)"
  shows "holds h B T R j"
proof -
  let ?x = "be_val (take (j + h) B)"
  have len: "j + h < length B" using assms by (simp add: holds_def)
  have v: "be_val (take (Suc j + h) B) = ?x * 256 + unat (B ! (j + h))"
    using be_val_take_Suc [OF len] by simp
  have b: "unat (B ! (j + h)) < 256" by (rule unat_lt8)
  have lo: "T * 256 \<le> ?x * 256 + unat (B ! (j + h))"
    and hi: "?x * 256 + unat (B ! (j + h)) < T * 256 + R * 256"
    using assms v by (simp_all add: holds_def)
  have "T \<le> ?x" using lo b by linarith
  moreover have "?x < T + R" using hi by linarith
  ultimately show ?thesis using len by (simp add: holds_def)
qed

lemma holds_mono:
  "holds h B T' R' j \<Longrightarrow> T \<le> T' \<Longrightarrow> T' + R' \<le> T + R \<Longrightarrow> holds h B T R j"
  by (auto simp: holds_def)

section \<open>Runs\<close>

text \<open>A run takes the decisions one after the other and stops at the first failure.\<close>

fun steps :: "('s \<Rightarrow> decision \<Rightarrow> 's option) \<Rightarrow> 's \<Rightarrow> decision list \<Rightarrow> 's option" where
  "steps f s [] = Some s"
| "steps f s (x # xs) = Option.bind (f s x) (\<lambda>s'. steps f s' xs)"

section \<open>The interface\<close>

text \<open>
  \<open>enc\<close> codes one decision, \<open>dec\<close> decodes one and fails unless it is the given one, \<open>good\<close>
  is the coder's invariant, \<open>ok\<close> the decisions it accepts, \<open>contains B e\<close> says that the
  output \<open>B\<close> is still inside the interval of \<open>e\<close>, and \<open>sync B e d\<close> that the decoder \<open>d\<close>
  has read as much of \<open>B\<close> as the encoder \<open>e\<close> has shifted out.  \<open>room n e\<close> bounds the
  decisions still to come (the 7z coder counts pending bytes in a 64-bit word).
\<close>

locale range_coder =
  fixes enc :: "'e \<Rightarrow> decision \<Rightarrow> 'e option"
    and dec :: "'d \<Rightarrow> decision \<Rightarrow> 'd option"
    and good :: "'e \<Rightarrow> bool"
    and ok :: "decision \<Rightarrow> bool"
    and room :: "nat \<Rightarrow> 'e \<Rightarrow> bool"
    and contains :: "Byte list \<Rightarrow> 'e \<Rightarrow> bool"
    and sync :: "Byte list \<Rightarrow> 'e \<Rightarrow> 'd \<Rightarrow> bool"
    and flush :: "'e \<Rightarrow> Byte list"
  assumes enc_total: "good e \<Longrightarrow> room (Suc n) e \<Longrightarrow> ok x \<Longrightarrow>
      \<exists>e'. enc e x = Some e' \<and> good e' \<and> room n e'"
    and enc_nested: "good e \<Longrightarrow> room 1 e \<Longrightarrow> ok x \<Longrightarrow> enc e x = Some e' \<Longrightarrow>
      contains B e' \<Longrightarrow> contains B e"
    and dec_follows: "good e \<Longrightarrow> room 1 e \<Longrightarrow> ok x \<Longrightarrow> enc e x = Some e' \<Longrightarrow>
      contains B e' \<Longrightarrow> sync B e d \<Longrightarrow> \<exists>d'. dec d x = Some d' \<and> sync B e' d'"
    and flush_contains: "good e \<Longrightarrow> room 0 e \<Longrightarrow> contains (flush e) e"
    and room_mono: "room (Suc n) e \<Longrightarrow> room n e"
begin

lemma room_le: "room n e \<Longrightarrow> m \<le> n \<Longrightarrow> room m e"
  by (induction n) (auto simp: le_Suc_eq dest: room_mono)

text \<open>A run leaves the room for what comes after it.\<close>

lemma enc_run_room:
  assumes "good e" "room (length xs + n) e" "list_all ok xs"
  shows "\<exists>e'. steps enc e xs = Some e' \<and> good e' \<and> room n e'"
  using assms
proof (induction xs arbitrary: e)
  case Nil
  then show ?case by simp
next
  case (Cons x xs)
  then obtain e1 where "enc e x = Some e1" "good e1" "room (length xs + n) e1"
    using enc_total [of e "length xs + n" x] by auto
  with Cons show ?case by simp
qed

lemma enc_run_total:
  "good e \<Longrightarrow> room (length xs) e \<Longrightarrow> list_all ok xs \<Longrightarrow>
     \<exists>e'. steps enc e xs = Some e' \<and> good e' \<and> room 0 e'"
  using enc_run_room [of e xs 0] by simp

lemma enc_run_contains:
  assumes "good e" "room (length xs) e" "list_all ok xs" "steps enc e xs = Some e'"
    and "contains B e'"
  shows "contains B e"
  using assms
proof (induction xs arbitrary: e)
  case Nil
  then show ?case by simp
next
  case (Cons x xs)
  then obtain e1 where e1: "enc e x = Some e1" "good e1" "room (length xs) e1"
    using enc_total [of e "length xs" x] by auto
  with Cons have "contains B e1" by simp
  moreover have "room 1 e" using Cons.prems(2) room_le by force
  ultimately show ?case using enc_nested [of e x e1] e1 Cons.prems by auto
qed

text \<open>The decoder retraces a whole run.\<close>

lemma dec_run_follows:
  assumes "good e" "room (length xs) e" "list_all ok xs" "steps enc e xs = Some e'"
    and "contains B e'" "sync B e d"
  shows "\<exists>d'. steps dec d xs = Some d' \<and> sync B e' d'"
  using assms
proof (induction xs arbitrary: e d)
  case Nil
  then show ?case by simp
next
  case (Cons x xs)
  then obtain e1 where e1: "enc e x = Some e1" "good e1" "room (length xs) e1"
    using enc_total [of e "length xs" x] by auto
  have run: "steps enc e1 xs = Some e'" and ok: "list_all ok xs" "ok x"
    using Cons.prems e1 by auto
  have "contains B e1"
    using enc_run_contains [OF e1(2,3) ok(1) run Cons.prems(5)] .
  moreover have "room 1 e" using Cons.prems(2) room_le by force
  ultimately obtain d1 where "dec d x = Some d1" "sync B e1 d1"
    using dec_follows [of e x e1 B d] e1 ok Cons.prems by auto
  with Cons.IH [OF e1(2,3) ok(1) run Cons.prems(5)] show ?case by auto
qed

lemma run_roundtrip:
  assumes "good e" "room (length xs) e" "list_all ok xs"
    and "\<And>B. contains B e \<Longrightarrow> sync B e (init B)"
  shows "\<exists>e' d'. steps enc e xs = Some e' \<and>
    steps dec (init (flush e')) xs = Some d' \<and> sync (flush e') e' d'"
proof -
  obtain e' where e': "steps enc e xs = Some e'" "good e'" "room 0 e'"
    using enc_run_total assms by blast
  have c: "contains (flush e') e'" by (rule flush_contains) (use e' in auto)
  then have "contains (flush e') e"
    using enc_run_contains assms e' by blast
  with dec_run_follows [OF assms(1-3) e'(1) c] assms(4) e' show ?thesis by blast
qed

end

end
