(* ===== verification/Ppmd_Codec.thy ===== *)
theory Ppmd_Codec
  imports Ppmd_Base Range_Coder
begin

text \<open>
  What the four coding files \<^verbatim>\<open>Ppmd7Enc.c\<close>, \<^verbatim>\<open>Ppmd7Dec.c\<close>, \<^verbatim>\<open>Ppmd8Enc.c\<close> and \<^verbatim>\<open>Ppmd8Dec.c\<close>
  share: the loops over the states of a context, with and without the mask of symbols already
  excluded, and the facts that make the decoder's loops find what the encoder's loops coded.
  The locale \<open>symbol_codec\<close> is the contract of a symbol encoder and decoder on top of a
  \<open>range_coder\<close>; messages are proved to come back once, inside it.
\<close>

section \<open>The loops of the encoders\<close>

text \<open>\<^verbatim>\<open>do { if ((++s)->Symbol == symbol) ...; sum += s->Freq; } while (--i)\<close>: \<open>Inl (s, sum)\<close> if the
  symbol is found, \<open>Inr (s, sum)\<close> after the last state.\<close>

primrec Scan_enc ::
    "nat \<Rightarrow> arena \<Rightarrow> nat \<Rightarrow> UInt32 \<Rightarrow> int \<Rightarrow> nat \<times> UInt32 + nat \<times> UInt32" where
  "Scan_enc 0 m s sm ch = Inr (s, sm)"
| "Scan_enc (Suc i) m s sm ch =
     (let s = s + 6
      in if int (unat (sSymbol m s)) = ch then Inl (s, sm)
         else Scan_enc i m s (sm + ucast (sFreq m s)) ch)"

text \<open>\<^verbatim>\<open>charMask\<close>: 0xFF for a symbol that is not masked, 0 for a masked one.  \<open>Mask_down n m s\<close>
  masks \<open>n\<close> states, from \<open>s\<close> downwards.\<close>

definition PPMD_SetAllBitsIn256Bytes :: "Byte \<Rightarrow> Byte" where
  "PPMD_SetAllBitsIn256Bytes = (\<lambda>z. 0xFF)"

primrec Mask_down :: "nat \<Rightarrow> arena \<Rightarrow> nat \<Rightarrow> (Byte \<Rightarrow> Byte) \<Rightarrow> (Byte \<Rightarrow> Byte)" where
  "Mask_down 0 m s charMask = charMask"
| "Mask_down (Suc i) m s charMask = Mask_down i m (s - 6) (charMask(sSymbol m s := 0))"

text \<open>\<^verbatim>\<open>s->Freq & MASK(s->Symbol)\<close>.\<close>

definition masked_freq :: "arena \<Rightarrow> (Byte \<Rightarrow> Byte) \<Rightarrow> nat \<Rightarrow> UInt32" where
  "masked_freq m charMask s = ucast (sFreq m s AND charMask (sSymbol m s))"

text \<open>\<^verbatim>\<open>do { sum += (s->Freq & MASK(s->Symbol)); s++; } while (--i)\<close>.\<close>

primrec Masked_rest :: "nat \<Rightarrow> arena \<Rightarrow> (Byte \<Rightarrow> Byte) \<Rightarrow> nat \<Rightarrow> UInt32 \<Rightarrow> UInt32" where
  "Masked_rest 0 m charMask s sm = sm"
| "Masked_rest (Suc i) m charMask s sm =
     Masked_rest i m charMask (s + 6) (sm + masked_freq m charMask s)"

text \<open>The loop after an escape: \<open>Inl (s1, low, sum)\<close> if the symbol is found, with the sum over
  all states; \<open>Inr (sum, charMask)\<close> otherwise.\<close>

primrec Masked_enc ::
    "nat \<Rightarrow> arena \<Rightarrow> nat \<Rightarrow> UInt32 \<Rightarrow> (Byte \<Rightarrow> Byte) \<Rightarrow> int \<Rightarrow>
     nat \<times> UInt32 \<times> UInt32 + UInt32 \<times> (Byte \<Rightarrow> Byte)" where
  "Masked_enc 0 m s sm charMask ch = Inr (sm, charMask)"
| "Masked_enc (Suc i) m s sm charMask ch =
     (let cur = sSymbol m s
      in if int (unat cur) = ch then Inl (s, sm, Masked_rest (Suc i) m charMask s sm)
         else Masked_enc i m (s + 6) (sm + masked_freq m charMask s) (charMask(cur := 0)) ch)"

section \<open>The loops of the decoders\<close>

text \<open>\<^verbatim>\<open>do { if ((hiCnt += (++s)->Freq) > count) ... } while (--i)\<close>.\<close>

primrec Scan_dec ::
    "nat \<Rightarrow> arena \<Rightarrow> nat \<Rightarrow> UInt32 \<Rightarrow> UInt32 \<Rightarrow> nat \<times> UInt32 + nat \<times> UInt32" where
  "Scan_dec 0 m s hiCnt count = Inr (s, hiCnt)"
| "Scan_dec (Suc i) m s hiCnt count =
     (let s = s + 6; hiCnt = hiCnt + ucast (sFreq m s)
      in if count < hiCnt then Inl (s, hiCnt) else Scan_dec i m s hiCnt count)"

text \<open>\<^verbatim>\<open>do { k = MASK(s->Symbol); hiCnt += (s->Freq & k); ps[i] = s++; i -= k; } while (i != num)\<close>:
  \<open>ps\<close> is the list of the states that are not masked; a masked one is overwritten by the next.
  \<open>None\<close>: the loop leaves the allocation or \<open>ps\<close>.\<close>

function Collect_dec ::
    "arena \<Rightarrow> nat \<Rightarrow> nat \<Rightarrow> (Byte \<Rightarrow> Byte) \<Rightarrow> nat \<Rightarrow> nat list \<Rightarrow> UInt32 \<Rightarrow> (nat list \<times> UInt32) option"
  where
  "Collect_dec m lim num charMask s ps hiCnt =
     (if lim < s + 6 \<or> 256 \<le> length ps then None
      else let hiCnt = hiCnt + masked_freq m charMask s;
               ps = (if charMask (sSymbol m s) = 0 then ps else ps @ [s])
           in if length ps = num then Some (ps, hiCnt)
              else Collect_dec m lim num charMask (s + 6) ps hiCnt)"
  by pat_completeness auto
termination
  by (relation "measure (\<lambda>(m, lim, num, charMask, s, ps, hiCnt). lim - s)") auto

declare Collect_dec.simps [simp del]

text \<open>\<^verbatim>\<open>for (hiCnt = 0; (hiCnt += (*pps)->Freq) <= count; pps++);\<close>.\<close>

primrec Pick_dec :: "arena \<Rightarrow> nat list \<Rightarrow> UInt32 \<Rightarrow> UInt32 \<Rightarrow> (nat \<times> UInt32) option" where
  "Pick_dec m [] hiCnt count = None"
| "Pick_dec m (s # ps) hiCnt count =
     (let hiCnt = hiCnt + ucast (sFreq m s)
      in if hiCnt \<le> count then Pick_dec m ps hiCnt count else Some (s, hiCnt))"

text \<open>\<^verbatim>\<open>do { MASK(ps[--i]->Symbol) = 0; } while (i != 0)\<close>.\<close>

definition Mask_list :: "arena \<Rightarrow> nat list \<Rightarrow> (Byte \<Rightarrow> Byte) \<Rightarrow> (Byte \<Rightarrow> Byte)" where
  "Mask_list m ps charMask = fold (\<lambda>s cm. cm(sSymbol m s := 0)) (rev ps) charMask"

section \<open>States and masks as lists and sets\<close>

primrec states :: "nat \<Rightarrow> nat \<Rightarrow> nat list" where
  "states s 0 = []"
| "states s (Suc n) = s # states (s + 6) n"

definition symbols :: "arena \<Rightarrow> nat \<Rightarrow> nat \<Rightarrow> Byte list" where
  "symbols m s n = map (sSymbol m) (states s n)"

definition fsum :: "arena \<Rightarrow> nat list \<Rightarrow> nat" where
  "fsum m ps = sum_list (map (\<lambda>s. unat (sFreq m s)) ps)"

definition mask_of :: "Byte set \<Rightarrow> Byte \<Rightarrow> Byte" where
  "mask_of S = (\<lambda>x. if x \<in> S then 0 else 0xFF)"

definition unmasked :: "arena \<Rightarrow> Byte set \<Rightarrow> nat \<Rightarrow> nat \<Rightarrow> nat list" where
  "unmasked m S s n = filter (\<lambda>s. sSymbol m s \<notin> S) (states s n)"

lemma states_length [simp]: "length (states s n) = n"
  by (induction n arbitrary: s) auto

lemma states_snoc: "states s (Suc n) = states s n @ [s + 6 * n]"
proof (induction n arbitrary: s)
  case (Suc n)
  have "states s (Suc (Suc n)) = s # states (s + 6) (Suc n)" by simp
  also have "\<dots> = s # states (s + 6) n @ [s + 6 + 6 * n]" by (simp only: Suc.IH)
  finally show ?case by (simp add: ac_simps)
qed simp

lemma states_eq_map: "states s n = map (\<lambda>i. s + 6 * i) [0..<n]"
proof (induction n)
  case (Suc n)
  then show ?case unfolding states_snoc by simp
qed simp

lemma fresh_states_symbols: "symbols (fresh_states m s) s 256 = map word_of_nat [0..<256]"
  unfolding symbols_def states_eq_map map_map
  by (rule map_cong) (simp_all add: fresh_states_fields)

lemma symbols_simps [simp]:
  "symbols m s 0 = []" "symbols m s (Suc n) = sSymbol m s # symbols m (s + 6) n"
  by (simp_all add: symbols_def)

lemma fsum_simps [simp]:
  "fsum m [] = 0" "fsum m (s # ps) = unat (sFreq m s) + fsum m ps"
  "fsum m (ps @ qs) = fsum m ps + fsum m qs"
  by (simp_all add: fsum_def)

lemma fresh_states_fsum: "fsum (fresh_states m s) (states s 256) = 256"
proof -
  have "map (\<lambda>x. unat (sFreq (fresh_states m s) x)) (states s 256) = map (\<lambda>i. 1) [0..<256]"
    unfolding states_eq_map map_map by (rule map_cong) (simp_all add: fresh_states_fields)
  then show ?thesis by (simp add: fsum_def map_replicate_const sum_list_replicate)
qed

lemma distinct_fresh_symbols: "distinct (map word_of_nat [0..<256] :: Byte list)"
proof -
  have "inj_on (word_of_nat :: nat \<Rightarrow> Byte) {0..<256}"
  proof (rule inj_onI)
    fix x y :: nat assume b: "x \<in> {0..<256}" "y \<in> {0..<256}"
    assume eq: "word_of_nat x = (word_of_nat y :: Byte)"
    from b have "unat (word_of_nat x :: Byte) = x" "unat (word_of_nat y :: Byte) = y"
      by (simp_all add: unat_of_nat)
    then show "x = y" using eq by metis
  qed
  then show ?thesis by (simp add: distinct_map)
qed

lemma fsum_le: "fsum m ps \<le> 255 * length ps"
proof (induction ps)
  case (Cons s ps)
  have "unat (sFreq m s) < 256" by (rule unat_lt8)
  with Cons show ?case by simp
qed simp

lemma unmasked_simps [simp]:
  "unmasked m S s 0 = []"
  "unmasked m S s (Suc n) =
     (if sSymbol m s \<in> S then unmasked m S (s + 6) n else s # unmasked m S (s + 6) n)"
  by (simp_all add: unmasked_def)

lemma unmasked_length: "length (unmasked m S s n) \<le> n"
  using length_filter_le [of _ "states s n"] by (simp add: unmasked_def)

lemma unmasked_cong:
  "set (symbols m s n) \<inter> S = set (symbols m s n) \<inter> S' \<Longrightarrow> unmasked m S s n = unmasked m S' s n"
  unfolding unmasked_def symbols_def by (rule filter_cong) auto

lemma unmasked_symbols:
  "S \<union> sSymbol m ` set (unmasked m S s n) = S \<union> set (symbols m s n)"
  by (auto simp: unmasked_def symbols_def)

text \<open>How many states are left when the masked symbols are all in the context.\<close>

lemma unmasked_count:
  assumes "distinct (symbols m s n)" "S \<subseteq> set (symbols m s n)" "finite S"
  shows "length (unmasked m S s n) = n - card S"
proof -
  let ?ms = "filter (\<lambda>s. sSymbol m s \<in> S) (states s n)"
  have d: "distinct (map (sSymbol m) ?ms)"
    using assms(1) by (simp add: symbols_def distinct_map_filter)
  have "sSymbol m ` set ?ms = S"
    using assms(2) by (auto simp: symbols_def)
  then have "set (map (sSymbol m) ?ms) = S" by simp
  then have "length ?ms = card S" using distinct_card [OF d] by simp
  moreover have "length ?ms + length (unmasked m S s n) = n"
    using sum_length_filter_compl [of "\<lambda>s. sSymbol m s \<in> S" "states s n"]
    by (simp add: unmasked_def)
  ultimately show ?thesis by simp
qed

lemma mask_of_empty: "PPMD_SetAllBitsIn256Bytes = mask_of {}"
  by (simp add: PPMD_SetAllBitsIn256Bytes_def mask_of_def)

lemma mask_of_upd [simp]: "(mask_of S)(x := 0) = mask_of (insert x S)"
  by (auto simp: mask_of_def)

lemma mask_of_zero [simp]: "mask_of S x = 0 \<longleftrightarrow> x \<in> S"
  by (simp add: mask_of_def)

lemma masked_freq_mask_of [simp]:
  "masked_freq m (mask_of S) s = (if sSymbol m s \<in> S then 0 else ucast (sFreq m s))"
proof -
  have "x AND 0xFF = x" for x :: Byte
  proof -
    have "(0xFF :: Byte) = - 1" by simp
    then show ?thesis by (simp only: and.right_neutral)
  qed
  then show ?thesis by (simp add: masked_freq_def mask_of_def)
qed

lemma unat_ucast_Byte [simp]: "unat (ucast (b :: Byte) :: UInt32) = unat b"
  by (rule unat_ucast_up) simp

lemma unat_add_Byte:
  fixes x :: UInt32 and b :: Byte
  shows "unat x + 255 < 2 ^ 32 \<Longrightarrow> unat (x + ucast b) = unat x + unat b"
  using unat_lt8 [of b] by (subst unat_add_le) auto

lemma Mask_down_mask_of:
  "Mask_down n m (s + 6 * (n - 1)) (mask_of S) = mask_of (S \<union> set (symbols m s n))"
proof (induction n arbitrary: S)
  case (Suc n)
  have "set (symbols m s (Suc n)) = insert (sSymbol m (s + 6 * n)) (set (symbols m s n))"
    unfolding symbols_def states_snoc by auto
  moreover have "Mask_down n m (s + 6 * n - 6) cm = Mask_down n m (s + 6 * (n - 1)) cm" for cm
    by (cases n) auto
  ultimately show ?case using Suc.IH by (simp del: symbols_simps)
qed simp

lemma Mask_list_mask_of:
  "Mask_list m ps (mask_of S) = mask_of (S \<union> sSymbol m ` set ps)"
proof -
  have "fold (\<lambda>s cm. cm(sSymbol m s := 0)) qs (mask_of S) = mask_of (S \<union> sSymbol m ` set qs)" for qs
    by (induction qs arbitrary: S) auto
  then show ?thesis by (simp add: Mask_list_def)
qed

section \<open>The decoder's loops find what the encoder's loops coded\<close>

lemma Scan_enc_Inl:
  assumes "Scan_enc i m s lo ch = Inl (s', lo')" "unat lo + 255 * i < 2 ^ 32"
  shows "int (unat (sSymbol m s')) = ch \<and> unat lo \<le> unat lo' \<and>
    unat lo' + unat (sFreq m s') \<le> unat lo + fsum m (states (s + 6) i) \<and>
    unat lo' + unat (sFreq m s') < 2 ^ 32 \<and>
    s' \<in> set (states (s + 6) i) \<and>
    (\<forall>count. unat lo' \<le> unat count \<and> unat count < unat lo' + unat (sFreq m s') \<longrightarrow>
       Scan_dec i m s lo count = Inl (s', lo' + ucast (sFreq m s')))"
  using assms
proof (induction i arbitrary: s lo)
  case (Suc i)
  let ?f = "unat (sFreq m (s + 6))"
  have f: "?f < 256" by (rule unat_lt8)
  have add: "unat (lo + ucast (sFreq m (s + 6))) = unat lo + ?f"
    using Suc.prems(2) by (intro unat_add_Byte) simp
  show ?case
  proof (cases "int (unat (sSymbol m (s + 6))) = ch")
    case True
    then have "s' = s + 6" "lo' = lo" using Suc.prems(1) by (simp_all add: Let_def)
    then show ?thesis using True Suc.prems(2) f add
      by (auto simp: Let_def word_less_nat_alt)
  next
    case False
    then have e: "Scan_enc i m (s + 6) (lo + ucast (sFreq m (s + 6))) ch = Inl (s', lo')"
      using Suc.prems(1) by (simp add: Let_def)
    have b: "unat (lo + ucast (sFreq m (s + 6))) + 255 * i < 2 ^ 32"
      using Suc.prems(2) f add by simp
    note IH = Suc.IH [OF e b]
    show ?thesis using IH add by (auto simp: Let_def word_less_nat_alt)
  qed
qed simp

lemma Scan_enc_Inr:
  assumes "Scan_enc i m s lo ch = Inr (s', tot)" "unat lo + 255 * i < 2 ^ 32"
  shows "s' = s + 6 * i \<and> unat tot = unat lo + fsum m (states (s + 6) i) \<and>
    (\<forall>x \<in> set (symbols m (s + 6) i). int (unat x) \<noteq> ch) \<and>
    (\<forall>count. unat tot \<le> unat count \<longrightarrow> Scan_dec i m s lo count = Inr (s', tot))"
  using assms
proof (induction i arbitrary: s lo)
  case (Suc i)
  let ?f = "unat (sFreq m (s + 6))"
  have f: "?f < 256" by (rule unat_lt8)
  have add: "unat (lo + ucast (sFreq m (s + 6))) = unat lo + ?f"
    using Suc.prems(2) by (intro unat_add_Byte) simp
  have ne: "int (unat (sSymbol m (s + 6))) \<noteq> ch"
    and e: "Scan_enc i m (s + 6) (lo + ucast (sFreq m (s + 6))) ch = Inr (s', tot)"
    using Suc.prems(1) by (auto simp: Let_def split: if_splits)
  have b: "unat (lo + ucast (sFreq m (s + 6))) + 255 * i < 2 ^ 32"
    using Suc.prems(2) f add by simp
  note IH = Suc.IH [OF e b]
  then have "unat lo + ?f \<le> unat tot" using add by simp
  then show ?case using IH add ne by (auto simp: Let_def word_less_nat_alt)
qed simp

lemma Masked_rest_eq:
  assumes "unat lo + 255 * n < 2 ^ 32"
  shows "unat (Masked_rest n m (mask_of S) s lo) = unat lo + fsum m (unmasked m S s n)"
  using assms
proof (induction n arbitrary: s lo)
  case (Suc n)
  have f: "unat (sFreq m s) < 256" by (rule unat_lt8)
  have "unat (lo + ucast (sFreq m s)) = unat lo + unat (sFreq m s)"
    using Suc.prems by (intro unat_add_Byte) simp
  then show ?case using Suc.prems f
    by (auto simp: Suc.IH)
qed simp

lemma Masked_enc_Inl:
  assumes "Masked_enc n m s lo (mask_of S) ch = Inl (s1, low, tot)" "unat lo + 255 * n < 2 ^ 32"
    and "distinct (symbols m s n)" "\<forall>x \<in> S. int (unat x) \<noteq> ch"
  shows "int (unat (sSymbol m s1)) = ch \<and> (\<exists>pre post. unmasked m S s n = pre @ s1 # post \<and>
    unat low = unat lo + fsum m pre \<and> unat tot = unat lo + fsum m (unmasked m S s n))"
  using assms
proof (induction n arbitrary: s lo S)
  case (Suc n)
  have f: "unat (sFreq m s) < 256" by (rule unat_lt8)
  have add: "unat (lo + ucast (sFreq m s)) = unat lo + unat (sFreq m s)"
    using Suc.prems by (intro unat_add_Byte) simp
  show ?case
  proof (cases "int (unat (sSymbol m s)) = ch")
    case True
    then have eq: "s1 = s" "low = lo" "tot = Masked_rest (Suc n) m (mask_of S) s lo"
      using Suc.prems(1) by (auto simp: Let_def simp del: Masked_rest.simps)
    have out: "sSymbol m s \<notin> S" using True Suc.prems(4) by auto
    have "unmasked m S s (Suc n) = [] @ s # unmasked m S (s + 6) n" using out by simp
    moreover have "unat tot = unat lo + fsum m (unmasked m S s (Suc n))"
      unfolding eq by (rule Masked_rest_eq [OF Suc.prems(2)])
    ultimately show ?thesis using True eq by (metis add_0_right fsum_simps(1))
  next
    case False
    let ?lo = "lo + masked_freq m (mask_of S) s" and ?S = "insert (sSymbol m s) S"
    have e: "Masked_enc n m (s + 6) ?lo (mask_of ?S) ch = Inl (s1, low, tot)"
      using Suc.prems(1) False by (simp add: Let_def)
    have b: "unat ?lo + 255 * n < 2 ^ 32" using Suc.prems(2) f add by auto
    have same: "unmasked m ?S (s + 6) n = unmasked m S (s + 6) n"
      by (rule unmasked_cong) (use Suc.prems(3) in auto)
    have "distinct (symbols m (s + 6) n)" "\<forall>x \<in> ?S. int (unat x) \<noteq> ch"
      using Suc.prems False by auto
    from Suc.IH [OF e b this] obtain pre post where IH: "int (unat (sSymbol m s1)) = ch"
      "unmasked m S (s + 6) n = pre @ s1 # post" "unat low = unat ?lo + fsum m pre"
      "unat tot = unat ?lo + fsum m (unmasked m S (s + 6) n)"
      unfolding same by blast
    show ?thesis
    proof (cases "sSymbol m s \<in> S")
      case True
      then have "unmasked m S s (Suc n) = pre @ s1 # post" using IH by simp
      then show ?thesis using IH True by auto
    next
      case out: False
      then have "unmasked m S s (Suc n) = (s # pre) @ s1 # post" using IH by simp
      moreover have "unat low = unat lo + fsum m (s # pre)" using IH out add by simp
      moreover have "unat tot = unat lo + fsum m (unmasked m S s (Suc n))"
        using IH out add by simp
      ultimately show ?thesis using IH(1) by blast
    qed
  qed
qed simp

lemma Masked_enc_Inr:
  assumes "Masked_enc n m s lo (mask_of S) ch = Inr (tot, cm)" "unat lo + 255 * n < 2 ^ 32"
    and "distinct (symbols m s n)"
  shows "unat tot = unat lo + fsum m (unmasked m S s n) \<and>
    cm = mask_of (S \<union> set (symbols m s n)) \<and> (\<forall>x \<in> set (symbols m s n). int (unat x) \<noteq> ch)"
  using assms
proof (induction n arbitrary: s lo S)
  case (Suc n)
  have f: "unat (sFreq m s) < 256" by (rule unat_lt8)
  have add: "unat (lo + ucast (sFreq m s)) = unat lo + unat (sFreq m s)"
    using Suc.prems by (intro unat_add_Byte) simp
  let ?lo = "lo + masked_freq m (mask_of S) s" and ?S = "insert (sSymbol m s) S"
  have ne: "int (unat (sSymbol m s)) \<noteq> ch"
    and e: "Masked_enc n m (s + 6) ?lo (mask_of ?S) ch = Inr (tot, cm)"
    using Suc.prems(1) by (auto simp: Let_def split: if_splits)
  have b: "unat ?lo + 255 * n < 2 ^ 32" using Suc.prems(2) f add by auto
  have same: "unmasked m ?S (s + 6) n = unmasked m S (s + 6) n"
    by (rule unmasked_cong) (use Suc.prems(3) in auto)
  have "distinct (symbols m (s + 6) n)" using Suc.prems(3) by simp
  from Suc.IH [OF e b this] show ?case
    unfolding same using ne add by (cases "sSymbol m s \<in> S") auto
qed simp

lemma Collect_dec_eq:
  assumes "length ps + length (unmasked m S s n) = num" "unmasked m S s n \<noteq> []"
    and "s + 6 * n \<le> lim" "num \<le> 256" "unat hi + 255 * n < 2 ^ 32"
  shows "\<exists>hi'. Collect_dec m lim num (mask_of S) s ps hi = Some (ps @ unmasked m S s n, hi') \<and>
    unat hi' = unat hi + fsum m (unmasked m S s n)"
  using assms
proof (induction n arbitrary: s ps hi)
  case (Suc n)
  have f: "unat (sFreq m s) < 256" by (rule unat_lt8)
  have add: "unat (hi + ucast (sFreq m s)) = unat hi + unat (sFreq m s)"
    using Suc.prems by (intro unat_add_Byte) simp
  have lt: "length ps < 256" using Suc.prems(1,2,4) by (cases "unmasked m S s (Suc n)") auto
  show ?case
  proof (cases "sSymbol m s \<in> S")
    case True
    have "length ps \<noteq> num" using Suc.prems(1,2) True by (auto simp: length_0_conv)
    then show ?thesis
      using True Suc.prems lt Suc.IH [of ps "s + 6" hi]
      by (subst Collect_dec.simps) (auto simp: Let_def)
  next
    case out: False
    let ?hi = "hi + ucast (sFreq m s)"
    have step: "Collect_dec m lim num (mask_of S) s ps hi =
      (if Suc (length ps) = num then Some (ps @ [s], ?hi)
       else Collect_dec m lim num (mask_of S) (s + 6) (ps @ [s]) ?hi)"
      using out Suc.prems lt by (subst Collect_dec.simps) (simp add: Let_def)
    show ?thesis
    proof (cases "Suc (length ps) = num")
      case True
      then have "length (unmasked m S (s + 6) n) = 0" using Suc.prems(1) out by auto
      then have "unmasked m S (s + 6) n = []" by (simp only: length_0_conv)
      then show ?thesis using step True out add by simp
    next
      case False
      then have ne: "unmasked m S (s + 6) n \<noteq> []" using Suc.prems(1) out by auto
      show ?thesis
        using Suc.IH [of "ps @ [s]" "s + 6" ?hi] ne step False out add f Suc.prems by auto
    qed
  qed
qed simp

lemma Pick_dec_eq:
  assumes "ps = pre @ s1 # post" "unat hi + fsum m ps < 2 ^ 32"
    and "unat hi + fsum m pre \<le> unat count"
    and "unat count < unat hi + fsum m pre + unat (sFreq m s1)"
  shows "\<exists>hi'. Pick_dec m ps hi count = Some (s1, hi') \<and>
    unat hi' = unat hi + fsum m pre + unat (sFreq m s1)"
  using assms
proof (induction pre arbitrary: ps hi)
  case Nil
  then have "unat (hi + ucast (sFreq m s1)) = unat hi + unat (sFreq m s1)"
    by (subst unat_add_le) simp_all
  with Nil show ?case by (simp add: Let_def word_le_nat_alt)
next
  case (Cons s pre)
  then have add: "unat (hi + ucast (sFreq m s)) = unat hi + unat (sFreq m s)"
    by (subst unat_add_le) simp_all
  with Cons.prems Cons.IH [OF refl, of "hi + ucast (sFreq m s)"] show ?case
    by (simp add: Let_def word_le_nat_alt add.assoc)
qed

text \<open>The two outcomes of the loop after an escape, as the decoder sees them.\<close>

lemma Collect_dec_unmasked:
  assumes "distinct (symbols m s n)" "s + 6 * n \<le> lim" "n \<le> 256"
    and "S \<subseteq> set (symbols m s n)" "card S < n"
  shows "unmasked m S s n \<noteq> [] \<and> (\<exists>hi. unat hi = fsum m (unmasked m S s n) \<and>
    Collect_dec m lim (n - card S) (mask_of S) s [] 0 = Some (unmasked m S s n, hi))"
proof -
  have len: "length (unmasked m S s n) = n - card S"
    by (rule unmasked_count [OF assms(1,4)]) simp
  with assms(5) have ne: "unmasked m S s n \<noteq> []" by auto
  have "length [] + length (unmasked m S s n) = n - card S" "n - card S \<le> 256"
    "unat (0 :: UInt32) + 255 * n < 2 ^ 32"
    using len assms(3) by simp_all
  from Collect_dec_eq [OF this(1) ne assms(2) this(2,3)] ne show ?thesis by auto
qed

lemma Masked_found:
  assumes "distinct (symbols m s n)" "s + 6 * n \<le> lim" "n \<le> 256"
    and "S \<subseteq> set (symbols m s n)" "card S < n"
    and "Masked_enc n m s 0 (mask_of S) ch = Inl (s1, low, tot)" "\<forall>x \<in> S. int (unat x) \<noteq> ch"
  shows "int (unat (sSymbol m s1)) = ch \<and> s1 \<in> set (states s n) \<and>
    unat low + unat (sFreq m s1) \<le> unat tot \<and> unat tot = fsum m (unmasked m S s n) \<and>
    Collect_dec m lim (n - card S) (mask_of S) s [] 0 = Some (unmasked m S s n, tot) \<and>
    (\<forall>count. unat low \<le> unat count \<and> unat count < unat low + unat (sFreq m s1) \<longrightarrow>
       (\<exists>hi2. Pick_dec m (unmasked m S s n) 0 count = Some (s1, hi2) \<and>
          hi2 - ucast (sFreq m s1) = low))"
proof -
  let ?um = "unmasked m S s n"
  have b: "unat (0 :: UInt32) + 255 * n < 2 ^ 32" using assms(3) by simp
  obtain pre post where sym: "int (unat (sSymbol m s1)) = ch" and um: "?um = pre @ s1 # post"
    and low: "unat low = fsum m pre" and tot: "unat tot = fsum m ?um"
    using Masked_enc_Inl [OF assms(6) b assms(1,7)] by auto
  have "s1 \<in> set ?um" unfolding um by simp
  then have s1: "s1 \<in> set (states s n)" by (simp add: unmasked_def)
  obtain hi where "unat hi = fsum m ?um"
    "Collect_dec m lim (n - card S) (mask_of S) s [] 0 = Some (?um, hi)"
    using Collect_dec_unmasked [OF assms(1-5)] by blast
  then have col: "Collect_dec m lim (n - card S) (mask_of S) s [] 0 = Some (?um, tot)"
    using tot by (simp add: word_unat_eq_iff)
  have lt: "fsum m ?um < 2 ^ 32" using tot unat_lt32 [of tot] by simp
  have pick: "\<exists>hi2. Pick_dec m ?um 0 count = Some (s1, hi2) \<and> hi2 - ucast (sFreq m s1) = low"
    if count: "unat low \<le> unat count" "unat count < unat low + unat (sFreq m s1)"
    for count :: UInt32
  proof -
    have "unat (0 :: UInt32) + fsum m ?um < 2 ^ 32"
      "unat (0 :: UInt32) + fsum m pre \<le> unat count"
      "unat count < unat (0 :: UInt32) + fsum m pre + unat (sFreq m s1)"
      using lt count low by simp_all
    then obtain hi2 where "Pick_dec m ?um 0 count = Some (s1, hi2)"
      "unat hi2 = fsum m pre + unat (sFreq m s1)"
      using Pick_dec_eq [OF um, of 0 m count] by auto
    moreover from this(2) have "unat (hi2 - ucast (sFreq m s1)) = unat low"
      using low by (subst unat_sub_le) simp_all
    then have "hi2 - ucast (sFreq m s1) = low" by (rule word_unat_eq_iff [THEN iffD2])
    ultimately show ?thesis by blast
  qed
  have "unat low + unat (sFreq m s1) \<le> unat tot" using tot low um by simp
  with sym s1 tot col pick show ?thesis by blast
qed

lemma Masked_escaped:
  assumes "distinct (symbols m s n)" "s + 6 * n \<le> lim" "n \<le> 256"
    and "S \<subseteq> set (symbols m s n)" "card S < n"
    and "Masked_enc n m s 0 (mask_of S) ch = Inr (tot, cm)"
  shows "cm = mask_of (set (symbols m s n)) \<and> unat tot = fsum m (unmasked m S s n) \<and>
    Collect_dec m lim (n - card S) (mask_of S) s [] 0 = Some (unmasked m S s n, tot) \<and>
    unmasked m S s n \<noteq> [] \<and> Mask_list m (unmasked m S s n) (mask_of S) = cm \<and>
    (\<forall>x \<in> set (symbols m s n). int (unat x) \<noteq> ch)"
proof -
  let ?um = "unmasked m S s n"
  have b: "unat (0 :: UInt32) + 255 * n < 2 ^ 32" using assms(3) by simp
  have e: "unat tot = fsum m ?um" "cm = mask_of (set (symbols m s n))"
    "\<forall>x \<in> set (symbols m s n). int (unat x) \<noteq> ch"
    using Masked_enc_Inr [OF assms(6) b assms(1)] assms(4) by (auto simp: Un_absorb1)
  obtain hi where "?um \<noteq> []" "unat hi = fsum m ?um"
    "Collect_dec m lim (n - card S) (mask_of S) s [] 0 = Some (?um, hi)"
    using Collect_dec_unmasked [OF assms(1-5)] by blast
  moreover from this e(1) have "hi = tot" by (simp add: word_unat_eq_iff)
  moreover have "Mask_list m ?um (mask_of S) = cm"
    using assms(4) by (simp add: Mask_list_mask_of unmasked_symbols e(2) Un_absorb1)
  ultimately show ?thesis using e by simp
qed

section \<open>Shared facts of the symbol coders\<close>

lemma unat_ucast16 [simp]: "unat (ucast (x :: UInt16) :: UInt32) = unat x"
  by (rule unat_ucast_up) simp

lemma ucast16_eq [simp]: "(ucast (x :: UInt16) :: UInt32) = ucast y \<longleftrightarrow> x = y"
  by (metis unat_ucast16 word_unat_eq_iff)

lemma unat_add_bound: "unat (a + b) \<le> unat a + unat (b :: 'a::len word)"
  by (simp add: unat_word_ariths)

lemma put_see_fields [simp]:
  "mem (put_see p r v) = mem p" "MinContext (put_see p r v) = MinContext p"
  "Size (put_see p r v) = Size p" "AlignOffset (put_see p r v) = AlignOffset p"
  "Units2Indx (put_see p r v) = Units2Indx p" "Indx2Units (put_see p r v) = Indx2Units p"
  "NS2Indx (put_see p r v) = NS2Indx p" "NS2BSIndx (put_see p r v) = NS2BSIndx p"
  by (cases r; simp)+

text \<open>The operation that records the decisions of a symbol.\<close>

definition log_decision :: "decision list \<Rightarrow> decision \<Rightarrow> decision list option" where
  "log_decision ds d = Some (ds @ [d])"

lemma drop_shift3:
  fixes x :: UInt16
  assumes "3 \<le> sh"
  shows "unat (drop_bit sh x) < 2 ^ 13"
proof -
  have "(2 :: nat) ^ 3 \<le> 2 ^ sh" using assms by (intro power_increasing) simp_all
  then have "unat x div 2 ^ sh \<le> unat x div 2 ^ 3" by (rule div_le_mono2 [rotated]) simp
  moreover have "unat x < 2 ^ 16" using unat_lt16 [of x] by simp
  then have "unat x div 2 ^ 3 < 2 ^ 13" by simp
  ultimately show ?thesis by (simp add: unat_drop_bit_div)
qed

lemma card_Byte_UNIV: "card (UNIV :: Byte set) = 256"
  by (simp add: card_word)

lemma fsum_128:
  "\<forall>x \<in> set ps. unat (sFreq m x) \<le> 128 \<Longrightarrow> fsum m ps \<le> 128 * length ps"
  by (induction ps) auto

lemma unmasked_128:
  assumes "\<forall>x \<in> set (states s n). 0 < unat (sFreq m x) \<and> unat (sFreq m x) \<le> 128" "n \<le> 256"
  shows "fsum m (unmasked m S s n) \<le> 32768"
proof -
  have "fsum m (unmasked m S s n) \<le> 128 * length (unmasked m S s n)"
    using assms(1) by (intro fsum_128) (auto simp: unmasked_def)
  also have "\<dots> \<le> 128 * 256"
    using unmasked_length [of m S s n] assms(2) by (intro mult_le_mono) simp_all
  finally show ?thesis by simp
qed

lemma all_Bytes: "\<forall>x \<in> (UNIV :: Byte set). int (unat x) \<noteq> ch \<Longrightarrow> - 1 \<le> ch \<Longrightarrow> ch \<le> 255 \<Longrightarrow> ch = - 1"
proof (rule ccontr)
  assume a: "\<forall>x \<in> (UNIV :: Byte set). int (unat x) \<noteq> ch" "- 1 \<le> ch" "ch \<le> 255" "ch \<noteq> - 1"
  then have "int (unat (word_of_int ch :: Byte)) = ch"
    by (simp add: uint_word_of_int flip: uint_nat)
  then show False using a(1) by blast
qed

section \<open>Messages\<close>

text \<open>A message is coded symbol by symbol, the model's state passed on; \<open>tr\<close> gives the
  decisions of one symbol and the model's next state.\<close>

primrec run_encode :: "('m \<Rightarrow> 'e \<Rightarrow> int \<Rightarrow> ('e \<times> 'm) option) \<Rightarrow> 'm \<Rightarrow> 'e \<Rightarrow> int list \<Rightarrow> ('e \<times> 'm) option"
  where
  "run_encode f p e [] = Some (e, p)"
| "run_encode f p e (ch # chs) = do { (e, p) \<leftarrow> f p e ch; run_encode f p e chs }"

primrec run_decode :: "('m \<Rightarrow> 'd \<Rightarrow> (int \<times> 'd \<times> 'm) option) \<Rightarrow> nat \<Rightarrow> 'm \<Rightarrow> 'd \<Rightarrow> (int list \<times> 'd \<times> 'm) option"
  where
  "run_decode f 0 p d = Some ([], d, p)"
| "run_decode f (Suc n) p d = do { (ch, d, p) \<leftarrow> f p d; (chs, d, p) \<leftarrow> run_decode f n p d; Some (ch # chs, d, p) }"

primrec run_trace :: "('m \<Rightarrow> int \<Rightarrow> (decision list \<times> 'm) option) \<Rightarrow> 'm \<Rightarrow> int list \<Rightarrow> (decision list \<times> 'm) option"
  where
  "run_trace tr p [] = Some ([], p)"
| "run_trace tr p (ch # chs) = do { (ds, p) \<leftarrow> tr p ch; (ds', p) \<leftarrow> run_trace tr p chs; Some (ds @ ds', p) }"

text \<open>The model is in good order (\<open>wfm\<close>) before every symbol.\<close>

primrec run_wf :: "('m \<Rightarrow> int \<Rightarrow> (decision list \<times> 'm) option) \<Rightarrow> ('m \<Rightarrow> bool) \<Rightarrow> 'm \<Rightarrow> int list \<Rightarrow> bool"
  where
  "run_wf tr wfm p [] = True"
| "run_wf tr wfm p (ch # chs) \<longleftrightarrow> wfm p \<and> - 1 \<le> ch \<and> ch \<le> 255 \<and>
     (case tr p ch of None \<Rightarrow> False | Some (ds, p') \<Rightarrow> run_wf tr wfm p' chs)"

lemma steps_append: "steps f s (xs @ ys) = Option.bind (steps f s xs) (\<lambda>s. steps f s ys)"
proof (induction xs arbitrary: s)
  case (Cons x xs)
  then show ?case by (cases "f s x") auto
qed simp

text \<open>
  \<open>tr\<close> is the trace of one symbol, \<open>encode\<close> and \<open>decode\<close> the code's operations: the encoder
  passes the trace to the range coder, its decisions are acceptable to the coder, and the
  decoder gets the symbol back from them.
\<close>

locale symbol_codec = range_coder enc dec good ok room contains sync flush
  for enc :: "'e \<Rightarrow> decision \<Rightarrow> 'e option"
    and dec :: "'d \<Rightarrow> decision \<Rightarrow> 'd option"
    and good :: "'e \<Rightarrow> bool"
    and ok :: "decision \<Rightarrow> bool"
    and room :: "nat \<Rightarrow> 'e \<Rightarrow> bool"
    and contains :: "Byte list \<Rightarrow> 'e \<Rightarrow> bool"
    and sync :: "Byte list \<Rightarrow> 'e \<Rightarrow> 'd \<Rightarrow> bool"
    and flush :: "'e \<Rightarrow> Byte list" +
  fixes tr :: "'m \<Rightarrow> int \<Rightarrow> (decision list \<times> 'm) option"
    and encode :: "'m \<Rightarrow> 'e \<Rightarrow> int \<Rightarrow> ('e \<times> 'm) option"
    and decode :: "'m \<Rightarrow> 'd \<Rightarrow> (int \<times> 'd \<times> 'm) option"
    and wfm :: "'m \<Rightarrow> bool"
  assumes encode_trace: "tr p ch = Some (ds, p') \<Longrightarrow>
      encode p e ch = map_option (\<lambda>e'. (e', p')) (steps enc e ds)"
    and trace_ok: "wfm p \<Longrightarrow> - 1 \<le> ch \<Longrightarrow> ch \<le> 255 \<Longrightarrow> tr p ch = Some (ds, p') \<Longrightarrow> list_all ok ds"
    and decode_trace: "wfm p \<Longrightarrow> - 1 \<le> ch \<Longrightarrow> ch \<le> 255 \<Longrightarrow> tr p ch = Some (ds, p') \<Longrightarrow>
      steps dec d ds = Some d' \<Longrightarrow> decode p d = Some (ch, d', p')"
begin

lemma run_encode_trace:
  "run_trace tr p chs = Some (ds, p') \<Longrightarrow>
     run_encode encode p e chs = map_option (\<lambda>e'. (e', p')) (steps enc e ds)"
proof (induction chs arbitrary: p e ds)
  case (Cons ch chs)
  then obtain ds1 p1 ds2 where 1: "tr p ch = Some (ds1, p1)"
    and 2: "run_trace tr p1 chs = Some (ds2, p')" and ds: "ds = ds1 @ ds2"
    by (auto split: bind_splits)
  show ?case
    using encode_trace [OF 1, of e] Cons.IH [OF 2] ds
    by (cases "steps enc e ds1") (auto simp: steps_append)
qed simp

lemma run_trace_ok:
  "run_trace tr p chs = Some (ds, p') \<Longrightarrow> run_wf tr wfm p chs \<Longrightarrow> list_all ok ds"
proof (induction chs arbitrary: p ds)
  case (Cons ch chs)
  then obtain ds1 p1 ds2 where 1: "tr p ch = Some (ds1, p1)"
    and 2: "run_trace tr p1 chs = Some (ds2, p')" and ds: "ds = ds1 @ ds2"
    by (auto split: bind_splits)
  with Cons.prems(2) have "wfm p" "- 1 \<le> ch" "ch \<le> 255" "run_wf tr wfm p1 chs" by auto
  then show ?case using trace_ok [OF _ _ _ 1] Cons.IH [OF 2] ds by simp
qed simp

lemma run_decode_trace:
  "run_trace tr p chs = Some (ds, p') \<Longrightarrow> run_wf tr wfm p chs \<Longrightarrow> steps dec d ds = Some d' \<Longrightarrow>
     run_decode decode (length chs) p d = Some (chs, d', p')"
proof (induction chs arbitrary: p ds d)
  case (Cons ch chs)
  then obtain ds1 p1 ds2 where 1: "tr p ch = Some (ds1, p1)"
    and 2: "run_trace tr p1 chs = Some (ds2, p')" and ds: "ds = ds1 @ ds2"
    by (auto split: bind_splits)
  with Cons.prems(2) have wfm: "wfm p" "- 1 \<le> ch" "ch \<le> 255" "run_wf tr wfm p1 chs" by auto
  from Cons.prems(3) ds obtain d1 where d1: "steps dec d ds1 = Some d1" "steps dec d1 ds2 = Some d'"
    by (auto simp: steps_append split: bind_splits)
  show ?case
    using decode_trace [OF wfm(1-3) 1 d1(1)] Cons.IH [OF 2 wfm(4) d1(2)] by simp
qed simp

lemma message_roundtrip:
  assumes "run_trace tr p chs = Some (ds, p')" "run_wf tr wfm p chs"
    and "good e" "room (length ds) e" "\<And>B. contains B e \<Longrightarrow> sync B e (init B)"
  shows "\<exists>e' d'. run_encode encode p e chs = Some (e', p') \<and> good e' \<and> room 0 e' \<and>
    run_decode decode (length chs) p (init (flush e')) = Some (chs, d', p') \<and>
    sync (flush e') e' d' \<and> contains (flush e') e"
proof -
  have ok: "list_all ok ds" by (rule run_trace_ok [OF assms(1,2)])
  obtain e' where e': "steps enc e ds = Some e'" "good e'" "room 0 e'"
    using enc_run_total [OF assms(3,4) ok] by blast
  have c: "contains (flush e') e'" by (rule flush_contains [OF e'(2,3)])
  then have ce: "contains (flush e') e" by (rule enc_run_contains [OF assms(3,4) ok e'(1)])
  obtain d' where d': "steps dec (init (flush e')) ds = Some d'" "sync (flush e') e' d'"
    using dec_run_follows [OF assms(3,4) ok e'(1) c assms(5) [OF ce]] by blast
  show ?thesis
    using run_encode_trace [OF assms(1), of e] run_decode_trace [OF assms(1,2) d'(1)] e' d'(2) ce
    by auto
qed

end

end
