(* ===== verification/Ppmd7_Range.thy ===== *)
theory Ppmd7_Range
  imports Range_Coder
begin

text \<open>
  The range coder of 7z: \<^verbatim>\<open>src/lib/ppmd/Ppmd7Enc.c\<close> (encoder, with a carry that can run
  through a byte held back in \<open>Cache\<close> and \<open>CacheSize - 1\<close> bytes \<open>0xFF\<close> behind it) and
  \<^verbatim>\<open>src/lib/ppmd/Ppmd7Dec.c\<close> (decoder).  The streams are byte lists.  Divisions by zero and
  the normalisation loop that cannot end for \<open>Range = 0\<close> are \<open>None\<close>.

  The encoder's interval is \<open>[enc7_T, enc7_T + Range)\<close>, where \<open>enc7_T\<close> is the number formed
  by the bytes written, the cache, the pending \<open>0xFF\<close>s and \<open>Low\<close>; a carry is a carry of
  this number, so a shift multiplies it by 256 exactly.
\<close>

section \<open>State and operations\<close>

definition kTopValue :: UInt32 where
  "kTopValue = push_bit 24 1"

record CPpmd7z_RangeEnc =
  eLow :: UInt64
  eRange :: UInt32
  eCache :: Byte
  eCacheSize :: UInt64
  eStream :: "Byte list"

definition Ppmd7z_RangeEnc_Init :: "CPpmd7z_RangeEnc \<Rightarrow> CPpmd7z_RangeEnc" where
  "Ppmd7z_RangeEnc_Init p = p\<lparr>eLow := 0, eRange := 0xFFFFFFFF, eCache := 0, eCacheSize := 1\<rparr>"

text \<open>The \<^verbatim>\<open>do ... while (--CacheSize != 0)\<close> of \<open>RangeEnc_ShiftLow\<close>.\<close>

function ShiftLow_write :: "Byte \<Rightarrow> Byte \<Rightarrow> UInt64 \<Rightarrow> Byte list \<Rightarrow> Byte list" where
  "ShiftLow_write temp carry cs out =
     (let out' = IByteOut_Write out (temp + carry); cs' = cs - 1
      in if cs' \<noteq> 0 then ShiftLow_write 0xFF carry cs' out' else out')"
  by pat_completeness auto
termination
proof (relation "measure (\<lambda>(temp, carry, cs, out). unat (cs - 1))")
  fix temp carry :: Byte and cs :: UInt64 and out out' :: "Byte list" and cs'
  assume "cs' = cs - 1" "cs' \<noteq> 0"
  then show "((0xFF, carry, cs', out'), (temp, carry, cs, out))
      \<in> measure (\<lambda>(temp, carry, cs, out). unat (cs - 1))"
    using measure_unat [of "cs - 1"] by simp
qed simp

declare ShiftLow_write.simps [simp del]

definition RangeEnc_ShiftLow :: "CPpmd7z_RangeEnc \<Rightarrow> CPpmd7z_RangeEnc" where
  "RangeEnc_ShiftLow p =
     (let low32 = (ucast (eLow p) :: UInt32);
          p = (if low32 < 0xFF000000 \<or> (ucast (drop_bit 32 (eLow p)) :: UInt32) \<noteq> 0
               then p\<lparr>eStream := ShiftLow_write (eCache p) (ucast (drop_bit 32 (eLow p)))
                                   (eCacheSize p) (eStream p),
                      eCacheSize := 0,
                      eCache := ucast (drop_bit 24 low32)\<rparr>
               else p)
      in p\<lparr>eCacheSize := eCacheSize p + 1, eLow := ucast (push_bit 8 low32)\<rparr>)"

text \<open>\<^verbatim>\<open>while (p->Range < kTopValue) { p->Range <<= 8; RangeEnc_ShiftLow(p); }\<close>\<close>

partial_function (option) RangeEnc_loop :: "CPpmd7z_RangeEnc \<Rightarrow> CPpmd7z_RangeEnc option" where
  "RangeEnc_loop p =
     (if eRange p < kTopValue
      then RangeEnc_loop (RangeEnc_ShiftLow (p\<lparr>eRange := push_bit 8 (eRange p)\<rparr>))
      else Some p)"

definition RangeEnc_Encode ::
    "CPpmd7z_RangeEnc \<Rightarrow> UInt32 \<Rightarrow> UInt32 \<Rightarrow> UInt32 \<Rightarrow> CPpmd7z_RangeEnc option" where
  "RangeEnc_Encode p start sz tot =
     (if tot = 0 then None
      else let r = eRange p div tot
           in RangeEnc_loop (p\<lparr>eLow := eLow p + ucast start * ucast r, eRange := r * sz\<rparr>))"

definition RangeEnc_EncodeBit_0 :: "CPpmd7z_RangeEnc \<Rightarrow> UInt32 \<Rightarrow> CPpmd7z_RangeEnc option" where
  "RangeEnc_EncodeBit_0 p sizpe =
     RangeEnc_loop (p\<lparr>eRange := drop_bit 14 (eRange p) * sizpe\<rparr>)"

definition RangeEnc_EncodeBit_1 :: "CPpmd7z_RangeEnc \<Rightarrow> UInt32 \<Rightarrow> CPpmd7z_RangeEnc option" where
  "RangeEnc_EncodeBit_1 p sizpe =
     (let newBound = drop_bit 14 (eRange p) * sizpe
      in RangeEnc_loop (p\<lparr>eLow := eLow p + ucast newBound, eRange := eRange p - newBound\<rparr>))"

definition Ppmd7z_RangeEnc_FlushData :: "CPpmd7z_RangeEnc \<Rightarrow> CPpmd7z_RangeEnc" where
  "Ppmd7z_RangeEnc_FlushData p = (RangeEnc_ShiftLow ^^ 5) p"

record CPpmd7z_RangeDec =
  dRange :: UInt32
  dCode :: UInt32
  dStream :: "Byte list"

text \<open>\<^verbatim>\<open>p->Code = (p->Code << 8) | IByteIn_Read(p->Stream)\<close>\<close>

definition Code_shift :: "CPpmd7z_RangeDec \<Rightarrow> CPpmd7z_RangeDec" where
  "Code_shift p =
     (let (b, s) = IByteIn_Read (dStream p)
      in p\<lparr>dCode := push_bit 8 (dCode p) OR ucast b, dStream := s\<rparr>)"

definition Ppmd7z_RangeDec_Init :: "CPpmd7z_RangeDec \<Rightarrow> bool \<times> CPpmd7z_RangeDec" where
  "Ppmd7z_RangeDec_Init p =
     (let p = p\<lparr>dCode := 0, dRange := 0xFFFFFFFF\<rparr>;
          (b, s) = IByteIn_Read (dStream p);
          p = p\<lparr>dStream := s\<rparr>
      in if b \<noteq> 0 then (False, p)
         else let p = (Code_shift ^^ 4) p in (dCode p < 0xFFFFFFFF, p))"

definition Ppmd7z_RangeDec_IsFinishedOK :: "CPpmd7z_RangeDec \<Rightarrow> bool" where
  "Ppmd7z_RangeDec_IsFinishedOK p \<longleftrightarrow> dCode p = 0"

definition Range_GetThreshold ::
    "CPpmd7z_RangeDec \<Rightarrow> UInt32 \<Rightarrow> (UInt32 \<times> CPpmd7z_RangeDec) option" where
  "Range_GetThreshold p tot =
     (if tot = 0 then None
      else let r = dRange p div tot
           in if r = 0 then None else Some (dCode p div r, p\<lparr>dRange := r\<rparr>))"

definition Range_Normalize :: "CPpmd7z_RangeDec \<Rightarrow> CPpmd7z_RangeDec" where
  "Range_Normalize p =
     (if dRange p < kTopValue
      then let p = Code_shift p; p = p\<lparr>dRange := push_bit 8 (dRange p)\<rparr>
           in if dRange p < kTopValue
              then let p = Code_shift p in p\<lparr>dRange := push_bit 8 (dRange p)\<rparr>
              else p
      else p)"

definition Range_Decode ::
    "CPpmd7z_RangeDec \<Rightarrow> UInt32 \<Rightarrow> UInt32 \<Rightarrow> CPpmd7z_RangeDec" where
  "Range_Decode p start sz =
     Range_Normalize (p\<lparr>dCode := dCode p - start * dRange p, dRange := dRange p * sz\<rparr>)"

definition Range_DecodeBit ::
    "CPpmd7z_RangeDec \<Rightarrow> UInt32 \<Rightarrow> UInt32 \<times> CPpmd7z_RangeDec" where
  "Range_DecodeBit p sizpe =
     (let newBound = drop_bit 14 (dRange p) * sizpe
      in if dCode p < newBound
         then (0, Range_Normalize (p\<lparr>dRange := newBound\<rparr>))
         else (1, Range_Normalize (p\<lparr>dCode := dCode p - newBound,
                                     dRange := dRange p - newBound\<rparr>)))"

section \<open>The number an encoder state stands for\<close>

abbreviation enc7_bytes :: "CPpmd7z_RangeEnc \<Rightarrow> Byte list" where
  "enc7_bytes p \<equiv> eStream p @ eCache p # replicate (unat (eCacheSize p) - 1) 0xFF"

definition enc7_T :: "CPpmd7z_RangeEnc \<Rightarrow> nat" where
  "enc7_T p = be_val (enc7_bytes p) * 2 ^ 32 + unat (eLow p)"

text \<open>The number of bytes shifted out of \<open>Low\<close> so far.\<close>

definition enc7_shifts :: "CPpmd7z_RangeEnc \<Rightarrow> nat" where
  "enc7_shifts p = length (eStream p) + unat (eCacheSize p) - 1"

text \<open>A pending \<open>0xFF\<close> in the cache cannot take a carry: the interval then ends below
  \<open>2^32\<close>.\<close>

definition enc7_inv :: "CPpmd7z_RangeEnc \<Rightarrow> nat \<Rightarrow> bool" where
  "enc7_inv p R \<longleftrightarrow> 0 < unat (eCacheSize p) \<and> unat (eLow p) + R \<le> 2 ^ 33 \<and>
     (eCache p = 0xFF \<longrightarrow> unat (eLow p) + R \<le> 2 ^ 32)"

definition enc7_room :: "nat \<Rightarrow> CPpmd7z_RangeEnc \<Rightarrow> bool" where
  "enc7_room n p \<longleftrightarrow> unat (eCacheSize p) + 2 * n + 8 < 2 ^ 64"

lemma ShiftLow_write_eq:
  "cs \<noteq> 0 \<Longrightarrow> ShiftLow_write t c cs out =
     out @ (t + c) # replicate (unat cs - 1) (0xFF + c)"
proof (induction t c cs out rule: ShiftLow_write.induct)
  case (1 t c cs out)
  show ?case
  proof (cases "cs = 1")
    case True
    then show ?thesis by (simp add: ShiftLow_write.simps [of t] ppmd_ops)
  next
    case False
    with 1 have ne: "cs - 1 \<noteq> 0" by simp
    have u: "unat (cs - 1) = unat cs - 1" using 1 by (simp add: unat_minus_one)
    have pos: "unat cs - 1 \<noteq> 0" using ne u by (metis unat_eq_zero)
    have "ShiftLow_write 0xFF c (cs - 1) (out @ [t + c]) =
        (out @ [t + c]) @ (0xFF + c) # replicate (unat (cs - 1) - 1) (0xFF + c)"
      using "1.IH" [OF refl refl ne] ne by (simp add: ppmd_ops)
    moreover have "(0xFF + c) # replicate (unat (cs - 1) - 1) (0xFF + c) =
        replicate (unat cs - 1) (0xFF + c)"
      using u pos by (cases "unat cs - 1") auto
    ultimately show ?thesis using ne by (simp add: ShiftLow_write.simps [of t] ppmd_ops)
  qed
qed

lemma low32_nat:
  fixes l :: UInt64
  shows "unat (ucast l :: UInt32) = unat l mod 2 ^ 32"
    and "unat (ucast (drop_bit 32 l) :: UInt32) = unat l div 2 ^ 32"
    and "unat (ucast (drop_bit 32 l) :: Byte) = unat l div 2 ^ 32 mod 2 ^ 8"
proof -
  have "unat l div 2 ^ 32 < 2 ^ 32"
    by (rule less_mult_imp_div_less) (simp add: unat_lt64)
  then show "unat (ucast l :: UInt32) = unat l mod 2 ^ 32"
    and "unat (ucast (drop_bit 32 l) :: UInt32) = unat l div 2 ^ 32"
    and "unat (ucast (drop_bit 32 l) :: Byte) = unat l div 2 ^ 32 mod 2 ^ 8"
    by (simp_all add: unat_ucast_mod unat_drop_bit_div)
qed

text \<open>One byte is shifted out: the number is multiplied by 256.\<close>

lemma ShiftLow_low:
  "unat (eLow (RangeEnc_ShiftLow p)) = (unat (eLow p) mod 2 ^ 24) * 2 ^ 8"
proof -
  have "unat (eLow p) mod 2 ^ 32 * 2 ^ 8 mod 2 ^ 32 = (unat (eLow p) mod 2 ^ 24) * 2 ^ 8"
    using mod_mult_mult2 [of "unat (eLow p)" "2 ^ 8" "2 ^ 24"] by (simp add: mod_mult_left_eq)
  then show ?thesis
    by (simp add: RangeEnc_ShiftLow_def Let_def unat_ucast_up unat_push_bit_mod low32_nat)
qed

text \<open>A carry runs through the pending bytes.\<close>

lemma be_val_carry:
  assumes "c = 0 \<or> c = (1 :: Byte) \<and> t \<noteq> 0xFF"
  shows "be_val (out @ (t + c) # replicate n (0xFF + c)) =
    be_val (out @ t # replicate n 0xFF) + unat c"
proof (cases "c = 0")
  case True
  then show ?thesis by simp
next
  case False
  with assms have c: "c = 1" and t: "t \<noteq> 0xFF" by auto
  have "unat t \<noteq> 255" using t by (simp add: word_unat_eq_iff)
  moreover have "unat t < 256" by (rule unat_lt8)
  ultimately have "unat t + 1 < 256" by arith
  then have u: "unat (t + 1) = unat t + 1" by (simp add: unat_add_le)
  have "be_val (replicate n 0xFF) + 1 = 256 ^ n" by (rule be_val_replicate_ff)
  moreover have "(0xFF :: Byte) + 1 = 0" by simp
  ultimately show ?thesis
    using u by (simp only: c be_val_append be_val_Cons) (simp add: algebra_simps)
qed

lemma mod_cut: "(x :: nat) mod 2 ^ 32 = (x mod 2 ^ 32 div 2 ^ 24) * 2 ^ 24 + x mod 2 ^ 24"
  using div_mult_mod_eq [of "x mod 2 ^ 32" "2 ^ 24"] by (simp add: mod_mod_cancel)

lemma nat_cut: "(x div 2 ^ 32) * 2 ^ 32 + (x mod 2 ^ 32 div 2 ^ 24) * 2 ^ 24 + x mod 2 ^ 24 = (x :: nat)"
  using mod_cut [of x] div_mult_mod_eq [of x "2 ^ 32"] by (metis add.assoc)

lemma mod_cut_le: "(x :: nat) mod 2 ^ 32 div 2 ^ 24 \<le> 255"
proof -
  have "x mod 2 ^ 32 div 2 ^ 24 < 256" by (rule less_mult_imp_div_less) simp
  then show ?thesis by linarith
qed

text \<open>The cache goes out, with a carry if there is one.\<close>

lemma ShiftLow_out:
  assumes inv: "enc7_inv p R" and R: "0 < R" "R \<le> 2 ^ 24"
    and out: "unat (eLow p) mod 2 ^ 32 < 0xFF000000 \<or> unat (eLow p) div 2 ^ 32 \<noteq> 0"
  shows "enc7_T (RangeEnc_ShiftLow p) = enc7_T p * 256 \<and>
    enc7_shifts (RangeEnc_ShiftLow p) = Suc (enc7_shifts p) \<and>
    enc7_inv (RangeEnc_ShiftLow p) (R * 256) \<and> eCacheSize (RangeEnc_ShiftLow p) = 1"
proof -
  let ?q = "RangeEnc_ShiftLow p" and ?l = "unat (eLow p)"
  let ?low32 = "ucast (eLow p) :: UInt32" and ?c = "ucast (drop_bit 32 (eLow p)) :: Byte"
  have pos: "0 < unat (eCacheSize p)" and cs0: "eCacheSize p \<noteq> 0"
    using inv by (auto simp: enc7_inv_def)
  have l33: "?l < 2 ^ 33" using inv R by (simp add: enc7_inv_def)
  have c1: "?l div 2 ^ 32 < 2" using l33 by (intro less_mult_imp_div_less) simp
  have uc: "unat ?c = ?l div 2 ^ 32" using c1 by (simp add: low32_nat)
  have c: "?c = 0 \<or> ?c = 1 \<and> eCache p \<noteq> 0xFF"
  proof (cases "?l < 2 ^ 32")
    case True
    then have "unat ?c = 0" using uc by simp
    then show ?thesis by (simp add: unat_eq_zero)
  next
    case False
    then have "?l div 2 ^ 32 = 1" using l33 by (intro div_nat_eqI) simp_all
    then have "unat ?c = unat (1 :: Byte)" using uc by simp
    moreover have "eCache p \<noteq> 0xFF" using False inv R by (auto simp: enc7_inv_def)
    ultimately show ?thesis by (simp only: word_unat_eq_iff) simp
  qed
  have cond: "?low32 < 0xFF000000 \<or> (ucast (drop_bit 32 (eLow p)) :: UInt32) \<noteq> 0"
    using out unfolding word_less_nat_alt word_unat_eq_iff low32_nat(2) low32_nat(1) [of "eLow p"]
    by simp
  have q: "?q = p\<lparr>eStream := eStream p @ (eCache p + ?c) #
        replicate (unat (eCacheSize p) - 1) (0xFF + ?c),
      eCache := ucast (drop_bit 24 ?low32), eCacheSize := 1,
      eLow := ucast (push_bit 8 ?low32)\<rparr>"
    using cond cs0 by (simp add: RangeEnc_ShiftLow_def Let_def ShiftLow_write_eq)
  have cache: "unat (eCache ?q) = ?l mod 2 ^ 32 div 2 ^ 24"
    using mod_cut_le [of ?l] by (simp add: q unat_ucast_mod unat_drop_bit_div low32_nat)
  have low: "unat (eLow ?q) = (?l mod 2 ^ 24) * 2 ^ 8" by (rule ShiftLow_low)
  have "be_val (enc7_bytes ?q) =
      (be_val (enc7_bytes p) + ?l div 2 ^ 32) * 256 + ?l mod 2 ^ 32 div 2 ^ 24"
    using be_val_carry [OF c, of "eStream p" "unat (eCacheSize p) - 1"] cache uc
      be_val_snoc [of "eStream p @ (eCache p + ?c) # replicate (unat (eCacheSize p) - 1) (0xFF + ?c)"]
    by (simp add: q)
  then have "enc7_T ?q = be_val (enc7_bytes p) * 2 ^ 32 * 256 +
      ((?l div 2 ^ 32) * 2 ^ 32 + (?l mod 2 ^ 32 div 2 ^ 24) * 2 ^ 24 + ?l mod 2 ^ 24) * 256"
    unfolding enc7_T_def low by (simp only:) (simp add: algebra_simps)
  then have "enc7_T ?q = enc7_T p * 256"
    unfolding nat_cut by (simp add: enc7_T_def algebra_simps)
  moreover have "enc7_shifts ?q = Suc (enc7_shifts p)"
    using pos by (simp add: q enc7_shifts_def)
  moreover have "enc7_inv ?q (R * 256)"
    unfolding enc7_inv_def
  proof (intro conjI impI)
    show "0 < unat (eCacheSize ?q)" by (simp add: q)
    have "?l mod 2 ^ 24 < 2 ^ 24" by simp
    then show "unat (eLow ?q) + R * 256 \<le> 2 ^ 33" using low R by simp
    assume "eCache ?q = 0xFF"
    then have ff: "?l mod 2 ^ 32 div 2 ^ 24 = 255" using cache by simp
    then have top: "?l mod 2 ^ 32 = 255 * 2 ^ 24 + ?l mod 2 ^ 24" using mod_cut [of ?l] by simp
    then have "?l div 2 ^ 32 \<noteq> 0" using out by simp
    then have "?l div 2 ^ 32 = 1" using c1 by simp
    then have "?l = 2 ^ 32 + 255 * 2 ^ 24 + ?l mod 2 ^ 24"
      using div_mult_mod_eq [of ?l "2 ^ 32"] top by simp
    moreover have "?l + R \<le> 2 ^ 33" using inv by (simp add: enc7_inv_def)
    ultimately have "?l mod 2 ^ 24 + R \<le> 2 ^ 24" by simp
    then show "unat (eLow ?q) + R * 256 \<le> 2 ^ 32" using low by simp
  qed
  ultimately show ?thesis by (simp add: q)
qed


text \<open>\<open>Low\<close> starts with \<open>0xFF\<close> and a carry may still come: the byte is held back.\<close>

lemma ShiftLow_hold:
  assumes inv: "enc7_inv p R" and R: "0 < R" "R \<le> 2 ^ 24"
    and hold: "0xFF000000 \<le> unat (eLow p) mod 2 ^ 32" "unat (eLow p) div 2 ^ 32 = 0"
    and cs: "unat (eCacheSize p) + 1 < 2 ^ 64"
  shows "enc7_T (RangeEnc_ShiftLow p) = enc7_T p * 256 \<and>
    enc7_shifts (RangeEnc_ShiftLow p) = Suc (enc7_shifts p) \<and>
    enc7_inv (RangeEnc_ShiftLow p) (R * 256) \<and>
    unat (eCacheSize (RangeEnc_ShiftLow p)) = unat (eCacheSize p) + 1"
proof -
  let ?q = "RangeEnc_ShiftLow p" and ?l = "unat (eLow p)"
  let ?low32 = "ucast (eLow p) :: UInt32"
  have pos: "0 < unat (eCacheSize p)" using inv by (simp add: enc7_inv_def)
  have cond: "\<not> (?low32 < 0xFF000000 \<or> (ucast (drop_bit 32 (eLow p)) :: UInt32) \<noteq> 0)"
    using hold unfolding word_less_nat_alt word_unat_eq_iff low32_nat(2) low32_nat(1) [of "eLow p"]
    by simp
  have q: "?q = p\<lparr>eCacheSize := eCacheSize p + 1, eLow := ucast (push_bit 8 ?low32)\<rparr>"
    using cond by (simp add: RangeEnc_ShiftLow_def Let_def)
  have csq: "unat (eCacheSize ?q) = unat (eCacheSize p) + 1"
    using cs by (simp add: q unat_add_le)
  have low: "unat (eLow ?q) = (?l mod 2 ^ 24) * 2 ^ 8" by (rule ShiftLow_low)
  have l: "?l = ?l mod 2 ^ 32" using hold(2) div_mult_mod_eq [of ?l "2 ^ 32"] by simp
  have "?l mod 2 ^ 32 div 2 ^ 24 \<ge> 255"
    using div_le_mono [OF hold(1), of "2 ^ 24"] by simp
  then have ff: "?l mod 2 ^ 32 div 2 ^ 24 = 255" using mod_cut_le [of ?l] by linarith
  have l': "?l = 255 * 2 ^ 24 + ?l mod 2 ^ 24"
    by (rule sym) (use nat_cut [of ?l] in \<open>simp only: ff hold(2) mult_zero_left add_0\<close>)
  have "replicate (unat (eCacheSize ?q) - 1) (0xFF :: Byte) =
      replicate (unat (eCacheSize p) - 1) 0xFF @ [0xFF]"
    using csq pos by (metis Suc_pred' add_diff_cancel_right' replicate_Suc replicate_append_same)
  then have "enc7_bytes ?q = enc7_bytes p @ [0xFF]" by (simp add: q)
  then have "be_val (enc7_bytes ?q) = be_val (enc7_bytes p) * 256 + 255"
    by (simp only: be_val_snoc) simp
  then have "enc7_T ?q = enc7_T p * 256"
    unfolding enc7_T_def using low l' by simp
  moreover have "enc7_shifts ?q = Suc (enc7_shifts p)"
    using pos csq by (simp add: q enc7_shifts_def)
  moreover have "enc7_inv ?q (R * 256)"
    unfolding enc7_inv_def
  proof (intro conjI impI)
    show "0 < unat (eCacheSize ?q)" using csq by simp
    have "?l mod 2 ^ 24 < 2 ^ 24" by simp
    then show "unat (eLow ?q) + R * 256 \<le> 2 ^ 33" using low R by simp
    assume "eCache ?q = 0xFF"
    then have "?l + R \<le> 2 ^ 32" using inv by (simp add: q enc7_inv_def)
    then have "?l mod 2 ^ 24 + R \<le> 2 ^ 24" using l' by simp
    then show "unat (eLow ?q) + R * 256 \<le> 2 ^ 32" using low by simp
  qed
  ultimately show ?thesis using csq by simp
qed

lemma ShiftLow_step:
  assumes "enc7_inv p R" "0 < R" "R \<le> 2 ^ 24" "unat (eCacheSize p) + 1 < 2 ^ 64"
  shows "enc7_T (RangeEnc_ShiftLow p) = enc7_T p * 256"
    and "enc7_shifts (RangeEnc_ShiftLow p) = Suc (enc7_shifts p)"
    and "enc7_inv (RangeEnc_ShiftLow p) (R * 256)"
    and "unat (eCacheSize (RangeEnc_ShiftLow p)) \<le> unat (eCacheSize p) + 1"
  using ShiftLow_out [OF assms(1-3)] ShiftLow_hold [OF assms(1-3) _ _ assms(4)]
  by (atomize (full), cases "unat (eLow p) mod 2 ^ 32 < 0xFF000000 \<or> unat (eLow p) div 2 ^ 32 \<noteq> 0") auto

lemma ShiftLow_Range [simp]: "eRange (RangeEnc_ShiftLow p) = eRange p"
  by (simp add: RangeEnc_ShiftLow_def Let_def)


section \<open>Containment and synchronisation\<close>

definition contains7 :: "Byte list \<Rightarrow> CPpmd7z_RangeEnc \<Rightarrow> bool" where
  "contains7 B p \<longleftrightarrow> holds 5 B (enc7_T p) (unat (eRange p)) (enc7_shifts p)"

text \<open>The decoder has read \<open>enc7_shifts + 5\<close> bytes and its \<open>Code\<close> is the distance of the number
  they form from the lower end of the encoder's interval.\<close>

definition sync7 :: "Byte list \<Rightarrow> Byte list \<Rightarrow> CPpmd7z_RangeEnc \<Rightarrow> CPpmd7z_RangeDec \<Rightarrow> bool" where
  "sync7 rest B p d \<longleftrightarrow> dRange d = eRange p \<and>
     unat (dCode d) = be_val (take (enc7_shifts p + 5) B) - enc7_T p \<and>
     dStream d = drop (enc7_shifts p + 5) B @ rest"

text \<open>One round of the two normalisation loops.\<close>

definition eshift :: "CPpmd7z_RangeEnc \<Rightarrow> CPpmd7z_RangeEnc" where
  "eshift p = RangeEnc_ShiftLow (p\<lparr>eRange := push_bit 8 (eRange p)\<rparr>)"

definition dshift :: "CPpmd7z_RangeDec \<Rightarrow> CPpmd7z_RangeDec" where
  "dshift d = (Code_shift d)\<lparr>dRange := push_bit 8 (dRange d)\<rparr>"

lemma kTopValue_nat: "r < kTopValue \<longleftrightarrow> unat r < 2 ^ 24"
  by (simp add: kTopValue_def word_less_nat_alt unat_push_bit_mod)

lemma eshift_step:
  assumes "enc7_inv p (unat (eRange p))" "0 < unat (eRange p)" "unat (eRange p) < 2 ^ 24"
    and "unat (eCacheSize p) + 1 < 2 ^ 64"
  shows "unat (eRange (eshift p)) = unat (eRange p) * 256"
    and "enc7_T (eshift p) = enc7_T p * 256"
    and "enc7_shifts (eshift p) = Suc (enc7_shifts p)"
    and "enc7_inv (eshift p) (unat (eRange (eshift p)))"
    and "unat (eCacheSize (eshift p)) \<le> unat (eCacheSize p) + 1"
proof -
  let ?p = "p\<lparr>eRange := push_bit 8 (eRange p)\<rparr>"
  have "enc7_inv ?p (unat (eRange p))" using assms(1) by (simp add: enc7_inv_def)
  note step = ShiftLow_step [OF this assms(2)]
  show r: "unat (eRange (eshift p)) = unat (eRange p) * 256"
    using assms(3) by (simp add: eshift_def unat_push_bit_le)
  show "enc7_T (eshift p) = enc7_T p * 256" "enc7_shifts (eshift p) = Suc (enc7_shifts p)"
    "enc7_inv (eshift p) (unat (eRange (eshift p)))"
    "unat (eCacheSize (eshift p)) \<le> unat (eCacheSize p) + 1"
    unfolding r using step assms by (simp_all add: eshift_def enc7_T_def enc7_shifts_def)
qed

lemma eshift_contains:
  assumes "enc7_inv p (unat (eRange p))" "0 < unat (eRange p)" "unat (eRange p) < 2 ^ 24"
    and "unat (eCacheSize p) + 1 < 2 ^ 64" "contains7 B (eshift p)"
  shows "contains7 B p"
  using assms(5) unfolding contains7_def eshift_step [OF assms(1-4)] by (rule holds_shift)

lemma eshift_sync:
  assumes "enc7_inv p (unat (eRange p))" "0 < unat (eRange p)" "unat (eRange p) < 2 ^ 24"
    and "unat (eCacheSize p) + 1 < 2 ^ 64" "contains7 B (eshift p)" and sync: "sync7 rest B p d"
  shows "sync7 rest B (eshift p) (dshift d)"
proof -
  let ?j = "enc7_shifts p + 5" and ?T = "enc7_T p"
  let ?x = "be_val (take ?j B)"
  note st = eshift_step [OF assms(1-4)]
  have len: "?j < length B" using assms(5) by (simp add: contains7_def holds_def st)
  have lo: "?T \<le> ?x" and hi: "?x < ?T + unat (eRange p)"
    using eshift_contains [OF assms(1-5)] by (simp_all add: contains7_def holds_def)
  have stream: "dStream d = B ! ?j # drop (Suc ?j) B @ rest"
    using sync Cons_nth_drop_Suc [OF len, symmetric] by (simp only: sync7_def append_Cons)
  have code: "unat (dCode d) = ?x - ?T" using sync by (simp add: sync7_def)
  with lo hi assms(3) have c24: "unat (dCode d) < 2 ^ 24" by linarith
  have "unat (dCode (dshift d)) = (?x - ?T) * 256 + unat (B ! ?j)"
    using unat_push8_or_byte [OF c24, of "B ! ?j"] stream
    by (simp add: dshift_def Code_shift_def code)
  also have "\<dots> = be_val (take (Suc ?j) B) - ?T * 256"
    using lo be_val_take_Suc [OF len] by (simp add: diff_mult_distrib)
  finally show ?thesis
    using stream sync by (simp add: sync7_def st dshift_def Code_shift_def)
      (simp add: eshift_def)
qed


section \<open>The normalisation loops\<close>

definition enorm :: "CPpmd7z_RangeEnc \<Rightarrow> CPpmd7z_RangeEnc" where
  "enorm p = (if eRange p < kTopValue
     then if eRange (eshift p) < kTopValue then eshift (eshift p) else eshift p else p)"

lemma eRange_eshift [simp]: "eRange (eshift p) = push_bit 8 (eRange p)"
  by (simp add: eshift_def)

text \<open>From \<open>Range \<ge> 2^8\<close> the encoder's unbounded loop takes at most two rounds, which is
  what the decoder's two nested conditionals provide for.\<close>

lemma RangeEnc_loop_eq:
  assumes "2 ^ 8 \<le> unat (eRange p)"
  shows "RangeEnc_loop p = Some (enorm p)"
proof -
  have loop: "RangeEnc_loop q = (if eRange q < kTopValue then RangeEnc_loop (eshift q) else Some q)" for q
    by (subst RangeEnc_loop.simps) (simp add: eshift_def)
  have "\<not> eRange (eshift (eshift p)) < kTopValue" if "eRange (eshift p) < kTopValue" "eRange p < kTopValue"
    using that assms by (simp add: kTopValue_nat unat_push_bit_mod)
  then show ?thesis
    by (auto simp: enorm_def loop [of p] loop [of "eshift p"] loop [of "eshift (eshift p)"]
        simp del: eRange_eshift)
qed

lemma Range_Normalize_eq:
  "Range_Normalize d = (if dRange d < kTopValue
     then if dRange (dshift d) < kTopValue then dshift (dshift d) else dshift d else d)"
proof -
  have [simp]: "dRange (Code_shift d) = dRange d" for d
    by (simp add: Code_shift_def split_beta)
  show ?thesis by (simp add: Range_Normalize_def dshift_def Let_def)
qed

text \<open>A state after its interval was narrowed, before normalisation.\<close>

definition narrowed7 :: "CPpmd7z_RangeEnc \<Rightarrow> bool" where
  "narrowed7 p \<longleftrightarrow> enc7_inv p (unat (eRange p)) \<and> 2 ^ 8 \<le> unat (eRange p) \<and>
     unat (eCacheSize p) + 2 < 2 ^ 64"

definition good7 :: "CPpmd7z_RangeEnc \<Rightarrow> bool" where
  "good7 p \<longleftrightarrow> enc7_inv p (unat (eRange p)) \<and> 2 ^ 24 \<le> unat (eRange p)"

lemma enorm_good:
  assumes n: "narrowed7 p"
  shows "good7 (enorm p)" and "unat (eCacheSize (enorm p)) \<le> unat (eCacheSize p) + 2"
    and "contains7 B (enorm p) \<Longrightarrow> contains7 B p"
    and "contains7 B (enorm p) \<Longrightarrow> sync7 rest B p d \<Longrightarrow> sync7 rest B (enorm p) (Range_Normalize d)"
proof -
  have inv: "enc7_inv p (unat (eRange p))" and r8: "2 ^ 8 \<le> unat (eRange p)"
    and cs: "unat (eCacheSize p) + 2 < 2 ^ 64"
    using n by (auto simp: narrowed7_def)
  have "good7 (enorm p) \<and> unat (eCacheSize (enorm p)) \<le> unat (eCacheSize p) + 2 \<and>
    (contains7 B (enorm p) \<longrightarrow> contains7 B p) \<and>
    (contains7 B (enorm p) \<longrightarrow> sync7 rest B p d \<longrightarrow> sync7 rest B (enorm p) (Range_Normalize d))"
  proof (cases "eRange p < kTopValue")
    case False
    then show ?thesis using inv
      by (auto simp: enorm_def Range_Normalize_eq good7_def kTopValue_nat sync7_def)
  next
    case True
    then have r: "0 < unat (eRange p)" "unat (eRange p) < 2 ^ 24" using r8 by (auto simp: kTopValue_nat)
    have cs1: "unat (eCacheSize p) + 1 < 2 ^ 64" using cs by simp
    note e1 = eshift_step [OF inv r cs1]
    note c1 = eshift_contains [OF inv r cs1] and s1 = eshift_sync [OF inv r cs1]
    have dr: "dRange (dshift d) = eRange (eshift p)" if "sync7 rest B p d"
      using that by (simp add: sync7_def dshift_def)
    show ?thesis
    proof (cases "eRange (eshift p) < kTopValue")
      case False
      then show ?thesis using True e1 c1 [of B] s1 [of B rest d] dr
        by (auto simp: enorm_def Range_Normalize_eq good7_def kTopValue_nat sync7_def
            simp del: eRange_eshift)
    next
      case T2: True
      let ?q = "eshift p"
      have r2: "0 < unat (eRange ?q)" "unat (eRange ?q) < 2 ^ 24"
        using T2 e1(1) r by (auto simp: kTopValue_nat simp del: eRange_eshift)
      have cs2: "unat (eCacheSize ?q) + 1 < 2 ^ 64" using e1(5) cs by simp
      note e2 = eshift_step [OF e1(4) r2 cs2]
      note c2 = eshift_contains [OF e1(4) r2 cs2] and s2 = eshift_sync [OF e1(4) r2 cs2]
      have "2 ^ 24 \<le> unat (eRange (eshift ?q))" using e2(1) e1(1) r8 by simp
      then show ?thesis using True T2 e1(5) e2 c1 [of B] c2 [of B] s1 [of B rest d] s2 [of B rest "dshift d"] dr
        by (auto simp: enorm_def Range_Normalize_eq good7_def sync7_def [of rest B p]
            simp del: eRange_eshift)
    qed
  qed
  then show "good7 (enorm p)" "unat (eCacheSize (enorm p)) \<le> unat (eCacheSize p) + 2"
    "contains7 B (enorm p) \<Longrightarrow> contains7 B p"
    "contains7 B (enorm p) \<Longrightarrow> sync7 rest B p d \<Longrightarrow> sync7 rest B (enorm p) (Range_Normalize d)"
    by blast+
qed


section \<open>Narrowing the interval\<close>

text \<open>The common core of \<open>RangeEnc_Encode\<close>, \<open>RangeEnc_EncodeBit_0\<close> and \<open>RangeEnc_EncodeBit_1\<close>:
  the interval becomes \<open>[T + off, T + off + r)\<close>, a part of the old one.\<close>

lemma narrow7:
  fixes off r :: UInt32
  assumes p: "good7 p" and cs: "unat (eCacheSize p) + 2 < 2 ^ 64"
    and r: "2 ^ 8 \<le> unat r" "unat off + unat r \<le> unat (eRange p)"
    and q: "q = p\<lparr>eLow := eLow p + ucast off, eRange := r\<rparr>"
  shows "narrowed7 q"
    and "contains7 B q \<Longrightarrow> contains7 B p"
    and "contains7 B q \<Longrightarrow> sync7 rest B p d \<Longrightarrow> unat off \<le> unat (dCode d) \<and>
      unat (dCode d) < unat off + unat r \<and>
      sync7 rest B q (d\<lparr>dCode := dCode d - off, dRange := r\<rparr>)"
proof -
  have inv: "enc7_inv p (unat (eRange p))" using p by (simp add: good7_def)
  have low: "unat (eLow q) = unat (eLow p) + unat off"
  proof -
    have "unat (eLow p) + unat off < 2 ^ 64"
      using inv r unat_lt32 [of "eRange p"] by (simp add: enc7_inv_def)
    then show ?thesis by (simp add: q unat_add_le unat_ucast_up)
  qed
  have T: "enc7_T q = enc7_T p + unat off" and j: "enc7_shifts q = enc7_shifts p"
    using low by (simp_all add: q enc7_T_def enc7_shifts_def)
  have R: "unat (eRange q) = unat r" by (simp add: q)
  show "narrowed7 q"
    using inv r cs low by (auto simp: narrowed7_def enc7_inv_def R) (auto simp: q)
  show c: "contains7 B p" if "contains7 B q"
    using that r unfolding contains7_def T j R by (auto elim: holds_mono)
  show "unat off \<le> unat (dCode d) \<and> unat (dCode d) < unat off + unat r \<and>
      sync7 rest B q (d\<lparr>dCode := dCode d - off, dRange := r\<rparr>)"
    if "contains7 B q" "sync7 rest B p d"
  proof -
    have le: "unat off \<le> unat (dCode d)" and less: "unat (dCode d) < unat off + unat r"
      using that by (auto simp: contains7_def holds_def sync7_def T j R)
    have "unat (dCode d - off) = unat (dCode d) - unat off" by (rule unat_sub_le [OF le])
    then have "sync7 rest B q (d\<lparr>dCode := dCode d - off, dRange := r\<rparr>)"
      using that(2) by (simp add: sync7_def T j) (simp add: q)
    with le less show ?thesis by simp
  qed
qed

text \<open>One narrowing step and the normalisation after it, on both sides.\<close>

lemma narrow7_norm:
  fixes off r :: UInt32
  assumes p: "good7 p" "enc7_room (Suc n) p"
    and r: "2 ^ 8 \<le> unat r" "unat off + unat r \<le> unat (eRange p)"
    and q: "q = p\<lparr>eLow := eLow p + ucast off, eRange := r\<rparr>"
  shows "RangeEnc_loop q = Some (enorm q)" and "good7 (enorm q)" and "enc7_room n (enorm q)"
    and "contains7 B (enorm q) \<Longrightarrow> contains7 B p"
    and "contains7 B (enorm q) \<Longrightarrow> sync7 rest B p d \<Longrightarrow> unat off \<le> unat (dCode d) \<and>
      unat (dCode d) < unat off + unat r \<and>
      sync7 rest B (enorm q) (Range_Normalize (d\<lparr>dCode := dCode d - off, dRange := r\<rparr>))"
proof -
  have cs: "unat (eCacheSize p) + 2 < 2 ^ 64" using p by (simp add: enc7_room_def)
  note n = narrow7 [OF p(1) cs r q]
  note e = enorm_good [OF n(1)]
  show "RangeEnc_loop q = Some (enorm q)" by (rule RangeEnc_loop_eq) (use r q in simp)
  show "good7 (enorm q)" by (rule e(1))
  show "enc7_room n (enorm q)" using e(2) p(2) by (simp add: enc7_room_def q)
  show "contains7 B p" if "contains7 B (enorm q)" using that n(2) e(3) by blast
  show "unat off \<le> unat (dCode d) \<and> unat (dCode d) < unat off + unat r \<and>
      sync7 rest B (enorm q) (Range_Normalize (d\<lparr>dCode := dCode d - off, dRange := r\<rparr>))"
    if "contains7 B (enorm q)" "sync7 rest B p d"
    using that n(3) e(3,4) by blast
qed

section \<open>The coder as an instance of the contract\<close>

fun enc7 :: "CPpmd7z_RangeEnc \<Rightarrow> decision \<Rightarrow> CPpmd7z_RangeEnc option" where
  "enc7 p (Interval start sz tot) = RangeEnc_Encode p start sz tot"
| "enc7 p (Bit b sizpe) = (if b then RangeEnc_EncodeBit_1 p sizpe else RangeEnc_EncodeBit_0 p sizpe)"

fun dec7 :: "CPpmd7z_RangeDec \<Rightarrow> decision \<Rightarrow> CPpmd7z_RangeDec option" where
  "dec7 p (Interval start sz tot) = do {
     (count, p) \<leftarrow> Range_GetThreshold p tot;
     if unat start \<le> unat count \<and> unat count < unat start + unat sz
     then Some (Range_Decode p start sz) else None }"
| "dec7 p (Bit b sizpe) =
     (let (symbol, p) = Range_DecodeBit p sizpe
      in if symbol = (if b then 1 else 0) then Some p else None)"

fun ok7 :: "decision \<Rightarrow> bool" where
  "ok7 (Interval start sz tot) \<longleftrightarrow>
     0 < unat sz \<and> unat start + unat sz \<le> unat tot \<and> unat tot \<le> 2 ^ 16"
| "ok7 (Bit b sizpe) \<longleftrightarrow> 0 < unat sizpe \<and> unat sizpe < 2 ^ 14"

definition flush7 :: "CPpmd7z_RangeEnc \<Rightarrow> Byte list" where
  "flush7 p = eStream (Ppmd7z_RangeEnc_FlushData p)"

lemma freq_split:
  assumes "good7 p" "ok7 (Interval start sz tot)"
  defines "r \<equiv> eRange p div tot"
  shows "unat r = unat (eRange p) div unat tot" "2 ^ 8 \<le> unat r"
    "unat (start * r) = unat start * unat r" "unat (r * sz) = unat r * unat sz"
    "2 ^ 8 \<le> unat (r * sz)" "unat (start * r) + unat (r * sz) \<le> unat (eRange p)"
    "tot \<noteq> 0" "r \<noteq> 0"
proof -
  have R: "2 ^ 24 \<le> unat (eRange p)" using assms by (simp add: good7_def)
  have t: "0 < unat tot" "unat tot \<le> 2 ^ 16" "unat start + unat sz \<le> unat tot" "0 < unat sz"
    using assms by auto
  show r: "unat r = unat (eRange p) div unat tot" by (simp add: r_def unat_div)
  have "2 ^ 8 * unat tot \<le> unat (eRange p)" using t R by simp
  then show r8: "2 ^ 8 \<le> unat r" using t by (simp add: r less_eq_div_iff_mult_less_eq)
  have le: "(unat start + unat sz) * unat r \<le> unat (eRange p)"
  proof -
    have "(unat start + unat sz) * unat r \<le> unat tot * unat r" using t(3) by (rule mult_le_mono1)
    also have "\<dots> \<le> unat (eRange p)" by (simp add: r)
    finally show ?thesis .
  qed
  then have b: "unat start * unat r < 2 ^ 32" "unat r * unat sz < 2 ^ 32"
    using unat_lt32 [of "eRange p"] by (simp_all add: algebra_simps)
  show s: "unat (start * r) = unat start * unat r" and z: "unat (r * sz) = unat r * unat sz"
    using b by (simp_all add: unat_mult_le)
  show "2 ^ 8 \<le> unat (r * sz)"
    unfolding z using mult_le_mono [OF r8, of 1 "unat sz"] t(4) by simp
  show "unat (start * r) + unat (r * sz) \<le> unat (eRange p)"
    unfolding s z using le by (simp add: algebra_simps)
  show "tot \<noteq> 0" "r \<noteq> 0" using t r8 by auto
qed


lemma bit_split:
  assumes "good7 p" "0 < unat sizpe" "unat sizpe < 2 ^ 14"
  defines "b \<equiv> drop_bit 14 (eRange p) * sizpe"
  shows "2 ^ 8 \<le> unat b" "2 ^ 8 \<le> unat (eRange p - b)" "unat b + unat (eRange p - b) = unat (eRange p)"
proof -
  let ?g = "unat (eRange p) div 2 ^ 14"
  have R: "2 ^ 24 \<le> unat (eRange p)" using assms by (simp add: good7_def)
  have g: "2 ^ 10 \<le> ?g" using div_le_mono [OF R, of "2 ^ 14"] by simp
  have "?g * (unat sizpe + 1) \<le> ?g * 2 ^ 14" using assms by (intro mult_le_mono2) simp
  also have "\<dots> \<le> unat (eRange p)" by simp
  finally have le: "?g * unat sizpe + ?g \<le> unat (eRange p)" by simp
  then have b: "unat b = ?g * unat sizpe"
    using unat_lt32 [of "eRange p"] by (simp add: b_def unat_mult_le unat_drop_bit_div)
  show "2 ^ 8 \<le> unat b"
    unfolding b using mult_le_mono [OF g, of 1 "unat sizpe"] assms by simp
  have sub: "unat (eRange p - b) = unat (eRange p) - unat b"
    using le b by (intro unat_sub_le) simp
  then show "unat b + unat (eRange p - b) = unat (eRange p)" using le b by simp
  show "2 ^ 8 \<le> unat (eRange p - b)" using sub le b g by simp
qed

lemma enc7_step:
  assumes p: "good7 p" "enc7_room (Suc n) p" and ok: "ok7 x"
  obtains off r where "2 ^ 8 \<le> unat r" "unat off + unat r \<le> unat (eRange p)"
    "enc7 p x = RangeEnc_loop (p\<lparr>eLow := eLow p + ucast off, eRange := r\<rparr>)"
    "\<And>d. dRange d = eRange p \<Longrightarrow> unat off \<le> unat (dCode d) \<Longrightarrow>
       unat (dCode d) < unat off + unat r \<Longrightarrow>
       dec7 d x = Some (Range_Normalize (d\<lparr>dCode := dCode d - off, dRange := r\<rparr>))"
proof (cases x)
  case (Interval start sz tot)
  let ?r = "eRange p div tot"
  note f = freq_split [OF p(1) ok [unfolded Interval]]
  show ?thesis
  proof (rule that [of "?r * sz" "start * ?r"])
    show "2 ^ 8 \<le> unat (?r * sz)" "unat (start * ?r) + unat (?r * sz) \<le> unat (eRange p)"
      by (rule f)+
    have "unat start * unat ?r < 2 ^ 64"
      using f(3) unat_lt32 [of "start * ?r"] by simp
    then have "ucast (start * ?r) = (ucast start * ucast ?r :: UInt64)"
      using f(3) by (simp add: word_unat_eq_iff unat_ucast_up unat_mult_le)
    then show "enc7 p x = RangeEnc_loop
        (p\<lparr>eLow := eLow p + ucast (start * ?r), eRange := ?r * sz\<rparr>)"
      using f(7) by (simp add: Interval RangeEnc_Encode_def Let_def)
    fix d :: CPpmd7z_RangeDec
    assume d: "dRange d = eRange p" "unat (start * ?r) \<le> unat (dCode d)"
      "unat (dCode d) < unat (start * ?r) + unat (?r * sz)"
    have r0: "0 < unat ?r" using f(8) by (simp add: unat_gt_0)
    have "unat start * unat ?r \<le> unat (dCode d)"
      "unat (dCode d) < (unat start + unat sz) * unat ?r"
      using d(2,3) f(3,4) by (simp_all add: algebra_simps)
    then have "unat start \<le> unat (dCode d) div unat ?r"
      "unat (dCode d) div unat ?r < unat start + unat sz"
      using r0 by (simp_all add: less_eq_div_iff_mult_less_eq less_mult_imp_div_less)
    then show "dec7 d x = Some (Range_Normalize
        (d\<lparr>dCode := dCode d - start * ?r, dRange := ?r * sz\<rparr>))"
      using d(1) f(7,8) by (simp add: Interval Range_GetThreshold_def Range_Decode_def unat_div Let_def)
  qed
next
  case (Bit b sizpe)
  let ?b = "drop_bit 14 (eRange p) * sizpe"
  have z: "0 < unat sizpe" "unat sizpe < 2 ^ 14" using ok Bit by auto
  note f = bit_split [OF p(1) z]
  show ?thesis
  proof (cases b)
    case True
    show ?thesis
      by (rule that [of "eRange p - ?b" ?b])
        (use f in \<open>auto simp: Bit True RangeEnc_EncodeBit_1_def Range_DecodeBit_def Let_def
           word_less_nat_alt\<close>)
  next
    case False
    show ?thesis
      by (rule that [of ?b 0])
        (use f in \<open>auto simp: Bit False RangeEnc_EncodeBit_0_def Range_DecodeBit_def Let_def
           word_less_nat_alt\<close>)
  qed
qed


section \<open>Flushing\<close>

lemma enc7_inv_mono: "enc7_inv p R \<Longrightarrow> R' \<le> R \<Longrightarrow> enc7_inv p R'"
  by (auto simp: enc7_inv_def)

lemma ShiftLow_pow:
  assumes "enc7_inv p 1" "unat (eCacheSize p) + n < 2 ^ 64"
  shows "enc7_inv ((RangeEnc_ShiftLow ^^ n) p) 1 \<and>
    enc7_T ((RangeEnc_ShiftLow ^^ n) p) = enc7_T p * 256 ^ n \<and>
    enc7_shifts ((RangeEnc_ShiftLow ^^ n) p) = enc7_shifts p + n \<and>
    unat (eCacheSize ((RangeEnc_ShiftLow ^^ n) p)) \<le> unat (eCacheSize p) + n"
  using assms(2)
proof (induction n)
  case 0
  then show ?case using assms(1) by simp
next
  case (Suc n)
  let ?q = "(RangeEnc_ShiftLow ^^ n) p"
  have q: "enc7_inv ?q 1" "unat (eCacheSize ?q) + 1 < 2 ^ 64"
    using Suc by auto
  from ShiftLow_step [OF q(1) _ _ q(2)] Suc show ?case
    by (auto intro: enc7_inv_mono)
qed

lemma flush7_correct:
  assumes "good7 p" "enc7_room 0 p"
  shows "be_val (flush7 p) = enc7_T p" and "length (flush7 p) = enc7_shifts p + 5"
proof -
  let ?q = "\<lambda>n. (RangeEnc_ShiftLow ^^ n) p"
  have inv: "enc7_inv p 1" using assms(1) by (auto simp: good7_def intro: enc7_inv_mono)
  have cs: "unat (eCacheSize p) + 5 < 2 ^ 64" using assms(2) by (simp add: enc7_room_def)
  define low where "low n = unat (eLow (?q n))" for n
  have low_Suc: "low n' = (low n mod 2 ^ 24) * 2 ^ 8" if "n' = Suc n" for n n'
    by (simp add: that low_def ShiftLow_low)
  have dvd: "2 ^ k' dvd low n'" if "2 ^ k dvd low n" "k \<le> 24" "n' = Suc n" "k' = k + 8"
    for k n k' n'
  proof -
    have "(2 :: nat) ^ k dvd 2 ^ 24" using that by (intro le_imp_power_dvd)
    then have "2 ^ k dvd low n mod 2 ^ 24" using that by (intro dvd_mod)
    then have "2 ^ k * 2 ^ 8 dvd (low n mod 2 ^ 24) * 2 ^ 8" by (rule mult_dvd_mono) simp
    then show ?thesis by (simp only: that power_add low_Suc [OF refl])
  qed
  have "2 ^ 8 dvd low 1" by (rule dvd [of 0 0]) simp_all
  then have "2 ^ 16 dvd low 2" by (rule dvd) simp_all
  then have "2 ^ 24 dvd low 3" by (rule dvd) simp_all
  then have "low 4 = 0" using low_Suc [of 4 3] by simp
  then have z: "unat (eLow (?q 4)) = 0" and z5: "unat (eLow (?q 5)) = 0"
    using low_Suc [of 5 4] by (simp_all add: low_def)
  have inv4: "enc7_inv (?q 4) 1" using ShiftLow_pow [OF inv, of 4] cs by simp
  have cs1: "eCacheSize (?q 5) = 1" and cache: "eCache (?q 5) = 0"
  proof -
    have "?q 5 = RangeEnc_ShiftLow (?q 4)" by (simp add: eval_nat_numeral)
    moreover have "eCacheSize (RangeEnc_ShiftLow (?q 4)) = 1"
      using ShiftLow_out [OF inv4] z by simp
    moreover have "eLow (?q 4) = 0" using z by (simp add: unat_eq_zero)
    ultimately show "eCacheSize (?q 5) = 1" "eCache (?q 5) = 0"
      by (simp_all add: RangeEnc_ShiftLow_def Let_def)
  qed
  have p5: "enc7_T (?q 5) = enc7_T p * 256 ^ 5" "enc7_shifts (?q 5) = enc7_shifts p + 5"
    using ShiftLow_pow [OF inv, of 5] cs by simp_all
  have "be_val (eStream (?q 5)) * 256 * 2 ^ 32 = enc7_T p * 256 ^ 5"
    using p5(1) z5 cs1 cache by (simp add: enc7_T_def)
  then show "be_val (flush7 p) = enc7_T p"
    by (simp add: flush7_def Ppmd7z_RangeEnc_FlushData_def)
  show "length (flush7 p) = enc7_shifts p + 5"
    using p5(2) cs1 by (simp add: flush7_def Ppmd7z_RangeEnc_FlushData_def enc7_shifts_def)
qed

lemma flush7_contains:
  assumes "good7 p" "enc7_room 0 p"
  shows "contains7 (flush7 p) p"
  using flush7_correct [OF assms] assms(1) by (simp add: contains7_def holds_def good7_def)

interpretation rc7: range_coder enc7 dec7 good7 ok7 enc7_room contains7 "sync7 rest" flush7
  for rest
proof
  fix e n x
  assume a: "good7 e" "enc7_room (Suc n) e" "ok7 x"
  then obtain off r :: UInt32 where "2 ^ 8 \<le> unat r" "unat off + unat r \<le> unat (eRange e)"
    "enc7 e x = RangeEnc_loop (e\<lparr>eLow := eLow e + ucast off, eRange := r\<rparr>)"
    by (rule enc7_step) blast
  with narrow7_norm [OF a(1,2) this(1,2) refl]
  show "\<exists>e'. enc7 e x = Some e' \<and> good7 e' \<and> enc7_room n e'" by auto
next
  fix e x e' B
  assume a: "good7 e" "enc7_room 1 e" "ok7 x" "enc7 e x = Some e'" "contains7 B e'"
  have room: "enc7_room (Suc 0) e" using a(2) by simp
  from a(1) room a(3) obtain off r :: UInt32 where o: "2 ^ 8 \<le> unat r" "unat off + unat r \<le> unat (eRange e)"
    "enc7 e x = RangeEnc_loop (e\<lparr>eLow := eLow e + ucast off, eRange := r\<rparr>)"
    by (rule enc7_step) blast
  with narrow7_norm [OF a(1) room o(1,2) refl] a show "contains7 B e" by auto
next
  fix e x e' B d
  assume a: "good7 e" "enc7_room 1 e" "ok7 x" "enc7 e x = Some e'" "contains7 B e'" "sync7 rest B e d"
  have room: "enc7_room (Suc 0) e" using a(2) by simp
  from a(1) room a(3) obtain off r :: UInt32 where o: "2 ^ 8 \<le> unat r" "unat off + unat r \<le> unat (eRange e)"
    "enc7 e x = RangeEnc_loop (e\<lparr>eLow := eLow e + ucast off, eRange := r\<rparr>)"
    and d: "\<And>d. dRange d = eRange e \<Longrightarrow> unat off \<le> unat (dCode d) \<Longrightarrow>
       unat (dCode d) < unat off + unat r \<Longrightarrow>
       dec7 d x = Some (Range_Normalize (d\<lparr>dCode := dCode d - off, dRange := r\<rparr>))"
    by (rule enc7_step) blast
  note n = narrow7_norm [OF a(1) room o(1,2) refl]
  have e': "e' = enorm (e\<lparr>eLow := eLow e + ucast off, eRange := r\<rparr>)" using n(1) o(3) a(4) by simp
  have "dRange d = eRange e" using a(6) by (simp add: sync7_def)
  with n(5) [OF a(5) [unfolded e'] a(6)] d show "\<exists>d'. dec7 d x = Some d' \<and> sync7 rest B e' d'"
    unfolding e' by blast
next
  fix e assume "good7 e" "enc7_room 0 e"
  then show "contains7 (flush7 e) e" by (rule flush7_contains)
next
  fix n e assume "enc7_room (Suc n) e"
  then show "enc7_room n e" by (simp add: enc7_room_def)
qed

section \<open>The decoder's start\<close>

lemma good7_init: "good7 (Ppmd7z_RangeEnc_Init p\<lparr>eStream := []\<rparr>)"
  by (simp add: good7_def enc7_inv_def Ppmd7z_RangeEnc_Init_def)

lemma Code_shift_Cons:
  assumes "dStream d = b # bs" "unat (dCode d) < 16777216"
  shows "unat (dCode (Code_shift d)) = unat (dCode d) * 256 + unat b"
    and "dStream (Code_shift d) = bs" and "dRange (Code_shift d) = dRange d"
  using assms by (simp_all add: Code_shift_def unat_push8_or_byte)

lemma Code_shift_pow4:
  assumes "dStream d = b1 # b2 # b3 # b4 # bs" "dCode d = 0"
  shows "unat (dCode ((Code_shift ^^ 4) d)) = be_val [b1, b2, b3, b4]"
    and "dStream ((Code_shift ^^ 4) d) = bs" and "dRange ((Code_shift ^^ 4) d) = dRange d"
proof -
  let ?d1 = "Code_shift d" let ?d2 = "Code_shift ?d1" let ?d3 = "Code_shift ?d2"
  note lt = unat_lt8 [of b1] unat_lt8 [of b2] unat_lt8 [of b3]
  have c1: "dStream ?d1 = b2 # b3 # b4 # bs" "unat (dCode ?d1) = unat b1" "dRange ?d1 = dRange d"
    using Code_shift_Cons [OF assms(1)] assms(2) by simp_all
  have c2: "dStream ?d2 = b3 # b4 # bs" "unat (dCode ?d2) = unat b1 * 256 + unat b2"
    "dRange ?d2 = dRange d"
    using Code_shift_Cons [OF c1(1)] c1(2,3) lt by simp_all
  have c3: "dStream ?d3 = b4 # bs"
    "unat (dCode ?d3) = (unat b1 * 256 + unat b2) * 256 + unat b3" "dRange ?d3 = dRange d"
    using Code_shift_Cons [OF c2(1)] c2(2,3) lt by simp_all
  have "(Code_shift ^^ 4) d = Code_shift ?d3" by (simp add: eval_nat_numeral)
  then show "unat (dCode ((Code_shift ^^ 4) d)) = be_val [b1, b2, b3, b4]"
    "dStream ((Code_shift ^^ 4) d) = bs" "dRange ((Code_shift ^^ 4) d) = dRange d"
    using Code_shift_Cons [OF c3(1)] c3(2,3) lt by (simp_all add: be_val_def)
qed

lemma Init_sync7:
  assumes "contains7 B (Ppmd7z_RangeEnc_Init p\<lparr>eStream := []\<rparr>)"
  shows "fst (Ppmd7z_RangeDec_Init (d\<lparr>dStream := B @ rest\<rparr>))"
    and "sync7 rest B (Ppmd7z_RangeEnc_Init p\<lparr>eStream := []\<rparr>)
      (snd (Ppmd7z_RangeDec_Init (d\<lparr>dStream := B @ rest\<rparr>)))"
proof -
  let ?e = "Ppmd7z_RangeEnc_Init p\<lparr>eStream := []\<rparr>"
  have e: "enc7_T ?e = 0" "enc7_shifts ?e = 0" "unat (eRange ?e) = 2 ^ 32 - 1" "eRange ?e = 0xFFFFFFFF"
    by (simp_all add: Ppmd7z_RangeEnc_Init_def enc7_T_def enc7_shifts_def)
  have len: "5 \<le> length B" and v: "be_val (take 5 B) < 2 ^ 32 - 1"
    using assms by (simp_all add: contains7_def holds_def e)
  obtain b0 b1 b2 b3 b4 bs where B: "B = b0 # b1 # b2 # b3 # b4 # bs"
  proof -
    have "Suc (Suc (Suc (Suc (Suc 0)))) \<le> length B" using len by simp
    then show ?thesis using that by (auto simp: Suc_le_length_iff)
  qed
  have "be_val [b0, b1, b2, b3, b4] = unat b0 * 256 ^ 4 + be_val [b1, b2, b3, b4]"
    by (simp add: be_val_Cons [of b0])
  then have b0: "unat b0 = 0" and w: "be_val (take 5 B) = be_val [b1, b2, b3, b4]"
    using v by (simp_all add: B)
  let ?d = "d\<lparr>dCode := 0, dRange := 0xFFFFFFFF, dStream := b1 # b2 # b3 # b4 # bs @ rest\<rparr>"
  have ini: "Ppmd7z_RangeDec_Init (d\<lparr>dStream := B @ rest\<rparr>) =
      (dCode ((Code_shift ^^ 4) ?d) < 0xFFFFFFFF, (Code_shift ^^ 4) ?d)"
    using b0 by (simp add: Ppmd7z_RangeDec_Init_def B Let_def unat_eq_zero)
  have c: "unat (dCode ((Code_shift ^^ 4) ?d)) = be_val (take 5 B)"
    "dStream ((Code_shift ^^ 4) ?d) = bs @ rest" "dRange ((Code_shift ^^ 4) ?d) = 0xFFFFFFFF"
    using Code_shift_pow4 [of ?d b1 b2 b3 b4 "bs @ rest"] w by simp_all
  show "fst (Ppmd7z_RangeDec_Init (d\<lparr>dStream := B @ rest\<rparr>))"
    using c(1) v by (simp add: ini word_less_nat_alt)
  show "sync7 rest B ?e (snd (Ppmd7z_RangeDec_Init (d\<lparr>dStream := B @ rest\<rparr>)))"
    unfolding ini sync7_def e using c by (simp add: B)
qed

section \<open>Properties\<close>

text \<open>
  C7. The 7z range coder is correct for every sequence of coding decisions with sane
  frequencies (\<open>0 < size\<close>, \<open>start + size \<le> total \<le> 2^16\<close>, binary probabilities strictly
  between 0 and \<open>2^14\<close>): the encoder returns for every one of them, and the decoder,
  started on the flushed bytes followed by anything, initialises with success, takes exactly
  the same decisions, has then consumed exactly the encoder's bytes and ends with the
  ``finished OK'' state.  Carries through arbitrarily many pending \<open>0xFF\<close> bytes are included.
\<close>

theorem range_coder7_roundtrip:
  assumes "list_all ok7 xs" and "2 * length xs + 9 < 2 ^ 64"
  shows "\<exists>e d d'. steps enc7 (Ppmd7z_RangeEnc_Init pe\<lparr>eStream := []\<rparr>) xs = Some e \<and>
    Ppmd7z_RangeDec_Init (pd\<lparr>dStream := eStream (Ppmd7z_RangeEnc_FlushData e) @ rest\<rparr>) = (True, d) \<and>
    steps dec7 d xs = Some d' \<and> dStream d' = rest \<and> Ppmd7z_RangeDec_IsFinishedOK d'"
proof -
  let ?e = "Ppmd7z_RangeEnc_Init pe\<lparr>eStream := []\<rparr>"
  let ?init = "\<lambda>B. snd (Ppmd7z_RangeDec_Init (pd\<lparr>dStream := B @ rest\<rparr>))"
  have room: "enc7_room (length xs) ?e"
    using assms(2) by (simp add: enc7_room_def Ppmd7z_RangeEnc_Init_def)
  obtain e d' where e: "steps enc7 ?e xs = Some e" and d': "steps dec7 (?init (flush7 e)) xs = Some d'"
    and sync: "sync7 rest (flush7 e) e d'"
    using rc7.run_roundtrip [OF good7_init room assms(1), of rest ?init] Init_sync7(2) by blast
  obtain g: "good7 e" "enc7_room 0 e"
    using rc7.enc_run_total [OF good7_init room assms(1)] e by auto
  have "contains7 (flush7 e) ?e"
    by (rule rc7.enc_run_contains [OF good7_init room assms(1) e flush7_contains [OF g]])
  then have "fst (Ppmd7z_RangeDec_Init (pd\<lparr>dStream := flush7 e @ rest\<rparr>))" by (rule Init_sync7(1))
  moreover have "dStream d' = rest" "dCode d' = 0"
    using sync flush7_correct [OF g] by (simp_all add: sync7_def unat_eq_zero)
  ultimately show ?thesis
    using e d' by (auto simp: flush7_def Ppmd7z_RangeDec_IsFinishedOK_def prod_eq_iff)
qed

theorem range_coder7_roundtrip_witness:
  "list_all ok7 [Interval 3 2 10, Bit False 100, Bit True 16383, Interval 0 1 65536] \<and>
   (\<exists>e d d'. steps enc7 (\<lparr>eLow = 0, eRange = 0xFFFFFFFF, eCache = 0, eCacheSize = 1, eStream = []\<rparr>)
       [Interval 3 2 10, Bit False 100, Bit True 16383, Interval 0 1 65536] = Some e \<and>
    Ppmd7z_RangeDec_Init (\<lparr>dRange = 0, dCode = 0,
       dStream = eStream (Ppmd7z_RangeEnc_FlushData e) @ [7]\<rparr>) = (True, d) \<and>
    steps dec7 d [Interval 3 2 10, Bit False 100, Bit True 16383, Interval 0 1 65536] = Some d' \<and>
    dStream d' = [7] \<and> Ppmd7z_RangeDec_IsFinishedOK d')"
proof -
  let ?xs = "[Interval 3 2 10, Bit False 100, Bit True 16383, Interval 0 1 65536]"
  have ok: "list_all ok7 ?xs" by simp
  show ?thesis
    using ok range_coder7_roundtrip [OF ok, where pe =
      "\<lparr>eLow = 0, eRange = 0, eCache = 0, eCacheSize = 1, eStream = []\<rparr>" and
      pd = "\<lparr>dRange = 0, dCode = 0, dStream = []\<rparr>" and rest = "[7]"]
    by (simp add: Ppmd7z_RangeEnc_Init_def)
qed

end
