(* ===== verification/Ppmd7_Codec.thy ===== *)
theory Ppmd7_Codec
  imports Ppmd7_Model Ppmd_Codec Ppmd7_Range
begin

text \<open>
  \<^verbatim>\<open>Ppmd7_EncodeSymbol\<close> and \<^verbatim>\<open>Ppmd7_DecodeSymbol\<close> (\<^verbatim>\<open>src/lib/ppmd/Ppmd7Enc.c\<close>,
  \<^verbatim>\<open>Ppmd7Dec.c\<close>).  The encoder takes the coding operation as its argument: with \<open>enc7\<close> it is
  the C function, with \<open>log_decision\<close> it yields the list of decisions of the symbol.  The
  decoder follows those decisions under the well-formedness \<open>wf7\<close> of the contexts it meets.
\<close>

section \<open>The encoder\<close>

text \<open>\<^verbatim>\<open>do { OrderFall++; if (!Suffix) return; MinContext = Suffix } while (NumStats == numMasked)\<close>;
  \<open>False\<close>: there is no suffix left.\<close>

partial_function (option) Climb7 :: "UInt32 \<Rightarrow> CPpmd7 \<Rightarrow> (bool \<times> CPpmd7) option" where
  "Climb7 numMasked p =
     (let p = p\<lparr>OrderFall := OrderFall p + 1\<rparr>
      in if Suffix (mem p) (MinContext p) = 0 then Some (False, p)
         else let p = p\<lparr>MinContext := SUFFIX (mem p) (MinContext p)\<rparr>
              in if ucast (NumStats7 (mem p) (MinContext p)) = numMasked then Climb7 numMasked p
                 else Some (True, p))"

text \<open>The \<^verbatim>\<open>for (;;)\<close> after an escape.  A context without states would make the inner loop run
  \<open>2^32\<close> times (\<open>None\<close>).\<close>

partial_function (option) Enc_escape7 ::
    "('e \<Rightarrow> decision \<Rightarrow> 'e option) \<Rightarrow> int \<Rightarrow> CPpmd7 \<Rightarrow> 'e \<Rightarrow> (Byte \<Rightarrow> Byte) \<Rightarrow> ('e \<times> CPpmd7) option" where
  "Enc_escape7 enc ch p rc charMask =
     do { let numMasked = ucast (NumStats7 (mem p) (MinContext p));
          (more, p) \<leftarrow> Climb7 numMasked p;
          if \<not> more then Some (rc, p)
          else if NumStats7 (mem p) (MinContext p) = 0 then None
          else
            (let (see, escFreq, p) = Ppmd7_MakeEscFreq p numMasked; m = mem p; c = MinContext p
             in case Masked_enc (unat (NumStats7 m c)) m (STATS m c) 0 charMask ch of
                  Inl (s1, low, sm) \<Rightarrow>
                    do { rc \<leftarrow> enc rc (Interval low (ucast (sFreq m s1)) (sm + escFreq));
                         let p = put_see p see (Ppmd_See_Update (get_see p see));
                         p \<leftarrow> Ppmd7_Update2 (p\<lparr>FoundState := s1\<rparr>);
                         Some (rc, p) }
                | Inr (sm, charMask) \<Rightarrow>
                    do { rc \<leftarrow> enc rc (Interval sm escFreq (sm + escFreq));
                         let v = get_see p see;
                         let p = put_see p see (v\<lparr>Summ := Summ v + ucast (sm + escFreq)\<rparr>);
                         Enc_escape7 enc ch p rc charMask }) }"

definition Encode7 ::
    "('e \<Rightarrow> decision \<Rightarrow> 'e option) \<Rightarrow> CPpmd7 \<Rightarrow> 'e \<Rightarrow> int \<Rightarrow> ('e \<times> CPpmd7) option" where
  "Encode7 enc p rc ch =
     (let m = mem p; c = MinContext p; n = unat (NumStats7 m c); SF = ucast (SummFreq m c) in
      if n = 0 then None
      else if n \<noteq> 1
      then let s = STATS m c
           in if int (unat (sSymbol m s)) = ch
              then do { rc \<leftarrow> enc rc (Interval 0 (ucast (sFreq m s)) SF);
                        p \<leftarrow> Ppmd7_Update1_0 (p\<lparr>FoundState := s\<rparr>);
                        Some (rc, p) }
              else let p = p\<lparr>PrevSuccess := 0\<rparr>
                   in case Scan_enc (n - 1) m s (ucast (sFreq m s)) ch of
                        Inl (s, sm) \<Rightarrow>
                          do { rc \<leftarrow> enc rc (Interval sm (ucast (sFreq m s)) SF);
                               p \<leftarrow> Ppmd7_Update1 (p\<lparr>FoundState := s\<rparr>);
                               Some (rc, p) }
                      | Inr (s, sm) \<Rightarrow>
                          do { let p = p\<lparr>HiBitsFlag := ucast (HB2Flag p ! unat (sSymbol m (FoundState p)))\<rparr>;
                               let charMask = Mask_down n m s PPMD_SetAllBitsIn256Bytes;
                               rc \<leftarrow> enc rc (Interval sm (SF - sm) SF);
                               Enc_escape7 enc ch p rc charMask }
      else let (i, k, p) = Ppmd7_GetBinSumm p; prob = BinSumm p i k; s = ONE_STATE c
           in if int (unat (sSymbol m s)) = ch
              then do { rc \<leftarrow> enc rc (Bit False (ucast prob));
                        let p = put_bin p i k (PPMD_UPDATE_PROB_0 prob);
                        p \<leftarrow> Ppmd7_UpdateBin (p\<lparr>FoundState := s\<rparr>);
                        Some (rc, p) }
              else do { rc \<leftarrow> enc rc (Bit True (ucast prob));
                        let prob = PPMD_UPDATE_PROB_1 prob;
                        let p = put_bin p i k prob;
                        let p = p\<lparr>InitEsc := ucast (PPMD7_kExpEscape ! unat (drop_bit 10 prob))\<rparr>;
                        let charMask = PPMD_SetAllBitsIn256Bytes(sSymbol m s := 0);
                        Enc_escape7 enc ch (p\<lparr>PrevSuccess := 0\<rparr>) rc charMask })"

definition Ppmd7_EncodeSymbol ::
    "CPpmd7 \<Rightarrow> CPpmd7z_RangeEnc \<Rightarrow> int \<Rightarrow> (CPpmd7z_RangeEnc \<times> CPpmd7) option" where
  "Ppmd7_EncodeSymbol p rc ch = Encode7 enc7 p rc ch"

section \<open>The decoder\<close>

partial_function (option) Dec_escape7 ::
    "CPpmd7 \<Rightarrow> CPpmd7z_RangeDec \<Rightarrow> (Byte \<Rightarrow> Byte) \<Rightarrow> (int \<times> CPpmd7z_RangeDec \<times> CPpmd7) option" where
  "Dec_escape7 p rc charMask =
     do { let numMasked = ucast (NumStats7 (mem p) (MinContext p));
          (more, p) \<leftarrow> Climb7 numMasked p;
          if \<not> more then Some (- 1, rc, p)
          else do {
            let m = mem p;
            let num = ucast (NumStats7 m (MinContext p)) - numMasked;
            (ps, hiCnt) \<leftarrow> Collect_dec m (lim7 p) (unat num) charMask (STATS m (MinContext p)) [] 0;
            let (see, freqSum, p) = Ppmd7_MakeEscFreq p numMasked;
            let freqSum = freqSum + hiCnt;
            (count, rc) \<leftarrow> Range_GetThreshold rc freqSum;
            if count < hiCnt
            then do { (s, hiCnt) \<leftarrow> Pick_dec m ps 0 count;
                      let rc = Range_Decode rc (hiCnt - ucast (sFreq m s)) (ucast (sFreq m s));
                      let p = put_see p see (Ppmd_See_Update (get_see p see));
                      p \<leftarrow> Ppmd7_Update2 (p\<lparr>FoundState := s\<rparr>);
                      Some (int (unat (sSymbol m s)), rc, p) }
            else if freqSum \<le> count then Some (- 2, rc, p)
            else do { let rc = Range_Decode rc hiCnt (freqSum - hiCnt);
                      let v = get_see p see;
                      let p = put_see p see (v\<lparr>Summ := Summ v + ucast freqSum\<rparr>);
                      if ps = [] then None else Dec_escape7 p rc (Mask_list m ps charMask) } } }"

definition Ppmd7_DecodeSymbol ::
    "CPpmd7 \<Rightarrow> CPpmd7z_RangeDec \<Rightarrow> (int \<times> CPpmd7z_RangeDec \<times> CPpmd7) option" where
  "Ppmd7_DecodeSymbol p rc =
     (let m = mem p; c = MinContext p; n = unat (NumStats7 m c); SF = ucast (SummFreq m c) in
      if n = 0 then None
      else if n \<noteq> 1
      then let s = STATS m c; hiCnt = ucast (sFreq m s)
           in do { (count, rc) \<leftarrow> Range_GetThreshold rc SF;
                   if count < hiCnt
                   then do { let rc = Range_Decode rc 0 (ucast (sFreq m s));
                             p \<leftarrow> Ppmd7_Update1_0 (p\<lparr>FoundState := s\<rparr>);
                             Some (int (unat (sSymbol m s)), rc, p) }
                   else let p = p\<lparr>PrevSuccess := 0\<rparr>
                        in case Scan_dec (n - 1) m s hiCnt count of
                             Inl (s, hiCnt) \<Rightarrow>
                               do { let rc = Range_Decode rc (hiCnt - ucast (sFreq m s)) (ucast (sFreq m s));
                                    p \<leftarrow> Ppmd7_Update1 (p\<lparr>FoundState := s\<rparr>);
                                    Some (int (unat (sSymbol m s)), rc, p) }
                           | Inr (s, hiCnt) \<Rightarrow>
                               if SF \<le> count then Some (- 2, rc, p)
                               else let p = p\<lparr>HiBitsFlag := ucast (HB2Flag p ! unat (sSymbol m (FoundState p)))\<rparr>;
                                        rc = Range_Decode rc hiCnt (SF - hiCnt)
                                    in Dec_escape7 p rc (Mask_down n m s PPMD_SetAllBitsIn256Bytes) }
      else let (i, k, p) = Ppmd7_GetBinSumm p; prob = BinSumm p i k; s = ONE_STATE c;
               (b, rc) = Range_DecodeBit rc (ucast prob)
           in if b = 0
              then do { let p = put_bin p i k (PPMD_UPDATE_PROB_0 prob);
                        p \<leftarrow> Ppmd7_UpdateBin (p\<lparr>FoundState := s\<rparr>);
                        Some (int (unat (sSymbol m s)), rc, p) }
              else let prob = PPMD_UPDATE_PROB_1 prob;
                       p = put_bin p i k prob;
                       p = p\<lparr>InitEsc := ucast (PPMD7_kExpEscape ! unat (drop_bit 10 prob))\<rparr>
                   in Dec_escape7 (p\<lparr>PrevSuccess := 0\<rparr>) rc
                        (PPMD_SetAllBitsIn256Bytes(sSymbol m s := 0)))"

section \<open>Well-formed contexts\<close>

definition ctx_symbols7 :: "arena \<Rightarrow> nat \<Rightarrow> Byte list" where
  "ctx_symbols7 m c =
     (let n = unat (NumStats7 m c)
      in if n = 1 then [sSymbol m (ONE_STATE c)] else symbols m (STATS m c) n)"

text \<open>A context: its states lie in the allocation, their symbols are distinct, the frequencies
  are positive and at most 128, and \<open>SummFreq\<close> leaves room for the escape.\<close>

definition ctx_wf7 :: "arena \<Rightarrow> nat \<Rightarrow> nat \<Rightarrow> bool" where
  "ctx_wf7 m lim c \<longleftrightarrow>
     (let n = unat (NumStats7 m c); s = STATS m c in
      1 \<le> n \<and> n \<le> 256 \<and>
      (if n = 1 then 0 < unat (sFreq m (ONE_STATE c)) \<and> unat (sFreq m (ONE_STATE c)) \<le> 128
       else s + 6 * n \<le> lim \<and> distinct (symbols m s n) \<and>
            (\<forall>x \<in> set (states s n). 0 < unat (sFreq m x) \<and> unat (sFreq m x) \<le> 128) \<and>
            fsum m (states s n) < unat (SummFreq m c)))"

text \<open>The suffix chain of a context ends at a root with all 256 symbols, and every context's
  symbols occur in its suffix.\<close>

inductive chain7 :: "arena \<Rightarrow> nat \<Rightarrow> nat \<Rightarrow> bool" for m lim where
  root: "Suffix m c = 0 \<Longrightarrow> ctx_wf7 m lim c \<Longrightarrow> NumStats7 m c = 256 \<Longrightarrow> chain7 m lim c"
| link: "Suffix m c \<noteq> 0 \<Longrightarrow> ctx_wf7 m lim c \<Longrightarrow>
     set (ctx_symbols7 m c) \<subseteq> set (ctx_symbols7 m (SUFFIX m c)) \<Longrightarrow>
     chain7 m lim (SUFFIX m c) \<Longrightarrow> chain7 m lim c"

inductive_cases chain7_rootE: "chain7 m lim c"

definition tables7 :: "CPpmd7 \<Rightarrow> bool" where
  "tables7 p \<longleftrightarrow> tables_ok p \<and> NS2Indx p = [0, 1, 2] @ ns2indx_loop 2 253 3 1 \<and>
     NS2BSIndx p = [0, 2] @ replicate 9 4 @ replicate 245 6 \<and>
     HB2Flag p = replicate 0x40 0 @ replicate 0xC0 8"

definition see_ok :: "'a ppmd_scheme \<Rightarrow> bool" where
  "see_ok p \<longleftrightarrow> (\<forall>i < 25. \<forall>k < 16. 3 \<le> unat (Shift (See p i k)))"

definition bin_ok :: "'a ppmd_scheme \<Rightarrow> bool" where
  "bin_ok p \<longleftrightarrow> (\<forall>i < 128. \<forall>k < 64. 0 < unat (BinSumm p i k) \<and> unat (BinSumm p i k) < 2 ^ 14)"

definition wf7 :: "CPpmd7 \<Rightarrow> bool" where
  "wf7 p \<longleftrightarrow> chain7 (mem p) (lim7 p) (MinContext p) \<and> tables7 p \<and> see_ok p \<and> bin_ok p \<and>
     unat (PrevSuccess p) \<le> 1"

text \<open>In the escape loop: the masked symbols are those of the current context.\<close>

definition esc_wf7 :: "CPpmd7 \<Rightarrow> Byte set \<Rightarrow> bool" where
  "esc_wf7 p S \<longleftrightarrow> chain7 (mem p) (lim7 p) (MinContext p) \<and> tables7 p \<and> see_ok p \<and>
     (HiBitsFlag p = 0 \<or> HiBitsFlag p = 8) \<and> S = set (ctx_symbols7 (mem p) (MinContext p))"

lemma chain7_ctx: "chain7 m lim c \<Longrightarrow> ctx_wf7 m lim c"
  by (erule chain7.cases) auto

lemma ctx_wf7_num: "ctx_wf7 m lim c \<Longrightarrow> 1 \<le> unat (NumStats7 m c) \<and> unat (NumStats7 m c) \<le> 256"
  by (simp add: ctx_wf7_def Let_def)

lemma ctx_symbols7_length [simp]: "length (ctx_symbols7 m c) = unat (NumStats7 m c)"
  by (simp add: ctx_symbols7_def symbols_def Let_def)

lemma ctx_symbols7_distinct: "ctx_wf7 m lim c \<Longrightarrow> distinct (ctx_symbols7 m c)"
  by (auto simp: ctx_wf7_def ctx_symbols7_def Let_def)

lemma card_ctx_symbols7: "ctx_wf7 m lim c \<Longrightarrow> card (set (ctx_symbols7 m c)) = unat (NumStats7 m c)"
  by (simp add: distinct_card ctx_symbols7_distinct)

section \<open>Climbing the suffix chain\<close>

lemma Climb7_chain:
  assumes "chain7 m lim c" "mem p = m" "MinContext p = c"
  shows "\<exists>more o' c'. Climb7 k p = Some (more, p\<lparr>OrderFall := o', MinContext := c'\<rparr>) \<and>
    chain7 m lim c' \<and> set (ctx_symbols7 m c) \<subseteq> set (ctx_symbols7 m c') \<and>
    (if more then ucast (NumStats7 m c') \<noteq> k
     else NumStats7 m c' = 256 \<and> (c' = c \<or> ucast (NumStats7 m c') = k))"
  using assms
proof (induction c arbitrary: p rule: chain7.induct)
  case (root c)
  have "Climb7 k p = Some (False, p\<lparr>OrderFall := OrderFall p + 1, MinContext := c\<rparr>)"
    using root by (subst Climb7.simps) (cases p, simp add: Let_def)
  then show ?case using root
    by (intro exI [of _ False] exI [of _ "OrderFall p + 1"] exI [of _ c]) (auto intro: chain7.root)
next
  case (link c)
  let ?p = "p\<lparr>OrderFall := OrderFall p + 1, MinContext := SUFFIX m c\<rparr>"
  have step: "Climb7 k p = (if ucast (NumStats7 m (SUFFIX m c)) = k then Climb7 k ?p else Some (True, ?p))"
    using link by (subst Climb7.simps) (simp add: Let_def)
  show ?case
  proof (cases "ucast (NumStats7 m (SUFFIX m c)) = k")
    case False
    then show ?thesis using step link by auto
  next
    case True
    obtain more o' c' where 1: "Climb7 k ?p = Some (more, ?p\<lparr>OrderFall := o', MinContext := c'\<rparr>)"
      and 2: "chain7 m lim c'" "set (ctx_symbols7 m (SUFFIX m c)) \<subseteq> set (ctx_symbols7 m c')"
      "if more then ucast (NumStats7 m c') \<noteq> k
       else NumStats7 m c' = 256 \<and> (c' = SUFFIX m c \<or> ucast (NumStats7 m c') = k)"
      using link.IH [of ?p] link.prems by auto
    have eq: "?p\<lparr>OrderFall := o', MinContext := c'\<rparr> = p\<lparr>OrderFall := o', MinContext := c'\<rparr>"
      by (cases p) simp
    from 2 True link.hyps(3) show ?thesis
      using step 1 unfolding eq by (intro exI [of _ more] exI [of _ o'] exI [of _ c']) (auto split: if_splits)
  qed
qed

section \<open>Array indices\<close>

lemma NS2Indx7_bound:
  "list_all (\<lambda>b. unat b < 25) ([0, 1, 2] @ ns2indx_loop 2 253 3 1) \<and>
   length ([0, 1, 2] @ ns2indx_loop 2 253 3 1 :: Byte list) = 256"
  by code_simp

lemma NS2Indx7_nth: "tables7 p \<Longrightarrow> j < 256 \<Longrightarrow> unat (NS2Indx p ! j) < 25"
  using NS2Indx7_bound unfolding tables7_def list_all_length by metis

lemma HB2Flag7_nth:
  assumes "tables7 p"
  shows "(ucast (HB2Flag p ! unat (b :: Byte)) :: UInt32) = 0 \<or>
    (ucast (HB2Flag p ! unat b) :: UInt32) = 8"
proof -
  have "unat b < 256" by (rule unat_lt8)
  then have "HB2Flag p ! unat b \<in> set (HB2Flag p)"
    using assms by (intro nth_mem) (simp add: tables7_def)
  moreover have "set (HB2Flag p) \<subseteq> {0, 8}" using assms by (auto simp: tables7_def)
  ultimately have "HB2Flag p ! unat b \<in> {0, 8}" by blast
  then show ?thesis by auto
qed

lemma NS2BSIndx7_nth:
  assumes "tables7 p" "j < 256"
  shows "unat (NS2BSIndx p ! j) \<le> 6"
proof -
  have "NS2BSIndx p ! j \<in> set (NS2BSIndx p)"
    using assms by (intro nth_mem) (simp add: tables7_def)
  moreover have "set (NS2BSIndx p) \<subseteq> {0, 2, 4, 6}" using assms by (auto simp: tables7_def)
  ultimately have "NS2BSIndx p ! j \<in> {0, 2, 4, 6}" by blast
  then show ?thesis by auto
qed

lemma see_index7_bounds:
  assumes "tables7 p" "HiBitsFlag p = 0 \<or> HiBitsFlag p = 8" "see_index7 p k = (i, j)"
    and "unat k < unat (NumStats7 (mem p) (MinContext p))"
      "unat (NumStats7 (mem p) (MinContext p)) \<le> 256"
  shows "i < 25 \<and> j < 16"
proof -
  let ?n = "ucast (NumStats7 (mem p) (MinContext p)) :: UInt32"
  have nm: "unat (?n - k) = unat (NumStats7 (mem p) (MinContext p)) - unat k"
    using assms(4) by (subst unat_sub_le) simp_all
  have "unat (NS2Indx p ! (unat (?n - k) - 1)) < 25"
    using assms(4,5) nm by (intro NS2Indx7_nth [OF assms(1)]) simp
  then have "i < 25" using assms(3) by (auto simp: see_index7_def Let_def)
  moreover have "unat (of_bool A + 2 * of_bool B + 4 * of_bool C + HiBitsFlag p) < 16" for A B C
    using assms(2) by (cases A; cases B; cases C) auto
  then have "j < 16" using assms(3) by (auto simp: see_index7_def Let_def)
  ultimately show ?thesis ..
qed

lemma bin_index7_bounds:
  assumes "tables7 p" "unat (PrevSuccess p) \<le> 1" "Ppmd7_GetBinSumm p = (i, k, p')"
    and "chain7 (mem p) (lim7 p) (MinContext p)" "NumStats7 (mem p) (MinContext p) = 1"
  shows "i < 128 \<and> k < 64 \<and> (HiBitsFlag p' = 0 \<or> HiBitsFlag p' = 8)"
proof -
  let ?m = "mem p" and ?c = "MinContext p"
  have wfc: "ctx_wf7 ?m (lim7 p) ?c" by (rule chain7_ctx [OF assms(4)])
  have sufx: "ctx_wf7 ?m (lim7 p) (SUFFIX ?m ?c)"
    using assms(4,5) by cases (auto intro: chain7_ctx)
  let ?h = "ucast (HB2Flag p ! unat (sSymbol ?m (FoundState p))) :: UInt32"
  let ?b = "ucast (NS2BSIndx p ! (unat (NumStats7 ?m (SUFFIX ?m ?c)) - 1)) :: UInt32"
  let ?g = "ucast (HB2Flag p ! unat (sSymbol ?m (ONE_STATE ?c))) :: UInt32"
  let ?r = "drop_bit 26 (RunLength p) AND 0x20"
  have h: "?h = 0 \<or> ?h = 8" and g: "?g = 0 \<or> ?g = 8"
    by (rule HB2Flag7_nth [OF assms(1)])+
  have "unat (NumStats7 ?m (SUFFIX ?m ?c)) - 1 < 256" using ctx_wf7_num [OF sufx] by linarith
  then have b: "unat ?b \<le> 6" using NS2BSIndx7_nth [OF assms(1)] by simp
  have r: "unat ?r \<le> 32"
    using word_and_le1 [of "drop_bit 26 (RunLength p)" "0x20"] by (simp add: word_le_nat_alt)
  have h': "unat ?h \<le> 8" using h by (auto simp del: unat_ucast_Byte)
  have g': "unat (2 * ?g) \<le> 16" using g by (auto simp del: unat_ucast_Byte)
  have "unat (PrevSuccess p + ?b + ?h + 2 * ?g + ?r) \<le> 1 + 6 + 8 + 16 + 32"
    by (intro order_trans [OF unat_add_bound] add_mono assms(2) b h' g' r)
  moreover have "i = unat (sFreq ?m (ONE_STATE ?c)) - 1" "HiBitsFlag p' = ?h"
    "k = unat (PrevSuccess p + ?b + ?h + 2 * ?g + ?r)"
    using assms(3) by (auto simp: Ppmd7_GetBinSumm_def Let_def)
  moreover have "i < 128" using wfc assms(5) calculation(2) by (simp add: ctx_wf7_def Let_def) linarith
  ultimately show ?thesis using h by auto
qed

section \<open>The SEE estimate\<close>

lemma put_see_flags [simp]:
  "HB2Flag (put_see p r v) = HB2Flag p" "HiBitsFlag (put_see p r v) = HiBitsFlag p"
  by (cases r; simp)+

lemma lim7_put_see [simp]: "lim7 (put_see p r v) = lim7 p"
  by (simp add: lim7_def arena_top_def)

lemma tables7_put_see [simp]: "tables7 (put_see p r v) = tables7 p"
  by (simp add: tables7_def tables_ok_def)

lemma see_ok_put_see: "see_ok p \<Longrightarrow> Shift v = Shift (get_see p r) \<Longrightarrow> see_ok (put_see p r v)"
  by (cases r) (auto simp: see_ok_def)

lemma esc_wf7_put_see:
  "esc_wf7 p S \<Longrightarrow> Shift v = Shift (get_see p r) \<Longrightarrow> esc_wf7 (put_see p r v) S"
  by (simp add: esc_wf7_def see_ok_put_see)

text \<open>The escape frequency is at least 1 and less than \<open>2^13\<close>.\<close>

lemma MakeEscFreq7:
  assumes "esc_wf7 p S" "unat k < unat (NumStats7 (mem p) (MinContext p))"
    and "Ppmd7_MakeEscFreq p k = (see, esc, q)"
  shows "1 \<le> unat esc \<and> unat esc < 2 ^ 13 \<and> esc_wf7 q S \<and> mem q = mem p \<and>
    MinContext q = MinContext p \<and> lim7 q = lim7 p"
proof (cases "NumStats7 (mem p) (MinContext p) = 256")
  case True
  then show ?thesis using assms by (auto simp: Ppmd7_MakeEscFreq_def)
next
  case False
  obtain i j where ij: "see_index7 p k = (i, j)" by force
  have n: "unat (NumStats7 (mem p) (MinContext p)) \<le> 256"
    using ctx_wf7_num [OF chain7_ctx] assms(1) unfolding esc_wf7_def by blast
  have b: "i < 25 \<and> j < 16"
    using see_index7_bounds [OF _ _ ij assms(2) n] assms(1) by (auto simp: esc_wf7_def)
  let ?see = "See p i j"
  let ?r = "drop_bit (unat (Shift ?see)) (Summ ?see)"
  have "3 \<le> unat (Shift ?see)" using assms(1) b by (simp add: esc_wf7_def see_ok_def)
  then have r: "unat ?r < 2 ^ 13" by (rule drop_shift3)
  have e: "see = SeeRef i j" "esc = ucast ?r + of_bool (?r = 0)"
    "q = put_see p (SeeRef i j) (?see\<lparr>Summ := Summ ?see - ?r\<rparr>)"
    using assms(3) False ij by (auto simp: Ppmd7_MakeEscFreq_def Let_def)
  have "unat esc = (if ?r = 0 then 1 else unat ?r)"
    unfolding e(2) by simp
  then have "1 \<le> unat esc" "unat esc < 2 ^ 13"
    using r by (simp_all add: unat_eq_zero Suc_leI unat_gt_0)
  moreover have "esc_wf7 q S" unfolding e(3) by (rule esc_wf7_put_see [OF assms(1)]) simp
  ultimately show ?thesis unfolding e(3) by (simp del: put_see.simps)
qed

section \<open>The decisions of one symbol\<close>

definition trace7 :: "CPpmd7 \<Rightarrow> int \<Rightarrow> (decision list \<times> CPpmd7) option" where
  "trace7 p ch = Encode7 log_decision p [] ch"

lemmas Enc_escape7_induct = Enc_escape7.raw_induct [rotated, consumes 1, case_names step]

lemma Enc_escape7_trace:
  "Enc_escape7 e0 ch p acc cm = Some y \<Longrightarrow> e0 = log_decision \<Longrightarrow>
   \<exists>ds. fst y = acc @ ds \<and> (\<forall>(enc :: 'e \<Rightarrow> decision \<Rightarrow> 'e option) rc.
     Enc_escape7 enc ch p rc cm = map_option (\<lambda>rc'. (rc', snd y)) (steps enc rc ds))"
proof (induction e0 ch p acc cm y rule: Enc_escape7_induct)
  case (step f enc0 ch p acc cm y)
  let ?k = "ucast (NumStats7 (mem p) (MinContext p)) :: UInt32"
  from step obtain more q where cl: "Climb7 ?k p = Some (more, q)"
    by (auto simp: Let_def split: bind_splits)
  show ?case
  proof (cases more)
    case False
    have "y = (acc, q)" using False step(2) cl by (simp add: Let_def)
    moreover have "Enc_escape7 enc ch p rc cm = Some (rc, q)" for enc :: "'e \<Rightarrow> decision \<Rightarrow> 'e option" and rc
      using cl False by (subst Enc_escape7.simps) (simp add: Let_def)
    ultimately show ?thesis by simp
  next
    case True
    have nz: "NumStats7 (mem q) (MinContext q) \<noteq> 0"
      using step(2) cl True by (auto simp: Let_def split: if_splits)
    obtain see esc q2 where mk: "Ppmd7_MakeEscFreq q ?k = (see, esc, q2)"
      by (metis surj_pair)
    let ?m = "mem q2" and ?c = "MinContext q2"
    let ?M = "Masked_enc (unat (NumStats7 ?m ?c)) ?m (STATS ?m ?c) 0 cm ch"
    show ?thesis
    proof (cases ?M)
      case (Inl a)
      then obtain s1 low sm where a: "?M = Inl (s1, low, sm)" by (cases a) auto
      let ?d = "Interval low (ucast (sFreq ?m s1)) (sm + esc)"
      let ?q = "put_see q2 see (Ppmd_See_Update (get_see q2 see))\<lparr>FoundState := s1\<rparr>"
      obtain q3 where q3: "Ppmd7_Update2 ?q = Some q3" "y = (acc @ [?d], q3)"
        using step(2,3) cl True nz mk a by (auto simp: Let_def log_decision_def split: bind_splits)
      show ?thesis
      proof (intro exI [of _ "[?d]"] conjI allI)
        fix enc :: "'e \<Rightarrow> decision \<Rightarrow> 'e option" and rc
        show "Enc_escape7 enc ch p rc cm = map_option (\<lambda>rc'. (rc', snd y)) (steps enc rc [?d])"
          using cl True nz mk a q3 by (subst Enc_escape7.simps) (cases "enc rc ?d"; simp add: Let_def)
      qed (simp add: q3)
    next
      case (Inr b)
      then obtain sm cm' where b: "?M = Inr (sm, cm')" by (cases b) auto
      let ?d = "Interval sm esc (sm + esc)" and ?v = "get_see q2 see"
      let ?q = "put_see q2 see (?v\<lparr>Summ := Summ ?v + ucast (sm + esc)\<rparr>)"
      have "f enc0 ch ?q (acc @ [?d]) cm' = Some y"
        using step(2,3) cl True nz mk b by (auto simp: Let_def log_decision_def)
      from step(1) [OF this step(3)] obtain ds where ds: "fst y = (acc @ [?d]) @ ds"
        "\<forall>(enc :: 'e \<Rightarrow> decision \<Rightarrow> 'e option) rc.
           Enc_escape7 enc ch ?q rc cm' = map_option (\<lambda>rc'. (rc', snd y)) (steps enc rc ds)"
        by blast
      show ?thesis
      proof (intro exI [of _ "?d # ds"] conjI allI)
        fix enc :: "'e \<Rightarrow> decision \<Rightarrow> 'e option" and rc
        show "Enc_escape7 enc ch p rc cm = map_option (\<lambda>rc'. (rc', snd y)) (steps enc rc (?d # ds))"
          using cl True nz mk b ds(2)
          by (subst Enc_escape7.simps) (cases "enc rc ?d"; simp add: Let_def)
      qed (simp add: ds(1))
    qed
  qed
qed

lemma Enc_escape7_from_trace:
  fixes enc :: "'e \<Rightarrow> decision \<Rightarrow> 'e option"
  assumes "Enc_escape7 log_decision ch p acc cm = Some (acc @ ds, p')"
  shows "Enc_escape7 enc ch p rc cm = map_option (\<lambda>rc'. (rc', p')) (steps enc rc ds)"
  using Enc_escape7_trace [OF assms refl, where ?'e = 'e] by simp

lemma Enc_escape7_accE:
  assumes "Enc_escape7 log_decision ch p acc cm = Some (ds', p')"
  obtains ds where "ds' = acc @ ds"
    "Enc_escape7 log_decision ch p acc cm = Some (acc @ ds, p')"
  using Enc_escape7_trace [OF assms refl] assms by auto

lemma Encode7_trace:
  assumes "trace7 p ch = Some (ds, p')"
  shows "Encode7 enc p rc ch = map_option (\<lambda>rc'. (rc', p')) (steps enc rc ds)"
proof -
  let ?m = "mem p" and ?c = "MinContext p"
  let ?n = "unat (NumStats7 ?m ?c)" and ?s = "STATS ?m ?c"
  have n: "?n \<noteq> 0"
  proof
    assume "?n = 0"
    then show False using assms by (simp add: trace7_def Encode7_def Let_def)
  qed
  show ?thesis
  proof (cases "?n = 1")
    case True
    obtain i k q where g: "Ppmd7_GetBinSumm p = (i, k, q)" by (metis surj_pair)
    show ?thesis
    proof (cases "int (unat (sSymbol ?m (ONE_STATE ?c))) = ch")
      case hit: True
      then show ?thesis using assms True g
        by (auto simp: trace7_def Encode7_def Let_def log_decision_def split: bind_splits)
    next
      case False
      from assms True g False obtain cm q2 where
        e: "Enc_escape7 log_decision ch q2 [Bit True (ucast (BinSumm q i k))] cm = Some (ds, p')"
        and q: "\<And>(enc :: 'a \<Rightarrow> decision \<Rightarrow> 'a option) rc. Encode7 enc p rc ch =
          Option.bind (enc rc (Bit True (ucast (BinSumm q i k)))) (\<lambda>rc. Enc_escape7 enc ch q2 rc cm)"
        by (simp add: trace7_def Encode7_def Let_def log_decision_def)
      obtain ds2 where ds: "ds = [Bit True (ucast (BinSumm q i k))] @ ds2"
        and e2: "Enc_escape7 log_decision ch q2 [Bit True (ucast (BinSumm q i k))] cm =
           Some ([Bit True (ucast (BinSumm q i k))] @ ds2, p')"
        using Enc_escape7_accE [OF e] by metis
      show ?thesis using ds Enc_escape7_from_trace [OF e2] q
        by (cases "enc rc (Bit True (ucast (BinSumm q i k)))") auto
    qed
  next
    case False
    let ?SF = "ucast (SummFreq ?m ?c) :: UInt32"
    let ?S = "Scan_enc (?n - 1) ?m ?s (ucast (sFreq ?m ?s)) ch"
    consider (first) "int (unat (sSymbol ?m ?s)) = ch"
      | (found) s sm where "int (unat (sSymbol ?m ?s)) \<noteq> ch" "?S = Inl (s, sm)"
      | (esc) s sm where "int (unat (sSymbol ?m ?s)) \<noteq> ch" "?S = Inr (s, sm)"
      by (metis obj_sumE surj_pair)
    then show ?thesis
    proof cases
      case first
      then show ?thesis using assms False n
        by (auto simp: trace7_def Encode7_def Let_def log_decision_def split: bind_splits)
    next
      case found
      then show ?thesis using assms False n
        by (auto simp: trace7_def Encode7_def Let_def log_decision_def split: bind_splits)
    next
      case esc
      let ?d = "Interval sm (?SF - sm) ?SF"
      from assms False n esc obtain cm q2 where
        e: "Enc_escape7 log_decision ch q2 [?d] cm = Some (ds, p')"
        and q: "\<And>(enc :: 'a \<Rightarrow> decision \<Rightarrow> 'a option) rc. Encode7 enc p rc ch =
          Option.bind (enc rc ?d) (\<lambda>rc. Enc_escape7 enc ch q2 rc cm)"
        by (simp add: trace7_def Encode7_def Let_def log_decision_def)
      obtain ds2 where ds: "ds = [?d] @ ds2"
        and e2: "Enc_escape7 log_decision ch q2 [?d] cm = Some ([?d] @ ds2, p')"
        using Enc_escape7_accE [OF e] by metis
      show ?thesis using ds Enc_escape7_from_trace [OF e2] q by (cases "enc rc ?d") auto
    qed
  qed
qed

section \<open>The decoder follows\<close>

lemma Climb7_esc:
  assumes "esc_wf7 p S"
  shows "\<exists>more q. Climb7 (ucast (NumStats7 (mem p) (MinContext p))) p = Some (more, q) \<and>
    mem q = mem p \<and> lim7 q = lim7 p \<and>
    (if more then esc_wf7 q (set (ctx_symbols7 (mem q) (MinContext q))) \<and>
         S \<subseteq> set (ctx_symbols7 (mem q) (MinContext q)) \<and>
         card S < unat (NumStats7 (mem q) (MinContext q))
     else S = UNIV)"
proof -
  let ?m = "mem p" and ?c = "MinContext p"
  let ?k = "ucast (NumStats7 ?m ?c) :: UInt32"
  have ch: "chain7 ?m (lim7 p) ?c" and S: "S = set (ctx_symbols7 ?m ?c)"
    using assms by (simp_all add: esc_wf7_def)
  obtain more o' c' where 1: "Climb7 ?k p = Some (more, p\<lparr>OrderFall := o', MinContext := c'\<rparr>)"
    and 2: "chain7 ?m (lim7 p) c'" "set (ctx_symbols7 ?m ?c) \<subseteq> set (ctx_symbols7 ?m c')"
    and 3: "if more then ucast (NumStats7 ?m c') \<noteq> ?k
       else NumStats7 ?m c' = 256 \<and> (c' = ?c \<or> ucast (NumStats7 ?m c') = ?k)"
    using Climb7_chain [OF ch refl refl, of ?k] by blast
  have cS: "card S = unat (NumStats7 ?m ?c)"
    unfolding S by (rule card_ctx_symbols7 [OF chain7_ctx [OF ch]])
  have c': "card (set (ctx_symbols7 ?m c')) = unat (NumStats7 ?m c')"
    by (rule card_ctx_symbols7 [OF chain7_ctx [OF 2(1)]])
  have le: "card S \<le> card (set (ctx_symbols7 ?m c'))"
    unfolding S by (rule card_mono [OF _ 2(2)]) simp
  let ?q = "p\<lparr>OrderFall := o', MinContext := c'\<rparr>"
  have lim: "lim7 ?q = lim7 p" by (simp add: lim7_def arena_top_def)
  show ?thesis
  proof (cases more)
    case True
    then have "NumStats7 ?m c' \<noteq> NumStats7 ?m ?c" using 3 by auto
    then have "card S < unat (NumStats7 ?m c')"
      using le cS c' by (simp add: order_less_le word_unat_eq_iff)
    moreover have "esc_wf7 ?q (set (ctx_symbols7 ?m c'))"
      using assms 2(1) lim by (simp add: esc_wf7_def tables7_def tables_ok_def see_ok_def)
    ultimately show ?thesis using 1 2(2) lim S True by auto
  next
    case False
    then have "NumStats7 ?m ?c = 256" using 3 by auto
    then have "card S = 256" using cS by simp
    then have "S = UNIV" by (intro card_subset_eq) (simp_all add: card_Byte_UNIV)
    then show ?thesis using 1 lim False by auto
  qed
qed

lemma round7:
  assumes wf: "esc_wf7 p S"
    and cl: "Climb7 (ucast (NumStats7 (mem p) (MinContext p))) p = Some (True, q)"
    and mk: "Ppmd7_MakeEscFreq q (ucast (NumStats7 (mem p) (MinContext p))) = (see, esc, q2)"
    and m: "m = mem q2" and c: "c = MinContext q2" and n: "n = unat (NumStats7 m c)"
    and s: "s = STATS m c"
  shows "mem q = m \<and> MinContext q = c \<and> n \<noteq> 0 \<and> n \<noteq> 1 \<and> distinct (symbols m s n) \<and>
    s + 6 * n \<le> lim7 q \<and> n \<le> 256 \<and> S \<subseteq> set (symbols m s n) \<and> card S < n \<and>
    1 \<le> unat esc \<and> unat esc < 2 ^ 13 \<and>
    unat (ucast (NumStats7 m c) - (ucast (NumStats7 (mem p) (MinContext p)) :: UInt32)) = n - card S \<and>
    (\<forall>x \<in> set (states s n). 0 < unat (sFreq m x) \<and> unat (sFreq m x) \<le> 128) \<and>
    esc_wf7 q2 (set (symbols m s n))"
proof -
  let ?k = "ucast (NumStats7 (mem p) (MinContext p)) :: UInt32"
  obtain q': "mem q = mem p" "lim7 q = lim7 p"
    and wfq: "esc_wf7 q (set (ctx_symbols7 (mem q) (MinContext q)))"
    and sub: "S \<subseteq> set (ctx_symbols7 (mem q) (MinContext q))"
    and lt: "card S < unat (NumStats7 (mem q) (MinContext q))"
    using Climb7_esc [OF wf] cl by auto
  have cS: "card S = unat (NumStats7 (mem p) (MinContext p))"
    using wf card_ctx_symbols7 [OF chain7_ctx] unfolding esc_wf7_def by blast
  have "unat ?k < unat (NumStats7 (mem q) (MinContext q))" using lt cS by simp
  note esc = MakeEscFreq7 [OF wfq this mk]
  have eq: "mem q = m" "MinContext q = c" "lim7 q2 = lim7 q" using esc m c by auto
  have pos: "1 \<le> card S"
    using cS ctx_wf7_num [OF chain7_ctx] wf unfolding esc_wf7_def by metis
  have lt': "card S < n" using lt eq n by simp
  have n1: "n \<noteq> 0" "n \<noteq> 1" using lt' pos by auto
  have syms: "ctx_symbols7 m c = symbols m s n" using n1 n s by (simp add: ctx_symbols7_def Let_def)
  have "ctx_wf7 m (lim7 q) c" using wfq eq by (auto simp: esc_wf7_def intro: chain7_ctx)
  then have "distinct (symbols m s n)" "s + 6 * n \<le> lim7 q" "n \<le> 256"
    "\<forall>x \<in> set (states s n). 0 < unat (sFreq m x) \<and> unat (sFreq m x) \<le> 128"
    using n1 n s by (simp_all add: ctx_wf7_def Let_def)
  moreover have "unat (ucast (NumStats7 m c) - ?k) = n - card S"
    using lt' cS n by (subst unat_sub_le) simp_all
  ultimately show ?thesis using esc eq n1 lt' sub syms by simp
qed

lemma dec7_IntervalE:
  assumes "dec7 d (Interval start sz tot) = Some d'"
  obtains count d1 where "Range_GetThreshold d tot = Some (count, d1)"
    "unat start \<le> unat count" "unat count < unat start + unat sz" "d' = Range_Decode d1 start sz"
  using assms by (auto split: bind_splits if_splits)

lemma Dec_escape7_follows:
  "Enc_escape7 e0 ch p acc cm = Some y \<Longrightarrow> e0 = log_decision \<Longrightarrow> esc_wf7 p S \<Longrightarrow>
   cm = mask_of S \<Longrightarrow> - 1 \<le> ch \<Longrightarrow> ch \<le> 255 \<Longrightarrow> \<forall>x \<in> S. int (unat x) \<noteq> ch \<Longrightarrow>
   \<exists>ds. fst y = acc @ ds \<and> list_all ok7 ds \<and>
     (\<forall>d d'. steps dec7 d ds = Some d' \<longrightarrow> Dec_escape7 p d cm = Some (ch, d', snd y))"
proof (induction e0 ch p acc cm y arbitrary: S rule: Enc_escape7_induct)
  case (step f enc0 ch p acc cm y)
  note IH = step(1) and body = step(2) and e0 = step(3) and wf = step(4) and cm = step(5)
  let ?k = "ucast (NumStats7 (mem p) (MinContext p)) :: UInt32"
  obtain more q where cl: "Climb7 ?k p = Some (more, q)"
    and cl2: "if more then True else S = UNIV"
    using Climb7_esc [OF wf] by auto
  show ?case
  proof (cases more)
    case False
    then have "ch = - 1" using cl2 step(6-8) all_Bytes by auto
    moreover have "y = (acc, q)" using False body cl by (simp add: Let_def)
    moreover have "Dec_escape7 p d cm = Some (- 1, d, q)" for d
      using cl False by (subst Dec_escape7.simps) (simp add: Let_def)
    ultimately show ?thesis by simp
  next
    case True
    with cl have cl: "Climb7 ?k p = Some (True, q)" by simp
    obtain see esc q2 where mk: "Ppmd7_MakeEscFreq q ?k = (see, esc, q2)"
      by (metis surj_pair)
    define m c where mc: "m = mem q2" "c = MinContext q2"
    define n s where ns: "n = unat (NumStats7 m c)" "s = STATS m c"
    note r = round7 [OF wf cl mk mc ns]
    then have q: "mem q = m" "MinContext q = c" and n1: "n \<noteq> 0" "n \<noteq> 1"
      and M: "distinct (symbols m s n)" "s + 6 * n \<le> lim7 q" "n \<le> 256"
        "S \<subseteq> set (symbols m s n)" "card S < n"
      and esc: "1 \<le> unat esc" "unat esc < 2 ^ 13"
      and num: "unat (ucast (NumStats7 m c) - ?k) = n - card S"
      and fr: "\<forall>x \<in> set (states s n). 0 < unat (sFreq m x) \<and> unat (sFreq m x) \<le> 128"
      and wf2: "esc_wf7 q2 (set (symbols m s n))"
      by blast+
    have nz: "NumStats7 m c \<noteq> 0" using n1 ns(1) by auto
    note bound = unmasked_128 [OF fr M(3), of S]
    let ?M = "Masked_enc n m s 0 cm ch"
    show ?thesis
    proof (cases ?M)
      case (Inl a)
      then obtain s1 low sm where a: "?M = Inl (s1, low, sm)" by (cases a) auto
      let ?f = "ucast (sFreq m s1) :: UInt32"
      let ?d = "Interval low ?f (sm + esc)"
      let ?q = "put_see q2 see (Ppmd_See_Update (get_see q2 see))\<lparr>FoundState := s1\<rparr>"
      note F = Masked_found [OF M a [unfolded cm] step(8)]
      have tot: "unat (sm + esc) = unat sm + unat esc"
        using F bound esc by (subst unat_add_le) auto
      obtain q3 where q3: "Ppmd7_Update2 ?q = Some q3" "y = (acc @ [?d], q3)"
        using body e0 cl mk a q nz
        by (auto simp: Let_def log_decision_def mc ns split: bind_splits)
      have "ok7 ?d" using F fr tot esc bound by auto
      moreover have "Dec_escape7 p d cm = Some (ch, d', snd y)"
        if "steps dec7 d [?d] = Some d'" for d d'
      proof -
        from that have "dec7 d ?d = Some d'" by (auto split: bind_splits)
        then obtain count d1 where th: "Range_GetThreshold d (sm + esc) = Some (count, d1)"
          "unat low \<le> unat count" "unat count < unat low + unat ?f" "d' = Range_Decode d1 low ?f"
          by (rule dec7_IntervalE)
        then obtain hi2 where "Pick_dec m (unmasked m S s n) 0 count = Some (s1, hi2)"
          "hi2 - ?f = low" using F by auto
        moreover have "count < sm" using F th(3) by (simp add: word_less_nat_alt)
        ultimately show ?thesis
          using cl mk q num F th q3 cm mc ns
          by (subst Dec_escape7.simps) (simp add: Let_def add.commute [of esc sm])
      qed
      ultimately show ?thesis using q3 by (intro exI [where x = "[?d]"]) auto
    next
      case (Inr b)
      then obtain sm cm' where b: "?M = Inr (sm, cm')" by (cases b) auto
      let ?d = "Interval sm esc (sm + esc)" and ?v = "get_see q2 see"
      let ?q = "put_see q2 see (?v\<lparr>Summ := Summ ?v + ucast (sm + esc)\<rparr>)"
      note F = Masked_escaped [OF M b [unfolded cm]]
      have tot: "unat (sm + esc) = unat sm + unat esc"
        using F bound esc by (subst unat_add_le) auto
      have rec: "f enc0 ch ?q (acc @ [?d]) cm' = Some y"
        using body e0 cl mk b q nz by (auto simp: Let_def log_decision_def mc ns)
      have wfq: "esc_wf7 ?q (set (symbols m s n))" by (rule esc_wf7_put_see [OF wf2]) simp
      obtain ds where ds: "fst y = (acc @ [?d]) @ ds" "list_all ok7 ds"
        "\<forall>d d'. steps dec7 d ds = Some d' \<longrightarrow> Dec_escape7 ?q d cm' = Some (ch, d', snd y)"
        using IH [OF rec e0 wfq] F step(6,7) by blast
      have "ok7 ?d" using F tot esc bound by auto
      moreover have "Dec_escape7 p d cm = Some (ch, d', snd y)"
        if st: "steps dec7 d (?d # ds) = Some d'" for d d'
      proof -
        from st obtain dm where "dec7 d ?d = Some dm" and dm: "steps dec7 dm ds = Some d'"
          by (auto split: bind_splits simp del: dec7.simps)
        from this(1) obtain count d1 where th: "Range_GetThreshold d (sm + esc) = Some (count, d1)"
          "unat sm \<le> unat count" "unat count < unat sm + unat esc" "dm = Range_Decode d1 sm esc"
          by (rule dec7_IntervalE)
        have "\<not> count < sm" "\<not> sm + esc \<le> count"
          using th tot by (simp_all add: word_less_nat_alt word_le_nat_alt)
        then show ?thesis
          using cl mk q num F th ds(3) dm cm mc ns
          by (subst Dec_escape7.simps) (simp add: Let_def add.commute [of esc sm])
      qed
      ultimately show ?thesis using ds by (intro exI [where x = "?d # ds"]) auto
    qed
  qed
qed

text \<open>The state in which the escape loop starts.\<close>

lemma esc_wf7_start_bin:
  assumes "wf7 p" "NumStats7 (mem p) (MinContext p) = 1" "Ppmd7_GetBinSumm p = (i, k, q)"
  shows "esc_wf7 (put_bin q i k v\<lparr>InitEsc := e\<rparr>\<lparr>PrevSuccess := 0\<rparr>)
    {sSymbol (mem p) (ONE_STATE (MinContext p))} \<and> i < 128 \<and> k < 64 \<and> BinSumm q = BinSumm p"
proof -
  have b: "i < 128 \<and> k < 64 \<and> (HiBitsFlag q = 0 \<or> HiBitsFlag q = 8)"
    using bin_index7_bounds [OF _ _ assms(3)] assms(1,2) by (simp add: wf7_def)
  have "q = p\<lparr>HiBitsFlag := HiBitsFlag q\<rparr>"
    using assms(3) by (auto simp: Ppmd7_GetBinSumm_def Let_def)
  then obtain h where q: "q = p\<lparr>HiBitsFlag := h\<rparr>" by blast
  show ?thesis
    using b assms(1,2) unfolding q
    by (simp add: esc_wf7_def wf7_def put_bin_def tables7_def tables_ok_def see_ok_def
        lim7_def arena_top_def ctx_symbols7_def Let_def)
qed

lemma esc_wf7_start:
  assumes "wf7 p" "n = unat (NumStats7 (mem p) (MinContext p))" "n \<noteq> 1"
  shows "esc_wf7 (p\<lparr>PrevSuccess := 0, HiBitsFlag := ucast (HB2Flag p ! unat (b :: Byte))\<rparr>)
    (set (symbols (mem p) (STATS (mem p) (MinContext p)) n))"
proof -
  have "tables7 p" using assms(1) by (simp add: wf7_def)
  from HB2Flag7_nth [OF this, of b] show ?thesis
    using assms
    by (simp add: esc_wf7_def wf7_def tables7_def tables_ok_def see_ok_def
        lim7_def arena_top_def ctx_symbols7_def Let_def)
qed

lemma DecodeSymbol7_follows:
  assumes wf: "wf7 p" and ch: "- 1 \<le> ch" "ch \<le> 255" and tr: "trace7 p ch = Some (ds, p')"
  shows "list_all ok7 ds \<and>
    (\<forall>d d'. steps dec7 d ds = Some d' \<longrightarrow> Ppmd7_DecodeSymbol p d = Some (ch, d', p'))"
proof -
  define m c where mc: "m = mem p" "c = MinContext p"
  define n where n: "n = unat (NumStats7 m c)"
  define s where s: "s = STATS m c"
  have wfc: "ctx_wf7 m (lim7 p) c" using wf mc by (auto simp: wf7_def intro: chain7_ctx)
  have n0: "n \<noteq> 0" "n \<le> 256" using ctx_wf7_num [OF wfc] n by auto
  show ?thesis
  proof (cases "n = 1")
    case one: True
    obtain i k q where g: "Ppmd7_GetBinSumm p = (i, k, q)" by (metis surj_pair)
    let ?prob = "BinSumm q i k" and ?one = "ONE_STATE c"
    have NS: "NumStats7 (mem p) (MinContext p) = 1" using one n mc by (simp add: word_unat_eq_iff)
    note st = esc_wf7_start_bin [OF wf NS g]
    have prob: "0 < unat ?prob" "unat ?prob < 2 ^ 14"
      using st wf by (simp_all add: wf7_def bin_ok_def)
    have dec: "Range_DecodeBit d (ucast ?prob) = ((if b then 1 else 0), d')"
      if "dec7 d (Bit b (ucast ?prob)) = Some d'" for b d d'
      using that by (auto split: prod.splits if_splits)
    show ?thesis
    proof (cases "int (unat (sSymbol m ?one)) = ch")
      case True
      let ?q = "put_bin q i k (PPMD_UPDATE_PROB_0 ?prob)\<lparr>FoundState := ?one\<rparr>"
      have ds: "ds = [Bit False (ucast ?prob)]" and up: "Ppmd7_UpdateBin ?q = Some p'"
        using tr True one n mc g
        by (auto simp: trace7_def Encode7_def Let_def log_decision_def split: bind_splits)
      have "Ppmd7_DecodeSymbol p d = Some (ch, d', p')" if "steps dec7 d ds = Some d'" for d d'
      proof -
        have "dec7 d (Bit False (ucast ?prob)) = Some d'"
          using that ds by (auto split: bind_splits simp del: dec7.simps)
        from dec [OF this] show ?thesis
          using up True one n mc g by (simp add: Ppmd7_DecodeSymbol_def Let_def)
      qed
      then show ?thesis using ds prob by simp
    next
      case False
      let ?p1 = "PPMD_UPDATE_PROB_1 ?prob"
      let ?q = "put_bin q i k ?p1\<lparr>InitEsc := ucast (PPMD7_kExpEscape ! unat (drop_bit 10 ?p1))\<rparr>
        \<lparr>PrevSuccess := 0\<rparr>"
      let ?cm = "PPMD_SetAllBitsIn256Bytes(sSymbol m ?one := 0)"
      have e: "Enc_escape7 log_decision ch ?q [Bit True (ucast ?prob)] ?cm = Some (ds, p')"
        using tr False one n mc g by (auto simp: trace7_def Encode7_def Let_def log_decision_def)
      have wfq: "esc_wf7 ?q {sSymbol m ?one}" using st mc by simp
      have cm: "?cm = mask_of {sSymbol m ?one}" by (simp add: mask_of_empty)
      obtain ds2 where ds: "ds = [Bit True (ucast ?prob)] @ ds2" and ok: "list_all ok7 ds2"
        and fol: "\<forall>d d'. steps dec7 d ds2 = Some d' \<longrightarrow> Dec_escape7 ?q d ?cm = Some (ch, d', p')"
        using Dec_escape7_follows [OF e refl wfq cm ch] False by auto
      have "Ppmd7_DecodeSymbol p d = Some (ch, d', p')" if st: "steps dec7 d ds = Some d'" for d d'
      proof -
        obtain d1 where d1: "dec7 d (Bit True (ucast ?prob)) = Some d1" "steps dec7 d1 ds2 = Some d'"
          using st ds by (auto split: bind_splits simp del: dec7.simps)
        from dec [OF d1(1)] show ?thesis
          using d1(2) fol one n mc g by (simp add: Ppmd7_DecodeSymbol_def Let_def)
      qed
      then show ?thesis using ds ok prob by simp
    qed
  next
    case False
    let ?f = "ucast (sFreq m s) :: UInt32" and ?SF = "ucast (SummFreq m c) :: UInt32"
    have M: "distinct (symbols m s n)" "fsum m (states s n) < unat (SummFreq m c)"
      and fr: "\<forall>x \<in> set (states s n). 0 < unat (sFreq m x) \<and> unat (sFreq m x) \<le> 128"
      using wfc False n s by (simp_all add: ctx_wf7_def Let_def)
    have n1: "n = Suc (n - 1)" using n0 by simp
    then have states: "states s n = s # states (s + 6) (n - 1)"
      and syms: "symbols m s n = sSymbol m s # symbols m (s + 6) (n - 1)"
      by (metis states.simps(2), metis symbols_simps(2))
    have SF: "unat ?SF \<le> 2 ^ 16" using unat_lt16 [of "SummFreq m c"] by simp
    have b: "unat ?f + 255 * (n - 1) < 2 ^ 32" using n0 unat_lt8 [of "sFreq m s"] by simp
    have f: "unat ?f + fsum m (states (s + 6) (n - 1)) = fsum m (states s n)" using states by simp
    let ?S = "Scan_enc (n - 1) m s ?f ch"
    consider (first) "int (unat (sSymbol m s)) = ch"
      | (found) s1 sm where "int (unat (sSymbol m s)) \<noteq> ch" "?S = Inl (s1, sm)"
      | (esc) s1 sm where "int (unat (sSymbol m s)) \<noteq> ch" "?S = Inr (s1, sm)"
      by (metis obj_sumE surj_pair)
    then show ?thesis
    proof cases
      case first
      let ?d = "Interval 0 ?f ?SF" and ?q = "p\<lparr>FoundState := s\<rparr>"
      have ds: "ds = [?d]" and up: "Ppmd7_Update1_0 ?q = Some p'"
        using tr first False n0 n s mc
        by (auto simp: trace7_def Encode7_def Let_def log_decision_def split: bind_splits)
      have "ok7 ?d" using M(2) f fr states SF by simp
      moreover have "Ppmd7_DecodeSymbol p d = Some (ch, d', p')"
        if st: "steps dec7 d ds = Some d'" for d d'
      proof -
        from st ds have "dec7 d ?d = Some d'" by (auto split: bind_splits simp del: dec7.simps)
        then obtain count d1 where th: "Range_GetThreshold d ?SF = Some (count, d1)"
          "unat count < unat (0 :: UInt32) + unat ?f" "d' = Range_Decode d1 0 ?f"
          by (rule dec7_IntervalE)
        then show ?thesis using up first False n0 n s mc
          by (simp add: Ppmd7_DecodeSymbol_def Let_def word_less_nat_alt)
      qed
      ultimately show ?thesis using ds by simp
    next
      case found
      let ?g = "ucast (sFreq m s1) :: UInt32"
      let ?d = "Interval sm ?g ?SF" and ?q = "p\<lparr>PrevSuccess := 0\<rparr>\<lparr>FoundState := s1\<rparr>"
      note F = Scan_enc_Inl [OF found(2) b]
      have ds: "ds = [?d]" and up: "Ppmd7_Update1 ?q = Some p'"
        using tr found False n0 n s mc
        by (auto simp: trace7_def Encode7_def Let_def log_decision_def split: bind_splits)
      have "s1 \<in> set (states s n)" using F states by simp
      then have "ok7 ?d" using F M(2) f fr SF by auto
      moreover have "Ppmd7_DecodeSymbol p d = Some (ch, d', p')"
        if st: "steps dec7 d ds = Some d'" for d d'
      proof -
        from st ds have "dec7 d ?d = Some d'" by (auto split: bind_splits simp del: dec7.simps)
        then obtain count d1 where th: "Range_GetThreshold d ?SF = Some (count, d1)"
          "unat sm \<le> unat count" "unat count < unat sm + unat ?g" "d' = Range_Decode d1 sm ?g"
          by (rule dec7_IntervalE)
        then have sc: "Scan_dec (n - 1) m s ?f count = Inl (s1, sm + ?g)" using F by simp
        have "\<not> count < ?f" using F th(2) by (simp add: word_less_nat_alt)
        then show ?thesis using up sc th F found False n0 n s mc
          by (simp add: Ppmd7_DecodeSymbol_def Let_def)
      qed
      ultimately show ?thesis using ds by simp
    next
      case esc
      note F = Scan_enc_Inr [OF esc(2) b]
      have sm: "unat sm = fsum m (states s n)" using F f by simp
      have "unat sm < unat ?SF" using sm M(2) by simp
      then have gap: "unat (?SF - sm) = unat ?SF - unat sm" by (intro unat_sub_le) simp
      let ?d = "Interval sm (?SF - sm) ?SF"
      let ?q = "p\<lparr>PrevSuccess := 0, HiBitsFlag := ucast (HB2Flag p ! unat (sSymbol m (FoundState p)))\<rparr>"
      let ?cm = "Mask_down n m s1 PPMD_SetAllBitsIn256Bytes"
      have e: "Enc_escape7 log_decision ch ?q [?d] ?cm = Some (ds, p')"
        using tr esc False n0 n s mc by (simp add: trace7_def Encode7_def Let_def log_decision_def)
      have "s1 = s + 6 * (n - 1)" using F by simp
      then have cm: "?cm = mask_of (set (symbols m s n))"
        using Mask_down_mask_of [of n m s "{}"] by (simp add: mask_of_empty)
      have wfq: "esc_wf7 ?q (set (symbols m s n))"
        using esc_wf7_start [OF wf n [unfolded mc] False] n s mc by simp
      have "\<forall>x \<in> set (symbols m s n). int (unat x) \<noteq> ch" using F esc(1) syms by simp
      then obtain ds2 where ds: "ds = [?d] @ ds2" and ok: "list_all ok7 ds2"
        and fol: "\<forall>d d'. steps dec7 d ds2 = Some d' \<longrightarrow> Dec_escape7 ?q d ?cm = Some (ch, d', p')"
        using Dec_escape7_follows [OF e refl wfq cm ch] by auto
      have "ok7 ?d" using \<open>unat sm < unat ?SF\<close> gap SF by simp
      moreover have "Ppmd7_DecodeSymbol p d = Some (ch, d', p')"
        if st: "steps dec7 d ds = Some d'" for d d'
      proof -
        obtain d1 where d1: "dec7 d ?d = Some d1" "steps dec7 d1 ds2 = Some d'"
          using st ds by (auto split: bind_splits simp del: dec7.simps)
        obtain count d2 where th: "Range_GetThreshold d ?SF = Some (count, d2)"
          "unat sm \<le> unat count" "unat count < unat sm + unat (?SF - sm)"
          "d1 = Range_Decode d2 sm (?SF - sm)"
          by (rule dec7_IntervalE [OF d1(1)])
        then have sc: "Scan_dec (n - 1) m s ?f count = Inr (s1, sm)" using F by simp
        have "\<not> count < ?f" "\<not> ?SF \<le> count"
          using F th gap \<open>unat sm < unat ?SF\<close> by (simp_all add: word_less_nat_alt word_le_nat_alt)
        then show ?thesis using sc th d1(2) fol False n0 n s mc
          by (simp add: Ppmd7_DecodeSymbol_def Let_def)
      qed
      ultimately show ?thesis using ds ok by simp
    qed
  qed
qed

end
