(* ===== verification/Ppmd8_Model.thy ===== *)
theory Ppmd8_Model
  imports Ppmd_Base
begin

text \<open>
  The PPMdI model of \<^verbatim>\<open>src/lib/ppmd/Ppmd8.c\<close>, without \<^verbatim>\<open>PPMD8_FREEZE_SUPPORT\<close> (which
  \<^verbatim>\<open>Ppmd8.h\<close> disables).  It differs from the PPMdH model of \<open>Ppmd7_Model\<close> in the layout of
  contexts and nodes, in the glueing of free blocks, in the order reduction, and in what it does
  when the memory is full: it restarts, or cuts the tree of contexts and keeps the rest.  The
  conventions are those of \<open>Ppmd7_Model\<close>.  The range coder's fields of \<^verbatim>\<open>CPpmd8\<close> are kept
  apart (\<open>Ppmd8_Range\<close>).
\<close>

section \<open>State\<close>

definition PPMD8_MIN_ORDER :: nat where "PPMD8_MIN_ORDER = 2"
definition PPMD8_MAX_ORDER :: nat where "PPMD8_MAX_ORDER = 16"

definition PPMD8_RESTORE_METHOD_RESTART :: UInt32 where "PPMD8_RESTORE_METHOD_RESTART = 0"
definition PPMD8_RESTORE_METHOD_CUT_OFF :: UInt32 where "PPMD8_RESTORE_METHOD_CUT_OFF = 1"

record CPpmd8 = ppmd +
  RestoreMethod :: UInt32
  Stamps :: "nat \<Rightarrow> UInt32"

definition PPMD8_kExpEscape :: "Byte list" where
  "PPMD8_kExpEscape = [25, 14, 9, 7, 5, 5, 4, 4, 4, 3, 3, 3, 2, 2, 2, 2]"

definition kInitBinEsc8 :: "UInt16 list" where
  "kInitBinEsc8 = [0x3CDD, 0x1F3F, 0x59BF, 0x48F3, 0x64A1, 0x5ABC, 0x6632, 0x6051]"

text \<open>\<^verbatim>\<open>CPpmd8_Context\<close>: NumStats (one less than the number of states) is the byte at 0, Flags
  the byte at 1.\<close>

definition NumStats8 :: "arena \<Rightarrow> nat \<Rightarrow> Byte" where "NumStats8 m c = m c"
definition Flags8 :: "arena \<Rightarrow> nat \<Rightarrow> Byte" where "Flags8 m c = m (c + 1)"
definition wr_NumStats8 :: "arena \<Rightarrow> nat \<Rightarrow> Byte \<Rightarrow> arena" where "wr_NumStats8 m c v = wr8 m c v"
definition wr_Flags8 :: "arena \<Rightarrow> nat \<Rightarrow> Byte \<Rightarrow> arena" where "wr_Flags8 m c v = wr8 m (c + 1) v"

text \<open>\<^verbatim>\<open>0x08 * (symbol >= 0x40)\<close>.\<close>

definition hi_flag :: "Byte \<Rightarrow> Byte" where
  "hi_flag ch = (if 0x40 \<le> ch then 0x08 else 0)"

section \<open>Construction and allocation\<close>

definition Ppmd8_Construct :: "CPpmd8 \<Rightarrow> CPpmd8" where
  "Ppmd8_Construct p = p\<lparr>
     Base := False,
     Indx2Units := units_i2u,
     Units2Indx := units_u2i,
     NS2Indx := [0, 1, 2, 3, 4] @ ns2indx_loop 4 255 5 1,
     NS2BSIndx := [0, 2] @ replicate 9 4 @ replicate 245 6\<rparr>"

definition Ppmd8_Free :: "CPpmd8 \<Rightarrow> CPpmd8" where
  "Ppmd8_Free p = p\<lparr>Size := 0, Base := False\<rparr>"

definition Ppmd8_Alloc :: "CPpmd8 \<Rightarrow> UInt32 \<Rightarrow> (nat \<Rightarrow> arena option) \<Rightarrow> bool \<times> CPpmd8" where
  "Ppmd8_Alloc p sz alloc =
     (if \<not> Base p \<or> Size p \<noteq> sz
      then let p = (Ppmd8_Free p)\<lparr>AlignOffset := 4 - (sz AND 3)\<rparr>
           in case alloc (unat (AlignOffset p + sz)) of
                None \<Rightarrow> (False, p\<lparr>Base := False\<rparr>)
              | Some blk \<Rightarrow> (True, p\<lparr>Size := sz, Base := True, mem := blk\<rparr>)
      else (True, p))"

section \<open>Free lists\<close>

text \<open>\<^verbatim>\<open>CPpmd8_Node\<close>: Stamp at 0, Next at 4, NU at 8, 32 bits each.\<close>

definition EMPTY_NODE :: UInt32 where "EMPTY_NODE = 0xFFFFFFFF"

definition nStamp8 :: "arena \<Rightarrow> nat \<Rightarrow> UInt32" where "nStamp8 m n = rd32 m n"
definition nNext8 :: "arena \<Rightarrow> nat \<Rightarrow> UInt32" where "nNext8 m n = rd32 m (n + 4)"
definition nNU8 :: "arena \<Rightarrow> nat \<Rightarrow> UInt32" where "nNU8 m n = rd32 m (n + 8)"
definition wr_Stamp8 :: "arena \<Rightarrow> nat \<Rightarrow> UInt32 \<Rightarrow> arena" where "wr_Stamp8 m n v = wr32 m n v"
definition wr_Next8 :: "arena \<Rightarrow> nat \<Rightarrow> UInt32 \<Rightarrow> arena" where "wr_Next8 m n v = wr32 m (n + 4) v"
definition wr_NU8 :: "arena \<Rightarrow> nat \<Rightarrow> UInt32 \<Rightarrow> arena" where "wr_NU8 m n v = wr32 m (n + 8) v"

definition InsertNode8 :: "CPpmd8 \<Rightarrow> nat \<Rightarrow> nat \<Rightarrow> CPpmd8" where
  "InsertNode8 p node indx =
     (let m = wr_Stamp8 (mem p) node EMPTY_NODE;
          m = wr_Next8 m node (FreeList p indx);
          m = wr_NU8 m node (word_of_nat (I2U p indx))
      in p\<lparr>mem := m, FreeList := (FreeList p)(indx := REF node),
           Stamps := (Stamps p)(indx := Stamps p indx + 1)\<rparr>)"

definition RemoveNode8 :: "CPpmd8 \<Rightarrow> nat \<Rightarrow> nat \<times> CPpmd8" where
  "RemoveNode8 p indx =
     (let node = GetPtr (FreeList p indx)
      in (node, p\<lparr>FreeList := (FreeList p)(indx := nNext8 (mem p) node),
                  Stamps := (Stamps p)(indx := Stamps p indx - 1)\<rparr>))"

definition SplitBlock8 :: "CPpmd8 \<Rightarrow> nat \<Rightarrow> nat \<Rightarrow> nat \<Rightarrow> CPpmd8" where
  "SplitBlock8 p ptr oldIndx newIndx =
     (let nu = I2U p oldIndx - I2U p newIndx;
          ptr = ptr + U2B (I2U p newIndx);
          i = U2I p nu
      in if I2U p i \<noteq> nu
         then let i = i - 1; k = I2U p i; p = InsertNode8 p (ptr + U2B k) (nu - k - 1)
              in InsertNode8 p ptr i
         else InsertNode8 p ptr i)"

subsection \<open>Glueing\<close>

text \<open>A \<^verbatim>\<open>CPpmd8_Node_Ref *\<close>: a variable of the function (\<open>Head\<close>: \<^verbatim>\<open>head\<close>, or an element of
  \<^verbatim>\<open>FreeList\<close>), or the Next field of a node.\<close>

datatype link = Head | NextOf nat

text \<open>\<^verbatim>\<open>while ((node2 = node + node->NU)->Stamp == EMPTY_NODE) ...\<close>\<close>

partial_function (option) Glue_absorb8 :: "arena \<Rightarrow> nat \<Rightarrow> arena option" where
  "Glue_absorb8 m node =
     (let node2 = node + U2B (unat (nNU8 m node))
      in if nStamp8 m node2 = EMPTY_NODE
         then let m = wr_NU8 m node (nNU8 m node + nNU8 m node2);
                  m = wr_NU8 m node2 0
              in Glue_absorb8 m node
         else Some m)"

definition put_link :: "arena \<Rightarrow> UInt32 \<Rightarrow> link \<Rightarrow> UInt32 \<Rightarrow> arena \<times> UInt32" where
  "put_link m head prev v = (case prev of Head \<Rightarrow> (m, v) | NextOf n \<Rightarrow> (wr_Next8 m n v, head))"

text \<open>The \<^verbatim>\<open>while (next != 0)\<close> loop over one free list; \<open>head\<close> and \<open>prev\<close> are the list built.\<close>

partial_function (option) Glue_list8 ::
    "arena \<Rightarrow> UInt32 \<Rightarrow> link \<Rightarrow> UInt32 \<Rightarrow> (arena \<times> UInt32 \<times> link) option" where
  "Glue_list8 m head prev nx =
     (if nx = 0 then Some (m, head, prev)
      else let node = GetPtr nx
           in do { (m, head, prev) \<leftarrow>
                     (if nNU8 m node \<noteq> 0
                      then let (m, head) = put_link m head prev nx
                           in do { m \<leftarrow> Glue_absorb8 m node; Some (m, head, NextOf node) }
                      else Some (m, head, prev));
                   Glue_list8 m head prev (nNext8 m node) })"

primrec Glue_lists8 :: "nat list \<Rightarrow> CPpmd8 \<Rightarrow> UInt32 \<Rightarrow> link \<Rightarrow> (CPpmd8 \<times> UInt32 \<times> link) option" where
  "Glue_lists8 [] p head prev = Some (p, head, prev)"
| "Glue_lists8 (i # is) p head prev =
     do { (m, head, prev) \<leftarrow> Glue_list8 (mem p) head prev (FreeList p i);
          Glue_lists8 is (p\<lparr>mem := m, FreeList := (FreeList p)(i := 0)\<rparr>) head prev }"

fun Glue_cut8 :: "CPpmd8 \<Rightarrow> nat \<Rightarrow> nat \<Rightarrow> CPpmd8 \<times> nat \<times> nat" where
  "Glue_cut8 p node nu =
     (if 128 < nu
      then Glue_cut8 (InsertNode8 p node (PPMD_NUM_INDEXES - 1)) (node + U2B 128) (nu - 128)
      else (p, node, nu))"

declare Glue_cut8.simps [simp del]

definition Glue_put8 :: "CPpmd8 \<Rightarrow> nat \<Rightarrow> nat \<Rightarrow> CPpmd8" where
  "Glue_put8 p n nu =
     (let (p, node, nu) = Glue_cut8 p n nu;
          i = U2I p nu
      in if I2U p i \<noteq> nu
         then let i = i - 1; k = I2U p i; p = InsertNode8 p (node + U2B k) (nu - k - 1)
              in InsertNode8 p node i
         else InsertNode8 p node i)"

partial_function (option) Glue_fill8 :: "CPpmd8 \<Rightarrow> UInt32 \<Rightarrow> CPpmd8 option" where
  "Glue_fill8 p head =
     (if head = 0 then Some p
      else let node = GetPtr head; head = nNext8 (mem p) node; nu = unat (nNU8 (mem p) node)
           in Glue_fill8 (if nu = 0 then p else Glue_put8 p node nu) head)"

definition GlueFreeBlocks8 :: "CPpmd8 \<Rightarrow> CPpmd8 option" where
  "GlueFreeBlocks8 p =
     do { let p = p\<lparr>GlueCount := push_bit 13 1,
                    Stamps := (\<lambda>i. if i < PPMD_NUM_INDEXES then 0 else Stamps p i)\<rparr>;
          let p = (if LoUnit p \<noteq> HiUnit p then p\<lparr>mem := wr_Stamp8 (mem p) (LoUnit p) 0\<rparr> else p);
          (p, head, prev) \<leftarrow> Glue_lists8 [0..<PPMD_NUM_INDEXES] p 0 Head;
          let (m, head) = put_link (mem p) head prev 0;
          Glue_fill8 (p\<lparr>mem := m\<rparr>) head }"

subsection \<open>Allocating and freeing units\<close>

definition AllocUnitsRare8 :: "CPpmd8 \<Rightarrow> nat \<Rightarrow> (nat option \<times> CPpmd8) option" where
  "AllocUnitsRare8 p indx =
     do { let glue = (GlueCount p = 0);
          p \<leftarrow> (if glue then GlueFreeBlocks8 p else Some p);
          if glue \<and> FreeList p indx \<noteq> 0
          then (let (r, p) = RemoveNode8 p indx in Some (Some r, p))
          else case find (\<lambda>i. FreeList p i \<noteq> 0) [indx + 1..<PPMD_NUM_INDEXES] of
                 None \<Rightarrow>
                   (let numBytes = U2B (I2U p indx); p = p\<lparr>GlueCount := GlueCount p - 1\<rparr>
                    in if word_of_nat numBytes < ptr_diff (UnitsStart p) (Text p)
                       then Some (Some (UnitsStart p - numBytes),
                                  p\<lparr>UnitsStart := UnitsStart p - numBytes\<rparr>)
                       else Some (None, p))
               | Some i \<Rightarrow>
                   (let (r, p) = RemoveNode8 p i in Some (Some r, SplitBlock8 p r i indx)) }"

definition AllocUnits8 :: "CPpmd8 \<Rightarrow> nat \<Rightarrow> (nat option \<times> CPpmd8) option" where
  "AllocUnits8 p indx =
     (if FreeList p indx \<noteq> 0 then let (r, p) = RemoveNode8 p indx in Some (Some r, p)
      else let numBytes = U2B (I2U p indx)
           in if word_of_nat numBytes \<le> ptr_diff (HiUnit p) (LoUnit p)
              then Some (Some (LoUnit p), p\<lparr>LoUnit := LoUnit p + numBytes\<rparr>)
              else AllocUnitsRare8 p indx)"

definition ShrinkUnits8 :: "CPpmd8 \<Rightarrow> nat \<Rightarrow> nat \<Rightarrow> nat \<Rightarrow> (nat \<times> CPpmd8) option" where
  "ShrinkUnits8 p oldPtr oldNU newNU =
     (let i0 = U2I p oldNU; i1 = U2I p newNU
      in if i0 = i1 then Some (oldPtr, p)
         else if FreeList p i1 \<noteq> 0
         then let (ptr, p) = RemoveNode8 p i1
              in do { m \<leftarrow> MyMem12Cpy ptr oldPtr newNU (mem p);
                      Some (ptr, InsertNode8 (p\<lparr>mem := m\<rparr>) oldPtr i0) }
         else Some (oldPtr, SplitBlock8 p oldPtr i0 i1))"

definition FreeUnits8 :: "CPpmd8 \<Rightarrow> nat \<Rightarrow> nat \<Rightarrow> CPpmd8" where
  "FreeUnits8 p ptr nu = InsertNode8 p ptr (U2I p nu)"

definition SpecialFreeUnit8 :: "CPpmd8 \<Rightarrow> nat \<Rightarrow> CPpmd8" where
  "SpecialFreeUnit8 p ptr =
     (if ptr \<noteq> UnitsStart p then InsertNode8 p ptr 0
      else p\<lparr>UnitsStart := UnitsStart p + UNIT_SIZE\<rparr>)"

definition MoveUnitsUp8 :: "CPpmd8 \<Rightarrow> nat \<Rightarrow> nat \<Rightarrow> (nat \<times> CPpmd8) option" where
  "MoveUnitsUp8 p oldPtr nu =
     (let indx = U2I p nu
      in if UnitsStart p + 16 * 1024 < oldPtr \<or> FreeList p indx < REF oldPtr then Some (oldPtr, p)
         else let (ptr, p) = RemoveNode8 p indx
              in do { m \<leftarrow> MyMem12Cpy ptr oldPtr nu (mem p);
                      let p = p\<lparr>mem := m\<rparr>;
                      Some (ptr, if oldPtr \<noteq> UnitsStart p then InsertNode8 p oldPtr indx
                                 else p\<lparr>UnitsStart := UnitsStart p + U2B (I2U p indx)\<rparr>) })"

subsection \<open>Expanding the text area\<close>

text \<open>The free nodes from \<open>UnitsStart\<close> on are taken from the units; \<open>count\<close> is how many of
  each size.\<close>

partial_function (option) Expand_scan8 ::
    "CPpmd8 \<Rightarrow> arena \<Rightarrow> nat \<Rightarrow> (nat \<Rightarrow> UInt32) \<Rightarrow> (arena \<times> nat \<times> (nat \<Rightarrow> UInt32)) option" where
  "Expand_scan8 p m node count =
     (if nStamp8 m node = EMPTY_NODE
      then let m = wr_Stamp8 m node 0;
               nu = unat (nNU8 m node);
               i = U2I p nu
           in Expand_scan8 p m (node + U2B nu) (count(i := count i + 1))
      else Some (m, node, count))"

definition get_link8 :: "CPpmd8 \<Rightarrow> nat \<Rightarrow> link \<Rightarrow> UInt32" where
  "get_link8 p i nx = (case nx of Head \<Rightarrow> FreeList p i | NextOf n \<Rightarrow> nNext8 (mem p) n)"

definition set_link8 :: "CPpmd8 \<Rightarrow> nat \<Rightarrow> link \<Rightarrow> UInt32 \<Rightarrow> CPpmd8" where
  "set_link8 p i nx v = (case nx of Head \<Rightarrow> p\<lparr>FreeList := (FreeList p)(i := v)\<rparr>
     | NextOf n \<Rightarrow> p\<lparr>mem := wr_Next8 (mem p) n v\<rparr>)"

text \<open>\<^verbatim>\<open>while (node->Stamp == 0) ...\<close>: the stamped nodes are unlinked.\<close>

partial_function (option) Expand_unlink8 ::
    "nat \<Rightarrow> link \<Rightarrow> CPpmd8 \<Rightarrow> nat \<Rightarrow> UInt32 \<Rightarrow> (CPpmd8 \<times> nat \<times> UInt32) option" where
  "Expand_unlink8 i nx p node count =
     (if nStamp8 (mem p) node = 0
      then let p = set_link8 p i nx (nNext8 (mem p) node);
               node = GetPtr (get_link8 p i nx);
               p = p\<lparr>Stamps := (Stamps p)(i := Stamps p i - 1)\<rparr>;
               count = count - 1
           in if count = 0 then Some (p, node, count) else Expand_unlink8 i nx p node count
      else Some (p, node, count))"

partial_function (option) Expand_list8 ::
    "nat \<Rightarrow> link \<Rightarrow> CPpmd8 \<Rightarrow> UInt32 \<Rightarrow> CPpmd8 option" where
  "Expand_list8 i nx p count =
     (if count = 0 then Some p
      else do { (p, node, count) \<leftarrow> Expand_unlink8 i nx p (GetPtr (get_link8 p i nx)) count;
                Expand_list8 i (NextOf node) p count })"

primrec Expand_lists8 :: "nat list \<Rightarrow> CPpmd8 \<Rightarrow> (nat \<Rightarrow> UInt32) \<Rightarrow> CPpmd8 option" where
  "Expand_lists8 [] p count = Some p"
| "Expand_lists8 (i # is) p count =
     do { p \<leftarrow> Expand_list8 i Head p (count i); Expand_lists8 is p count }"

definition ExpandTextArea8 :: "CPpmd8 \<Rightarrow> CPpmd8 option" where
  "ExpandTextArea8 p =
     do { let p = (if LoUnit p \<noteq> HiUnit p then p\<lparr>mem := wr_Stamp8 (mem p) (LoUnit p) 0\<rparr> else p);
          (m, node, count) \<leftarrow> Expand_scan8 p (mem p) (UnitsStart p) (\<lambda>i. 0);
          Expand_lists8 [0..<PPMD_NUM_INDEXES] (p\<lparr>mem := m, UnitsStart := node\<rparr>) count }"

section \<open>Restart\<close>

text \<open>\<^verbatim>\<open>while (p->NS2Indx[i] == m) i++;\<close>\<close>

definition ns2_skip :: "Byte list \<Rightarrow> nat \<Rightarrow> nat \<Rightarrow> nat" where
  "ns2_skip xs m i = i + length (takeWhile (\<lambda>b. unat b = m) (drop i xs))"

text \<open>\<open>i\<close> after the skip of round \<open>m\<close>, in the loops over \<open>BinSumm\<close> and over \<open>See\<close>.\<close>

primrec bin_i8 :: "Byte list \<Rightarrow> nat \<Rightarrow> nat" where
  "bin_i8 xs 0 = ns2_skip xs 0 0"
| "bin_i8 xs (Suc m) = ns2_skip xs (Suc m) (bin_i8 xs m)"

primrec see_i8 :: "Byte list \<Rightarrow> nat \<Rightarrow> nat" where
  "see_i8 xs 0 = ns2_skip (drop 3 xs) 3 0"
| "see_i8 xs (Suc m) = ns2_skip (drop 3 xs) (Suc m + 3) (see_i8 xs m)"

definition kDefaultBinSumm8 :: "Byte list \<Rightarrow> nat \<Rightarrow> nat \<Rightarrow> UInt16" where
  "kDefaultBinSumm8 xs m k =
     word_of_nat (unat PPMD_BIN_SCALE - unat (kInitBinEsc8 ! (k mod 8)) div (bin_i8 xs m + 1))"

definition kDefaultSee8 :: "Byte list \<Rightarrow> nat \<Rightarrow> CPpmd_See" where
  "kDefaultSee8 xs m = (let sh = PPMD_PERIOD_BITS - 4
     in \<lparr>Summ = word_of_nat ((2 * see_i8 xs m + 5) * 2 ^ sh), Shift = word_of_nat sh, Count = 7\<rparr>)"

definition RESET_TEXT :: "CPpmd8 \<Rightarrow> nat \<Rightarrow> CPpmd8" where
  "RESET_TEXT p offs = p\<lparr>Text := unat (AlignOffset p) + offs\<rparr>"

definition RestartModel8 :: "CPpmd8 \<Rightarrow> CPpmd8" where
  "RestartModel8 p =
     (let p = p\<lparr>FreeList := (\<lambda>i. if i < PPMD_NUM_INDEXES then 0 else FreeList p i),
                Stamps := (\<lambda>i. if i < PPMD_NUM_INDEXES then 0 else Stamps p i)\<rparr>;
          p = RESET_TEXT p 0;
          p = p\<lparr>HiUnit := Text p + unat (Size p)\<rparr>;
          lo = HiUnit p - unat (Size p) div 8 div UNIT_SIZE * 7 * UNIT_SIZE;
          p = p\<lparr>LoUnit := lo, UnitsStart := lo, GlueCount := 0\<rparr>;
          il = - (if MaxOrder p < 12 then MaxOrder p else 12) - 1;
          p = p\<lparr>OrderFall := MaxOrder p, RunLength := il, InitRL := il, PrevSuccess := 0\<rparr>;
          c = HiUnit p - UNIT_SIZE;
          p = p\<lparr>HiUnit := c, MinContext := c, MaxContext := c\<rparr>;
          m = wr_Suffix (mem p) c 0;
          m = wr_NumStats8 m c 255;
          m = wr_Flags8 m c 0;
          m = wr_SummFreq m c (256 + 1);
          p = p\<lparr>FoundState := LoUnit p, LoUnit := LoUnit p + U2B (256 div 2)\<rparr>;
          m = wr_Stats m c (REF (FoundState p));
          m = fresh_states m (FoundState p)
      in p\<lparr>mem := m,
           BinSumm := (\<lambda>i k. if i < 25 \<and> k < 64 then kDefaultBinSumm8 (NS2Indx p) i k else BinSumm p i k),
           See := (\<lambda>i k. if i < 24 \<and> k < 32 then kDefaultSee8 (NS2Indx p) i else See p i k)\<rparr>)"

definition Ppmd8_Init :: "CPpmd8 \<Rightarrow> UInt32 \<Rightarrow> UInt32 \<Rightarrow> CPpmd8" where
  "Ppmd8_Init p maxOrder restoreMethod =
     (let p = RestartModel8 (p\<lparr>MaxOrder := maxOrder, RestoreMethod := restoreMethod\<rparr>)
      in p\<lparr>DummySee := \<lparr>Summ = 0, Shift = word_of_nat PPMD_PERIOD_BITS, Count = 64\<rparr>\<rparr>)"

section \<open>Restoring the model when the memory is full\<close>

definition lim8 :: "CPpmd8 \<Rightarrow> nat" where "lim8 p = arena_top p"

text \<open>The loop of \<open>Refresh\<close> over the states after the first; \<open>scale\<close> is 0 or 1.\<close>

definition scale_freq :: "Byte \<Rightarrow> nat \<Rightarrow> Byte" where
  "scale_freq f scale = ucast (drop_bit scale ((ucast f :: UInt32) + word_of_nat scale))"

primrec Refresh_loop8 ::
    "nat \<Rightarrow> nat \<Rightarrow> arena \<Rightarrow> nat \<Rightarrow> UInt32 \<Rightarrow> UInt32 \<Rightarrow> Byte \<Rightarrow> arena \<times> UInt32 \<times> UInt32 \<times> Byte" where
  "Refresh_loop8 0 scale m s escFreq sumFreq flags = (m, escFreq, sumFreq, flags)"
| "Refresh_loop8 (Suc i) scale m s escFreq sumFreq flags =
     (let s = s + 6;
          escFreq = escFreq - ucast (sFreq m s);
          m = wr_Freq m s (scale_freq (sFreq m s) scale);
          sumFreq = sumFreq + ucast (sFreq m s);
          flags = flags OR hi_flag (sSymbol m s)
      in Refresh_loop8 i scale m s escFreq sumFreq flags)"

definition Refresh8 :: "CPpmd8 \<Rightarrow> nat \<Rightarrow> nat \<Rightarrow> nat \<Rightarrow> CPpmd8 option" where
  "Refresh8 p ctx oldNU scale =
     do { let i = unat (NumStats8 (mem p) ctx);
          (s, p) \<leftarrow> ShrinkUnits8 p (STATS (mem p) ctx) oldNU ((i + 2) div 2);
          let m = wr_Stats (mem p) ctx (REF s);
          let flags = (Flags8 m ctx AND (0x10 + 0x04 * word_of_nat scale)) + hi_flag (sSymbol m s);
          let escFreq = ucast (SummFreq m ctx) - ucast (sFreq m s);
          let m = wr_Freq m s (scale_freq (sFreq m s) scale);
          (m, escFreq, sumFreq, flags) \<leftarrow>
            (if i = 0 then None
             else Some (Refresh_loop8 i scale m s escFreq (ucast (sFreq m s)) flags));
          let m = wr_SummFreq m ctx (ucast (sumFreq + drop_bit scale (escFreq + word_of_nat scale)));
          Some (p\<lparr>mem := wr_Flags8 m ctx flags\<rparr>) }"

subsection \<open>CutOff\<close>

text \<open>The loop over the states of a context, from the last to the first, with the number \<open>i\<close>
  of states kept (less one).  \<open>rec\<close> is the call for the successor, one order further down.\<close>

function CutOff_states8 ::
    "(CPpmd8 \<Rightarrow> nat \<Rightarrow> (UInt32 \<times> CPpmd8) option) \<Rightarrow> nat \<Rightarrow> UInt32 \<Rightarrow> nat \<Rightarrow> int \<Rightarrow> CPpmd8 \<Rightarrow>
     (int \<times> CPpmd8) option" where
  "CutOff_states8 rec ctx order s i p =
     (if s < STATS (mem p) ctx then Some (i, p)
      else if s < 6 then None
      else do { let succ = sSuccessor (mem p) s;
                (i, p) \<leftarrow>
                  (if GetPtr succ < UnitsStart p
                   then let s2 = nat (int (STATS (mem p) ctx) + 6 * i);
                            m = wr_Successor (mem p) s 0
                        in Some (i - 1, p\<lparr>mem := SwapStates m s s2\<rparr>)
                   else if order < MaxOrder p
                   then do { (r, p) \<leftarrow> rec p (GetPtr succ);
                             Some (i, p\<lparr>mem := wr_Successor (mem p) s r\<rparr>) }
                   else Some (i, p\<lparr>mem := wr_Successor (mem p) s 0\<rparr>));
                CutOff_states8 rec ctx order (s - 6) i p })"
  by pat_completeness auto
termination
  by (relation "measure (\<lambda>(rec, ctx, order, s, i, p). s)") auto

declare CutOff_states8.simps [simp del]

definition CutOff_node8 ::
    "(CPpmd8 \<Rightarrow> nat \<Rightarrow> (UInt32 \<times> CPpmd8) option) \<Rightarrow> CPpmd8 \<Rightarrow> nat \<Rightarrow> UInt32 \<Rightarrow>
     (UInt32 \<times> CPpmd8) option" where
  "CutOff_node8 rec p ctx order =
     (if NumStats8 (mem p) ctx = 0
      then do { let s = ONE_STATE ctx;
                let succ = sSuccessor (mem p) s;
                (keep, p) \<leftarrow>
                  (if UnitsStart p \<le> GetPtr succ
                   then do { p \<leftarrow> (if order < MaxOrder p
                                  then do { (r, p) \<leftarrow> rec p (GetPtr succ);
                                            Some (p\<lparr>mem := wr_Successor (mem p) s r\<rparr>) }
                                  else Some (p\<lparr>mem := wr_Successor (mem p) s 0\<rparr>));
                             Some (sSuccessor (mem p) s \<noteq> 0 \<or> order \<le> 9, p) }
                   else Some (False, p));
                Some (if keep then (REF ctx, p) else (0, SpecialFreeUnit8 p ctx)) }
      else do { let tmp = (unat (NumStats8 (mem p) ctx) + 2) div 2;
                (r, p) \<leftarrow> MoveUnitsUp8 p (STATS (mem p) ctx) tmp;
                let p = p\<lparr>mem := wr_Stats (mem p) ctx (REF r)\<rparr>;
                let n = int (unat (NumStats8 (mem p) ctx));
                (i, p) \<leftarrow> CutOff_states8 rec ctx order (STATS (mem p) ctx + 6 * nat n) n p;
                if i \<noteq> int (unat (NumStats8 (mem p) ctx)) \<and> order \<noteq> 0
                then do { let p = p\<lparr>mem := wr_NumStats8 (mem p) ctx (word_of_int i)\<rparr>;
                          let m = mem p;
                          let s = STATS m ctx;
                          if i < 0 then Some (0, SpecialFreeUnit8 (FreeUnits8 p s tmp) ctx)
                          else if i = 0
                          then do { let m = wr_Flags8 m ctx ((Flags8 m ctx AND 0x10) + hi_flag (sSymbol m s));
                                    let m = wr_state m (ONE_STATE ctx) (rd_state m s);
                                    let p = FreeUnits8 (p\<lparr>mem := m\<rparr>) s tmp;
                                    let one = ONE_STATE ctx;
                                    let f = (ucast (sFreq (mem p) one) :: UInt32);
                                    Some (REF ctx, p\<lparr>mem := wr_Freq (mem p) one (ucast (drop_bit 3 (f + 11)))\<rparr>) }
                          else do { p \<leftarrow> Refresh8 p ctx tmp
                                           (of_bool (16 * i < int (unat (SummFreq m ctx))));
                                    Some (REF ctx, p) } }
                else Some (REF ctx, p) })"

text \<open>The recursion descends one order per call and stops at \<open>MaxOrder\<close>: \<open>d\<close> bounds the depth.\<close>

primrec CutOff8 :: "nat \<Rightarrow> CPpmd8 \<Rightarrow> nat \<Rightarrow> UInt32 \<Rightarrow> (UInt32 \<times> CPpmd8) option" where
  "CutOff8 0 p ctx order = None"
| "CutOff8 (Suc d) p ctx order = CutOff_node8 (\<lambda>p c. CutOff8 d p c (order + 1)) p ctx order"

definition GetUsedMemory8 :: "CPpmd8 \<Rightarrow> UInt32" where
  "GetUsedMemory8 p =
     (let v = fold (\<lambda>i v. v + Stamps p i * word_of_nat (I2U p i)) [0..<PPMD_NUM_INDEXES] 0
      in Size p - ptr_diff (HiUnit p) (LoUnit p) - ptr_diff (UnitsStart p) (Text p)
         - v * word_of_nat UNIT_SIZE)"

subsection \<open>RestoreModel\<close>

text \<open>The first loop undoes the growth of the contexts the update has already visited, from
  \<open>MaxContext\<close> up to \<open>c1\<close>.\<close>

partial_function (option) Restore_undo8 :: "nat \<Rightarrow> CPpmd8 \<Rightarrow> nat \<Rightarrow> CPpmd8 option" where
  "Restore_undo8 c1 p c =
     (if c = c1 then Some p
      else do { let m = wr_NumStats8 (mem p) c (NumStats8 (mem p) c - 1);
                p \<leftarrow> (if NumStats8 m c = 0
                     then let s = STATS m c;
                              m = wr_Flags8 m c ((Flags8 m c AND 0x10) + hi_flag (sSymbol m s));
                              m = wr_state m (ONE_STATE c) (rd_state m s);
                              p = SpecialFreeUnit8 (p\<lparr>mem := m\<rparr>) s;
                              f = (ucast (sFreq (mem p) (ONE_STATE c)) :: UInt32)
                          in Some (p\<lparr>mem := wr_Freq (mem p) (ONE_STATE c) (ucast (drop_bit 3 (f + 11)))\<rparr>)
                     else Refresh8 (p\<lparr>mem := m\<rparr>) c ((unat (NumStats8 m c) + 3) div 2) 0);
                Restore_undo8 c1 p (SUFFIX (mem p) c) })"

text \<open>The second loop halves the frequencies of the rest, up to \<open>MinContext\<close>.\<close>

partial_function (option) Restore_rest8 :: "CPpmd8 \<Rightarrow> nat \<Rightarrow> CPpmd8 option" where
  "Restore_rest8 p c =
     (if c = MinContext p then Some p
      else do { let m = mem p;
                p \<leftarrow> (if NumStats8 m c = 0
                     then let f = sFreq m (ONE_STATE c)
                          in Some (p\<lparr>mem := wr_Freq m (ONE_STATE c) (f - drop_bit 1 f)\<rparr>)
                     else let m = wr_SummFreq m c (SummFreq m c + 4)
                          in if 128 + 4 * unat (NumStats8 m c) < unat (SummFreq m c)
                             then Refresh8 (p\<lparr>mem := m\<rparr>) c ((unat (NumStats8 m c) + 2) div 2) 1
                             else Some (p\<lparr>mem := m\<rparr>));
                Restore_rest8 p (SUFFIX (mem p) c) })"

text \<open>\<^verbatim>\<open>while (p->MaxContext->Suffix) p->MaxContext = SUFFIX(p->MaxContext);\<close>\<close>

partial_function (option) To_root8 :: "arena \<Rightarrow> nat \<Rightarrow> nat option" where
  "To_root8 m c = (if Suffix m c = 0 then Some c else To_root8 m (SUFFIX m c))"

definition Cut_round8 :: "CPpmd8 \<Rightarrow> CPpmd8 option" where
  "Cut_round8 p =
     do { (r, p) \<leftarrow> CutOff8 (unat (MaxOrder p) + 1) p (MaxContext p) 0; ExpandTextArea8 p }"

partial_function (option) Cut_loop8 :: "CPpmd8 \<Rightarrow> CPpmd8 option" where
  "Cut_loop8 p =
     do { p \<leftarrow> Cut_round8 p;
          if 3 * drop_bit 2 (Size p) < GetUsedMemory8 p then Cut_loop8 p else Some p }"

definition RestoreModel8 :: "CPpmd8 \<Rightarrow> nat \<Rightarrow> CPpmd8 option" where
  "RestoreModel8 p c1 =
     do { let p = RESET_TEXT p 0;
          p \<leftarrow> Restore_undo8 c1 p (MaxContext p);
          p \<leftarrow> Restore_rest8 p c1;
          if RestoreMethod p = PPMD8_RESTORE_METHOD_RESTART \<or> GetUsedMemory8 p < drop_bit 1 (Size p)
          then Some (RestartModel8 p)
          else do { c \<leftarrow> To_root8 (mem p) (MaxContext p);
                    p \<leftarrow> Cut_loop8 (p\<lparr>MaxContext := c\<rparr>);
                    Some (p\<lparr>GlueCount := 0, OrderFall := MaxOrder p\<rparr>) } }"

section \<open>Updating the model\<close>

subsection \<open>CreateSuccessors\<close>

text \<open>The state of the symbol in the suffix context \<open>c\<close>, its frequency raised; \<open>s1\<close> is the
  state the caller has already found.\<close>

definition Successors_state8 :: "CPpmd8 \<Rightarrow> nat \<Rightarrow> nat option \<Rightarrow> (nat \<times> CPpmd8) option" where
  "Successors_state8 p c s1 =
     (let m = mem p in
      case s1 of
        Some s \<Rightarrow> Some (s, p)
      | None \<Rightarrow>
          (if NumStats8 m c \<noteq> 0
           then do { s \<leftarrow> find_symbol m (lim8 p) (STATS m c) (sSymbol m (FoundState p));
                     Some (s, if unat (sFreq m s) < MAX_FREQ - 9
                              then let m = wr_Freq m s (sFreq m s + 1)
                                   in p\<lparr>mem := wr_SummFreq m c (SummFreq m c + 1)\<rparr>
                              else p) }
           else let s = ONE_STATE c;
                    inc = of_bool (NumStats8 m (SUFFIX m c) = 0 \<and> sFreq m s < 24)
                in Some (s, p\<lparr>mem := wr_Freq m s (sFreq m s + inc)\<rparr>)))"

function Successors_walk8 ::
    "CPpmd8 \<Rightarrow> UInt32 \<Rightarrow> nat option \<Rightarrow> nat \<Rightarrow> nat list \<Rightarrow> ((nat + nat \<times> nat list) \<times> CPpmd8) option"
  where
  "Successors_walk8 p upBranch s1 c ps =
     (if Suffix (mem p) c = 0 then Some (Inr (c, ps), p)
      else do { let c = SUFFIX (mem p) c;
                (s, p) \<leftarrow> Successors_state8 p c s1;
                let successor = sSuccessor (mem p) s;
                if successor \<noteq> upBranch
                then (let c = GetPtr successor
                      in Some (if ps = [] then Inl c else Inr (c, ps), p))
                else if length ps < PPMD8_MAX_ORDER + 1
                then Successors_walk8 p upBranch None c (ps @ [s])
                else None })"
  by pat_completeness auto
termination
  by (relation "measure (\<lambda>(p, u, s1, c, ps). PPMD8_MAX_ORDER + 1 - length ps)") auto

declare Successors_walk8.simps [simp del]

definition Successors_freq8 :: "CPpmd8 \<Rightarrow> nat \<Rightarrow> Byte \<Rightarrow> Byte option" where
  "Successors_freq8 p c ch =
     (if NumStats8 (mem p) c = 0 then Some (sFreq (mem p) (ONE_STATE c))
      else do { s \<leftarrow> find_symbol (mem p) (lim8 p) (STATS (mem p) c) ch;
                let cf = (ucast (sFreq (mem p) s) :: UInt32) - 1;
                let s0 = ucast (SummFreq (mem p) c) - ucast (NumStats8 (mem p) c) - cf;
                if 2 * cf \<le> s0 then Some (ucast (1 + (of_bool (5 * cf > s0) :: UInt32)))
                else if s0 = 0 then None
                else Some (ucast (1 + (cf + 2 * s0 - 3) div s0)) })"

definition AllocContext8 :: "CPpmd8 \<Rightarrow> (nat option \<times> CPpmd8) option" where
  "AllocContext8 p =
     (if HiUnit p \<noteq> LoUnit p
      then Some (Some (HiUnit p - UNIT_SIZE), p\<lparr>HiUnit := HiUnit p - UNIT_SIZE\<rparr>)
      else if FreeList p 0 \<noteq> 0 then let (r, p) = RemoveNode8 p 0 in Some (Some r, p)
      else AllocUnitsRare8 p 0)"

primrec Successors_create8 ::
    "nat list \<Rightarrow> CPpmd_State \<Rightarrow> Byte \<Rightarrow> nat \<Rightarrow> CPpmd8 \<Rightarrow> (nat option \<times> CPpmd8) option" where
  "Successors_create8 [] upState flags c p = Some (Some c, p)"
| "Successors_create8 (s # ss) upState flags c p =
     do { (r, p) \<leftarrow> AllocContext8 p;
          case r of
            None \<Rightarrow> Some (None, p)
          | Some c1 \<Rightarrow>
              (let m = wr_NumStats8 (mem p) c1 0;
                   m = wr_Flags8 m c1 flags;
                   m = wr_state m (ONE_STATE c1) upState;
                   m = wr_Suffix m c1 (REF c);
                   m = wr_Successor m s (REF c1)
               in Successors_create8 ss upState flags c1 (p\<lparr>mem := m\<rparr>)) }"

definition CreateSuccessors8 ::
    "CPpmd8 \<Rightarrow> bool \<Rightarrow> nat option \<Rightarrow> nat \<Rightarrow> (nat option \<times> CPpmd8) option" where
  "CreateSuccessors8 p skip s1 c =
     (let upBranch = sSuccessor (mem p) (FoundState p)
      in do { (r, p) \<leftarrow> Successors_walk8 p upBranch s1 c (if skip then [] else [FoundState p]);
              case r of
                Inl c \<Rightarrow> Some (Some c, p)
              | Inr (c, ps) \<Rightarrow>
                  (let ch = mem p (GetPtr upBranch);
                       flags = (if 0x40 \<le> sSymbol (mem p) (FoundState p) then 0x10 else 0) + hi_flag ch
                   in do { fr \<leftarrow> Successors_freq8 p c ch;
                           let upState = SetSuccessor
                                 \<lparr>Symbol = ch, Freq = fr, SuccessorLow = 0, SuccessorHigh = 0\<rparr>
                                 (upBranch + 1);
                           if ps = [] then None
                           else Successors_create8 (rev ps) upState flags c p }) })"

subsection \<open>ReduceOrder\<close>

text \<open>The \<^verbatim>\<open>for (;;)\<close> walk: \<open>Inl c\<close> is the return at the root, \<open>Inr (s, c)\<close> the first state
  with a successor and its context.\<close>

definition Reduce_state8 :: "CPpmd8 \<Rightarrow> nat \<Rightarrow> (nat \<times> CPpmd8) option" where
  "Reduce_state8 p c =
     (let m = mem p in
      if NumStats8 m c \<noteq> 0
      then do { s \<leftarrow> find_symbol m (lim8 p) (STATS m c) (sSymbol m (FoundState p));
                Some (s, if unat (sFreq m s) < MAX_FREQ - 9
                         then let m = wr_Freq m s (sFreq m s + 2)
                              in p\<lparr>mem := wr_SummFreq m c (SummFreq m c + 2)\<rparr>
                         else p) }
      else let s = ONE_STATE c
           in Some (s, p\<lparr>mem := wr_Freq m s (sFreq m s + of_bool (sFreq m s < 32))\<rparr>))"

partial_function (option) Reduce_walk8 ::
    "CPpmd8 \<Rightarrow> UInt32 \<Rightarrow> nat option \<Rightarrow> nat \<Rightarrow> ((nat + nat \<times> nat) \<times> CPpmd8) option" where
  "Reduce_walk8 p upBranch s1 c =
     (if s1 = None \<and> Suffix (mem p) c = 0 then Some (Inl c, p)
      else do { let c = SUFFIX (mem p) c;
                (s, p) \<leftarrow> (case s1 of Some s \<Rightarrow> Some (s, p) | None \<Rightarrow> Reduce_state8 p c);
                if sSuccessor (mem p) s \<noteq> 0 then Some (Inr (s, c), p)
                else Reduce_walk8
                       (p\<lparr>mem := wr_Successor (mem p) s upBranch, OrderFall := OrderFall p + 1\<rparr>)
                       upBranch None c })"

definition ReduceOrder8 :: "CPpmd8 \<Rightarrow> nat option \<Rightarrow> nat \<Rightarrow> (nat option \<times> CPpmd8) option" where
  "ReduceOrder8 p s1 c =
     (let c1 = c; upBranch = REF (Text p);
          p = p\<lparr>mem := wr_Successor (mem p) (FoundState p) upBranch, OrderFall := OrderFall p + 1\<rparr>
      in do { (r, p) \<leftarrow> Reduce_walk8 p upBranch s1 c;
              case r of
                Inl c \<Rightarrow> Some (Some c, p)
              | Inr (s, c) \<Rightarrow>
                  do { p \<leftarrow> (if sSuccessor (mem p) s \<le> upBranch
                            then do { let s2 = FoundState p;
                                      (succ, p) \<leftarrow> CreateSuccessors8 (p\<lparr>FoundState := s\<rparr>) False None c;
                                      let v = (case succ of None \<Rightarrow> 0 | Some x \<Rightarrow> REF x);
                                      Some (p\<lparr>mem := wr_Successor (mem p) s v, FoundState := s2\<rparr>) }
                            else Some p);
                       let p = (if OrderFall p = 1 \<and> c1 = MaxContext p
                                then p\<lparr>mem := wr_Successor (mem p) (FoundState p) (sSuccessor (mem p) s),
                                       Text := Text p - 1\<rparr>
                                else p);
                       let succ = sSuccessor (mem p) s;
                       Some (if succ = 0 then None else Some (GetPtr succ), p) } })"

subsection \<open>UpdateModel\<close>

text \<open>The first block; also the state found in the suffix context, \<open>None\<close> if the block is
  skipped.\<close>

definition Update_suffix8 :: "CPpmd8 \<Rightarrow> (nat option \<times> CPpmd8) option" where
  "Update_suffix8 p =
     (let m = mem p in
      if unat (sFreq m (FoundState p)) < MAX_FREQ div 4 \<and> Suffix m (MinContext p) \<noteq> 0
      then let c = SUFFIX m (MinContext p)
           in if NumStats8 m c = 0
              then let s = ONE_STATE c
                   in Some (Some s, if sFreq m s < 32 then p\<lparr>mem := wr_Freq m s (sFreq m s + 1)\<rparr> else p)
              else do { let s = STATS m c;
                        (m, s) \<leftarrow>
                          (if sSymbol m s \<noteq> sSymbol m (FoundState p)
                           then do { s \<leftarrow> find_symbol m (lim8 p) (s + 6) (sSymbol m (FoundState p));
                                     Some (if sFreq m (s - 6) \<le> sFreq m s
                                           then (SwapStates m s (s - 6), s - 6) else (m, s)) }
                           else Some (m, s));
                        let m = (if unat (sFreq m s) < MAX_FREQ - 9
                                 then let m = wr_Freq m s (sFreq m s + 2)
                                      in wr_SummFreq m c (SummFreq m c + 2)
                                 else m);
                        Some (Some s, p\<lparr>mem := m\<rparr>) }
      else Some (None, p))"

text \<open>One round of the loop: first the room for one more state; \<open>(False, p)\<close>: an allocation
  failed.  \<open>ns1\<close> is one less than the number of states of \<open>c\<close>.\<close>

definition Update_expand8 :: "UInt32 \<Rightarrow> CPpmd8 \<Rightarrow> nat \<Rightarrow> (bool \<times> CPpmd8) option" where
  "Update_expand8 ns1 p c =
     (if ns1 AND 1 \<noteq> 0
      then let oldNU = unat (drop_bit 1 (ns1 + 1)); i = U2I p oldNU
           in if i \<noteq> U2I p (oldNU + 1)
              then do { (r, p) \<leftarrow> AllocUnits8 p (i + 1);
                        case r of
                          None \<Rightarrow> Some (False, p)
                        | Some ptr \<Rightarrow>
                            (let oldPtr = STATS (mem p) c
                             in do { m \<leftarrow> MyMem12Cpy ptr oldPtr oldNU (mem p);
                                     let p = InsertNode8 (p\<lparr>mem := m\<rparr>) oldPtr i;
                                     Some (True, p\<lparr>mem := wr_Stats (mem p) c (REF ptr)\<rparr>) }) }
              else Some (True, p)
      else Some (True, p))"

definition Update_grow8 :: "UInt32 \<Rightarrow> CPpmd8 \<Rightarrow> nat \<Rightarrow> (bool \<times> CPpmd8) option" where
  "Update_grow8 ns p c =
     (let ns1 = (ucast (NumStats8 (mem p) c) :: UInt32) in
      if ns1 \<noteq> 0
      then do { (ok, p) \<leftarrow> Update_expand8 ns1 p c;
                if \<not> ok then Some (False, p)
                else (let sm = SummFreq (mem p) c + of_bool (3 * ns1 + 1 < ns)
                      in Some (True, p\<lparr>mem := wr_SummFreq (mem p) c sm\<rparr>)) }
      else do { (r, p) \<leftarrow> AllocUnits8 p 0;
                case r of
                  None \<Rightarrow> Some (False, p)
                | Some s \<Rightarrow>
                    (let m = wr_state (mem p) s (rd_state (mem p) (ONE_STATE c));
                         m = wr_Stats m c (REF s);
                         m = (if unat (sFreq m s) < MAX_FREQ div 4 - 1
                              then wr_Freq m s (push_bit 1 (sFreq m s))
                              else wr_Freq m s (word_of_nat (MAX_FREQ - 4)));
                         m = wr_SummFreq m c (ucast (ucast (sFreq m s) + InitEsc p + of_bool (2 < ns)))
                     in Some (True, p\<lparr>mem := m\<rparr>)) })"

definition Update_append8 ::
    "UInt32 \<Rightarrow> UInt32 \<Rightarrow> Byte \<Rightarrow> UInt32 \<Rightarrow> Byte \<Rightarrow> CPpmd8 \<Rightarrow> nat \<Rightarrow> CPpmd8" where
  "Update_append8 successor s0 fSymbol fFreq ns1 p c =
     (let m = mem p;
          sm = (ucast (SummFreq m c) :: UInt32);
          cf = 2 * fFreq * (sm + 6);
          sf = s0 + sm;
          (cf, m) =
            (if cf < 6 * sf
             then (1 + of_bool (sf < cf) + of_bool (4 * sf \<le> cf), wr_SummFreq m c (SummFreq m c + 4))
             else let cf = 4 + of_bool (9 * sf < cf) + of_bool (12 * sf < cf) + of_bool (15 * sf < cf)
                  in (cf, wr_SummFreq m c (ucast (sm + cf))));
          s2 = STATS m c + 6 * (unat ns1 + 1);
          m = wr_Successor m s2 successor;
          m = wr8 m s2 fSymbol;
          m = wr_Freq m s2 (ucast cf);
          m = wr_Flags8 m c (Flags8 m c OR hi_flag fSymbol);
          m = wr_NumStats8 m c (ns1 + 1)
      in p\<lparr>mem := m\<rparr>)"

text \<open>\<open>(False, p)\<close>: the model has been restored.\<close>

partial_function (option) Update_contexts8 ::
    "UInt32 \<Rightarrow> UInt32 \<Rightarrow> UInt32 \<Rightarrow> Byte \<Rightarrow> UInt32 \<Rightarrow> CPpmd8 \<Rightarrow> nat \<Rightarrow> (bool \<times> CPpmd8) option" where
  "Update_contexts8 successor s0 ns fSymbol fFreq p c =
     (if c = MinContext p then Some (True, p)
      else let ns1 = NumStats8 (mem p) c
           in do { (ok, p) \<leftarrow> Update_grow8 ns p c;
                   if \<not> ok then do { p \<leftarrow> RestoreModel8 p c; Some (False, p) }
                   else (let p = Update_append8 successor s0 fSymbol fFreq ns1 p c
                         in Update_contexts8 successor s0 ns fSymbol fFreq p (SUFFIX (mem p) c)) })"

definition Update_finish8 ::
    "UInt32 \<Rightarrow> UInt32 \<Rightarrow> Byte \<Rightarrow> UInt32 \<Rightarrow> nat \<Rightarrow> CPpmd8 \<Rightarrow> CPpmd8 option" where
  "Update_finish8 successor fSuccessor fSymbol fFreq c p =
     (let p = p\<lparr>OrderFall := OrderFall p - 1\<rparr>;
          (successor, p) =
            (if OrderFall p = 0
             then (fSuccessor, p\<lparr>Text := Text p - of_bool (MaxContext p \<noteq> MinContext p)\<rparr>)
             else (successor, p));
          m = mem p;
          ns = (ucast (NumStats8 m (MinContext p)) :: UInt32);
          s0 = ucast (SummFreq m (MinContext p)) - ns - fFreq
      in do { (ok, p) \<leftarrow> Update_contexts8 successor s0 ns fSymbol fFreq p c;
              Some (if ok then p\<lparr>MaxContext := GetPtr fSuccessor, MinContext := GetPtr fSuccessor\<rparr>
                    else p) })"

definition UpdateModel8 :: "CPpmd8 \<Rightarrow> CPpmd8 option" where
  "UpdateModel8 p =
     (let fSuccessor = sSuccessor (mem p) (FoundState p);
          fFreq = ucast (sFreq (mem p) (FoundState p));
          fSymbol = sSymbol (mem p) (FoundState p)
      in do { (s, p) \<leftarrow> Update_suffix8 p;
              let c = MaxContext p;
              if OrderFall p = 0 \<and> fSuccessor \<noteq> 0
              then do { (cs, p) \<leftarrow> CreateSuccessors8 p True s (MinContext p);
                        case cs of
                          None \<Rightarrow> RestoreModel8 (p\<lparr>mem := wr_Successor (mem p) (FoundState p) 0\<rparr>) c
                        | Some cs \<Rightarrow> Some (p\<lparr>mem := wr_Successor (mem p) (FoundState p) (REF cs),
                                             MaxContext := cs\<rparr>) }
              else
                (let p = p\<lparr>mem := wr8 (mem p) (Text p) (sSymbol (mem p) (FoundState p)),
                           Text := Text p + 1\<rparr>;
                     successor = REF (Text p)
                 in if UnitsStart p \<le> Text p then RestoreModel8 p c
                    else do { (cs, p) \<leftarrow>
                                (if fSuccessor = 0 then ReduceOrder8 p s (MinContext p)
                                 else if GetPtr fSuccessor < UnitsStart p
                                 then CreateSuccessors8 p False s (MinContext p)
                                 else Some (Some (GetPtr fSuccessor), p));
                              case cs of
                                None \<Rightarrow> RestoreModel8 p c
                              | Some cs \<Rightarrow> Update_finish8 successor (REF cs) fSymbol fFreq c p }) })"

subsection \<open>Rescale\<close>

text \<open>\<^verbatim>\<open>do { Flags |= 0x08 * ((++s)->Symbol >= 0x40) } while (--i)\<close>.\<close>

primrec Rescale_flags8 :: "nat \<Rightarrow> arena \<Rightarrow> nat \<Rightarrow> Byte \<Rightarrow> Byte" where
  "Rescale_flags8 0 m s flags = flags"
| "Rescale_flags8 (Suc i) m s flags = Rescale_flags8 i m (s + 6) (flags OR hi_flag (sSymbol m (s + 6)))"

definition Rescale8 :: "CPpmd8 \<Rightarrow> CPpmd8 option" where
  "Rescale8 p =
     (let c = MinContext p; stats = STATS (mem p) c in
      do { m \<leftarrow> Rotate_down (mem p) stats (FoundState p) (rd_state (mem p) (FoundState p));
           let s = stats;
           let escFreq = ucast (SummFreq m c) - ucast (sFreq m s);
           let m = wr_Freq m s (sFreq m s + 4);
           let adder = of_bool (OrderFall p \<noteq> 0);
           let m = wr_Freq m s (halve (sFreq m s) adder);
           let sumFreq = ucast (sFreq m s);
           let i = unat (NumStats8 m c);
           (m, s, escFreq, sumFreq) \<leftarrow>
             (if i = 0 then None else Rescale_loop i adder stats m s escFreq sumFreq);
           (done, escFreq, p) \<leftarrow>
             (if sFreq m s = 0
              then do { let numStats = unat (NumStats8 m c);
                        i \<leftarrow> Count_zeros m s 0;
                        let escFreq = escFreq + word_of_nat i;
                        let m = wr_NumStats8 m c (NumStats8 m c - word_of_nat i);
                        if NumStats8 m c = 0
                        then (if escFreq = 0 then None
                              else do { let tmp = rd_state m stats;
                                        let f = ucast ((2 * ucast (Freq tmp) + escFreq - 1) div escFreq);
                                        let tmp = tmp\<lparr>Freq := f\<rparr>;
                                        let tmp = (if MAX_FREQ div 3 < unat (Freq tmp)
                                                   then tmp\<lparr>Freq := word_of_nat (MAX_FREQ div 3)\<rparr> else tmp);
                                        let p = InsertNode8 (p\<lparr>mem := m\<rparr>) stats (U2I p ((numStats + 2) div 2));
                                        let m = wr_Flags8 (mem p) c
                                              ((Flags8 (mem p) c AND 0x10) + hi_flag (Symbol tmp));
                                        Some (True, escFreq, p\<lparr>FoundState := ONE_STATE c,
                                          mem := wr_state m (ONE_STATE c) tmp\<rparr>) })
                        else do { let n0 = (numStats + 2) div 2;
                                  let n1 = (unat (NumStats8 m c) + 2) div 2;
                                  let p = p\<lparr>mem := m\<rparr>;
                                  p \<leftarrow> (if n0 \<noteq> n1
                                       then do { (r, p) \<leftarrow> ShrinkUnits8 p stats n0 n1;
                                                 Some (p\<lparr>mem := wr_Stats (mem p) c (REF r)\<rparr>) }
                                       else Some p);
                                  let m = mem p;
                                  let s = STATS m c;
                                  let flags = (Flags8 m c AND NOT 0x08) OR hi_flag (sSymbol m s);
                                  let flags = Rescale_flags8 (unat (NumStats8 m c)) m s flags;
                                  Some (False, escFreq, p\<lparr>mem := wr_Flags8 m c flags\<rparr>) } }
              else Some (False, escFreq, p\<lparr>mem := m\<rparr>));
           Some (if done then p
                 else let m = wr_SummFreq (mem p) c (ucast (sumFreq + escFreq - drop_bit 1 escFreq));
                          m = wr_Flags8 m c (Flags8 m c OR 0x4)
                      in p\<lparr>mem := m, FoundState := STATS m c\<rparr>) })"

subsection \<open>Escapes\<close>

definition see_index8 :: "CPpmd8 \<Rightarrow> UInt32 \<Rightarrow> nat \<times> nat" where
  "see_index8 p numMasked1 =
     (let m = mem p; c = MinContext p;
          ns = (ucast (NumStats8 m c) :: UInt32)
      in (unat (NS2Indx p ! (unat (NumStats8 m c) + 2)) - 3,
          unat (of_bool (11 * (ns + 1) < ucast (SummFreq m c))
                + 2 * of_bool (2 * ns < ucast (NumStats8 m (SUFFIX m c)) + numMasked1)
                + ucast (Flags8 m c) :: UInt32)))"

definition Ppmd8_MakeEscFreq :: "CPpmd8 \<Rightarrow> UInt32 \<Rightarrow> see_ref \<times> UInt32 \<times> CPpmd8" where
  "Ppmd8_MakeEscFreq p numMasked1 =
     (if NumStats8 (mem p) (MinContext p) \<noteq> 0xFF
      then let (i, k) = see_index8 p numMasked1;
               see = See p i k;
               r = drop_bit (unat (Shift see)) (Summ see);
               p = put_see p (SeeRef i k) (see\<lparr>Summ := Summ see - r\<rparr>)
           in (SeeRef i k, ucast r + of_bool (r = 0), p)
      else (DummyRef, 1, p))"

subsection \<open>The update after each kind of decision\<close>

definition NextContext8 :: "CPpmd8 \<Rightarrow> CPpmd8 option" where
  "NextContext8 p =
     (let c = GetPtr (sSuccessor (mem p) (FoundState p))
      in if OrderFall p = 0 \<and> UnitsStart p \<le> c then Some (p\<lparr>MinContext := c, MaxContext := c\<rparr>)
         else do { p \<leftarrow> UpdateModel8 p; Some (p\<lparr>MinContext := MaxContext p\<rparr>) })"

definition Ppmd8_Update1 :: "CPpmd8 \<Rightarrow> CPpmd8 option" where
  "Ppmd8_Update1 p =
     (let s = FoundState p; c = MinContext p;
          m = wr_Freq (mem p) s (sFreq (mem p) s + 4);
          m = wr_SummFreq m c (SummFreq m c + 4)
      in do { p \<leftarrow> (if sFreq m (s - 6) < sFreq m s
                   then let p = p\<lparr>mem := SwapStates m s (s - 6), FoundState := s - 6\<rparr>
                        in if MAX_FREQ < unat (sFreq (mem p) (s - 6)) then Rescale8 p else Some p
                   else Some (p\<lparr>mem := m\<rparr>));
              NextContext8 p })"

definition Ppmd8_Update1_0 :: "CPpmd8 \<Rightarrow> CPpmd8 option" where
  "Ppmd8_Update1_0 p =
     (let s = FoundState p; c = MinContext p; m = mem p;
          p = p\<lparr>PrevSuccess := of_bool ((ucast (SummFreq m c) :: UInt32) \<le> 2 * ucast (sFreq m s))\<rparr>;
          p = p\<lparr>RunLength := RunLength p + PrevSuccess p\<rparr>;
          m = wr_SummFreq m c (SummFreq m c + 4);
          m = wr_Freq m s (sFreq m s + 4);
          p = p\<lparr>mem := m\<rparr>
      in do { p \<leftarrow> (if MAX_FREQ < unat (sFreq m s) then Rescale8 p else Some p);
              NextContext8 p })"

definition Ppmd8_UpdateBin :: "CPpmd8 \<Rightarrow> CPpmd8 option" where
  "Ppmd8_UpdateBin p =
     (let s = FoundState p; m = mem p;
          m = wr_Freq m s (sFreq m s + of_bool (sFreq m s < 196))
      in NextContext8 (p\<lparr>mem := m, PrevSuccess := 1, RunLength := RunLength p + 1\<rparr>))"

definition Ppmd8_Update2 :: "CPpmd8 \<Rightarrow> CPpmd8 option" where
  "Ppmd8_Update2 p =
     (let s = FoundState p; c = MinContext p;
          m = wr_SummFreq (mem p) c (SummFreq (mem p) c + 4);
          m = wr_Freq m s (sFreq m s + 4);
          p = p\<lparr>mem := m\<rparr>
      in do { p \<leftarrow> (if MAX_FREQ < unat (sFreq m s) then Rescale8 p else Some p);
              p \<leftarrow> UpdateModel8 (p\<lparr>RunLength := InitRL p\<rparr>);
              Some (p\<lparr>MinContext := MaxContext p\<rparr>) })"

text \<open>\<^verbatim>\<open>Ppmd8_GetBinSumm\<close>: the element's indices.\<close>

definition Ppmd8_GetBinSumm :: "CPpmd8 \<Rightarrow> nat \<times> nat" where
  "Ppmd8_GetBinSumm p =
     (let m = mem p; c = MinContext p
      in (unat (NS2Indx p ! (unat (sFreq m (ONE_STATE c)) - 1)),
          unat (ucast (NS2BSIndx p ! unat (NumStats8 m (SUFFIX m c)))
            + PrevSuccess p + ucast (Flags8 m c)
            + (drop_bit 26 (RunLength p) AND 0x20) :: UInt32)))"

end
