(* ===== verification/Ppmd8_Range.thy ===== *)
theory Ppmd8_Range
  imports Range_Coder
begin

text \<open>
  The carryless range coder of PPMd var.I, from \<^verbatim>\<open>src/lib/ppmd/Ppmd8Enc.c\<close> and
  \<^verbatim>\<open>Ppmd8Dec.c\<close>.  In C its state is part of \<^verbatim>\<open>CPpmd8\<close> (the fields Range, Code, Low and the
  stream union); here it is a record of its own, with the input and the output as byte lists.

  The interval is \<open>[Low, Low + Range)\<close> below the bytes already written.  A byte leaves when it
  is settled; when the range has become too small while the top byte is not settled, the range
  is cut at the next multiple of \<open>2^15\<close>, which settles it.  No carry can occur.
\<close>

section \<open>State and operations\<close>

definition kTop :: UInt32 where "kTop = push_bit 24 1"
definition kBot :: UInt32 where "kBot = push_bit 15 1"

record CPpmd8_rc =
  rcLow :: UInt32
  rcRange :: UInt32
  rcCode :: UInt32
  rcIn :: "Byte list"
  rcOut :: "Byte list"

definition Ppmd8_RangeEnc_Init :: "CPpmd8_rc \<Rightarrow> CPpmd8_rc" where
  "Ppmd8_RangeEnc_Init p = p\<lparr>rcLow := 0, rcRange := 0xFFFFFFFF\<rparr>"

text \<open>One round of the flush loop.\<close>

definition Flush_byte8 :: "CPpmd8_rc \<Rightarrow> CPpmd8_rc" where
  "Flush_byte8 p = p\<lparr>rcLow := push_bit 8 (rcLow p),
     rcOut := IByteOut_Write (rcOut p) (ucast (drop_bit 24 (rcLow p)))\<rparr>"

definition Ppmd8_RangeEnc_FlushData :: "CPpmd8_rc \<Rightarrow> CPpmd8_rc" where
  "Ppmd8_RangeEnc_FlushData p = (Flush_byte8 ^^ 4) p"

text \<open>The condition of the two normalisation loops with its side effect: the range the body
  runs with, \<open>None\<close> to leave the loop.\<close>

definition norm_cond8 :: "UInt32 \<Rightarrow> UInt32 \<Rightarrow> UInt32 option" where
  "norm_cond8 low rg =
     (if low XOR (low + rg) < kTop then Some rg
      else if rg < kBot then Some ((0 - low) AND (kBot - 1))
      else None)"

partial_function (option) RangeEnc_Normalize8 :: "CPpmd8_rc \<Rightarrow> CPpmd8_rc option" where
  "RangeEnc_Normalize8 p =
     (case norm_cond8 (rcLow p) (rcRange p) of
        None \<Rightarrow> Some p
      | Some r \<Rightarrow> RangeEnc_Normalize8
          (p\<lparr>rcLow := push_bit 8 (rcLow p), rcRange := push_bit 8 r,
             rcOut := IByteOut_Write (rcOut p) (ucast (drop_bit 24 (rcLow p)))\<rparr>))"

definition RangeEnc_Encode8 :: "CPpmd8_rc \<Rightarrow> UInt32 \<Rightarrow> UInt32 \<Rightarrow> UInt32 \<Rightarrow> CPpmd8_rc option" where
  "RangeEnc_Encode8 p start sz tot =
     (if tot = 0 then None
      else let r = rcRange p div tot
           in RangeEnc_Normalize8 (p\<lparr>rcLow := rcLow p + start * r, rcRange := r * sz\<rparr>))"

definition RangeEnc_EncodeBit8_0 :: "CPpmd8_rc \<Rightarrow> UInt32 \<Rightarrow> CPpmd8_rc option" where
  "RangeEnc_EncodeBit8_0 p sizpe = RangeEnc_Normalize8 (p\<lparr>rcRange := drop_bit 14 (rcRange p) * sizpe\<rparr>)"

definition RangeEnc_EncodeBit8_1 :: "CPpmd8_rc \<Rightarrow> UInt32 \<Rightarrow> CPpmd8_rc option" where
  "RangeEnc_EncodeBit8_1 p sizpe =
     (let r = drop_bit 14 (rcRange p)
      in RangeEnc_Normalize8
           (p\<lparr>rcLow := rcLow p + sizpe * r, rcRange := r * (push_bit 14 1 - sizpe)\<rparr>))"

definition Code_shift8 :: "CPpmd8_rc \<Rightarrow> CPpmd8_rc" where
  "Code_shift8 p =
     (let (b, bs) = IByteIn_Read (rcIn p) in p\<lparr>rcCode := push_bit 8 (rcCode p) OR ucast b, rcIn := bs\<rparr>)"

definition Ppmd8_RangeDec_Init :: "CPpmd8_rc \<Rightarrow> bool \<times> CPpmd8_rc" where
  "Ppmd8_RangeDec_Init p =
     (let p = (Code_shift8 ^^ 4) (p\<lparr>rcLow := 0, rcRange := 0xFFFFFFFF, rcCode := 0\<rparr>)
      in (rcCode p < 0xFFFFFFFF, p))"

definition Ppmd8_RangeDec_IsFinishedOK :: "CPpmd8_rc \<Rightarrow> bool" where
  "Ppmd8_RangeDec_IsFinishedOK p \<longleftrightarrow> rcCode p = 0"

definition RangeDec_GetThreshold8 :: "CPpmd8_rc \<Rightarrow> UInt32 \<Rightarrow> (UInt32 \<times> CPpmd8_rc) option" where
  "RangeDec_GetThreshold8 p tot =
     (if tot = 0 then None
      else let r = rcRange p div tot
           in if r = 0 then None else Some (rcCode p div r, p\<lparr>rcRange := r\<rparr>))"

partial_function (option) RangeDec_Normalize8 :: "CPpmd8_rc \<Rightarrow> CPpmd8_rc option" where
  "RangeDec_Normalize8 p =
     (case norm_cond8 (rcLow p) (rcRange p) of
        None \<Rightarrow> Some p
      | Some r \<Rightarrow> RangeDec_Normalize8
          ((Code_shift8 p)\<lparr>rcLow := push_bit 8 (rcLow p), rcRange := push_bit 8 r\<rparr>))"

definition RangeDec_Decode8 :: "CPpmd8_rc \<Rightarrow> UInt32 \<Rightarrow> UInt32 \<Rightarrow> CPpmd8_rc option" where
  "RangeDec_Decode8 p start sz =
     (let start = start * rcRange p
      in RangeDec_Normalize8 (p\<lparr>rcLow := rcLow p + start, rcRange := rcRange p * sz,
                                 rcCode := rcCode p - start\<rparr>))"

section \<open>The interval\<close>

definition rc_T :: "CPpmd8_rc \<Rightarrow> nat" where
  "rc_T p = be_val (rcOut p) * 2 ^ 32 + unat (rcLow p)"

definition rc_inv :: "nat \<Rightarrow> nat \<Rightarrow> bool" where
  "rc_inv L R \<longleftrightarrow> 1 \<le> R \<and> L + R \<le> 2 ^ 32 \<and> (L + R = 2 ^ 32 \<longrightarrow> 2 ^ 24 \<le> L)"

definition contains8 :: "Byte list \<Rightarrow> CPpmd8_rc \<Rightarrow> bool" where
  "contains8 B p \<longleftrightarrow> holds 4 B (rc_T p) (unat (rcRange p)) (length (rcOut p))"

text \<open>The decoder keeps the same Low and Range; its Code is the distance of the next four
  bytes' value from the lower end of the interval.\<close>

definition sync8 :: "Byte list \<Rightarrow> Byte list \<Rightarrow> CPpmd8_rc \<Rightarrow> CPpmd8_rc \<Rightarrow> bool" where
  "sync8 rest B p d \<longleftrightarrow> rcLow d = rcLow p \<and> rcRange d = rcRange p \<and>
     unat (rcCode d) = be_val (take (length (rcOut p) + 4) B) - rc_T p \<and>
     rcIn d = drop (length (rcOut p) + 4) B @ rest"

section \<open>One round of the normalisation\<close>

lemma block_cut:
  fixes L R :: nat
  assumes "L div 2 ^ 24 \<noteq> (L + R) div 2 ^ 24"
  shows "2 ^ 24 - L mod 2 ^ 24 \<le> R"
proof (rule ccontr)
  assume "\<not> 2 ^ 24 - L mod 2 ^ 24 \<le> R"
  then have "L mod 16777216 + R < 16777216" by simp
  moreover have "16777216 * (L div 16777216) + L mod 16777216 = L" by simp
  ultimately have "16777216 * (L div 16777216) \<le> L + R"
    "L + R < 16777216 * Suc (L div 16777216)" unfolding mult_Suc_right by linarith+
  then have "(L + R) div 16777216 = L div 16777216" by (rule div_nat_eqI)
  then show False using assms by simp
qed

lemma block_same:
  fixes L R :: nat
  assumes "L div 2 ^ 24 = (L + R) div 2 ^ 24"
  shows "L mod 2 ^ 24 + R < 2 ^ 24"
proof -
  have "(L + R) mod 16777216 < 16777216" by simp
  moreover have "16777216 * (L div 16777216) + L mod 16777216 = L"
    "16777216 * ((L + R) div 16777216) + (L + R) mod 16777216 = L + R"
    by (simp_all only: mult_div_mod_eq)
  moreover have "L div 16777216 = (L + R) div 16777216" using assms by simp
  ultimately have "L mod 16777216 + R < 16777216" by linarith
  then show ?thesis by simp
qed

lemma xor_top:
  fixes a b :: UInt32
  shows "a XOR b < kTop \<longleftrightarrow> unat a div 2 ^ 24 = unat b div 2 ^ 24"
proof -
  have "a XOR b < kTop \<longleftrightarrow> unat (a XOR b) div 2 ^ 24 = 0"
    by (simp add: kTop_def word_less_nat_alt unat_push_bit_mod div_eq_0_iff)
  also have "\<dots> \<longleftrightarrow> drop_bit 24 (a XOR b) = 0"
    by (simp only: word_unat_eq_iff unat_drop_bit_div unat_0)
  also have "\<dots> \<longleftrightarrow> drop_bit 24 a = drop_bit 24 b"
    by (auto simp: bit_eq_iff bit_xor_iff bit_drop_bit_eq)
  also have "\<dots> \<longleftrightarrow> unat a div 2 ^ 24 = unat b div 2 ^ 24"
    by (simp only: word_unat_eq_iff unat_drop_bit_div)
  finally show ?thesis .
qed

lemma kBot_nat: "r < kBot \<longleftrightarrow> unat r < 2 ^ 15"
  by (simp add: kBot_def word_less_nat_alt unat_push_bit_mod)

text \<open>The cut: the distance to the next multiple of \<open>2^15\<close>.\<close>

lemma neg_and_kBot: "unat ((0 - low) AND (kBot - 1)) = (2 ^ 32 - unat low) mod 2 ^ 15"
proof -
  have "kBot - 1 = mask 15" by (simp add: kBot_def mask_eq_exp_minus_1)
  then have "(0 - low) AND (kBot - 1) = take_bit 15 (0 - low)" by (simp only: take_bit_eq_mask)
  then have "unat ((0 - low) AND (kBot - 1)) = unat (0 - low) mod 2 ^ 15"
    by (simp only: unsigned_take_bit_eq take_bit_eq_mod [of _ "unat x" for x])
  also have "unat (0 - low) = (if low = 0 then 0 else 2 ^ 32 - unat low)"
    by (simp add: unat_sub_if_size word_size unat_eq_zero unat_gt_0 del: diff_0)
  finally show ?thesis by (auto split: if_splits)
qed

text \<open>What a round needs to know: the bytes that can follow have the same top byte, and the
  round keeps the invariant.\<close>

lemma norm_cond8_round:
  assumes inv: "rc_inv (unat low) (unat rg)" and c: "norm_cond8 low rg = Some r"
  shows "1 \<le> unat r \<and> unat r \<le> unat rg \<and> unat r < 2 ^ 24 \<and>
    unat low mod 2 ^ 24 + unat r \<le> 2 ^ 24 \<and>
    (unat low mod 2 ^ 24 + unat r = 2 ^ 24 \<longrightarrow> unat rg < 2 ^ 15) \<and>
    (unat low mod 2 ^ 24 + unat r < 2 ^ 24 \<longrightarrow> r = rg) \<and>
    (unat low + unat rg = 2 ^ 32 \<longrightarrow> unat low mod 2 ^ 24 + unat r = 2 ^ 24 \<and> unat r = unat rg)"
proof -
  let ?L = "unat low" and ?R = "unat rg"
  have R1: "1 \<le> ?R" and le: "?L + ?R \<le> 2 ^ 32" and top: "?L + ?R = 2 ^ 32 \<longrightarrow> 2 ^ 24 \<le> ?L"
    using inv by (simp_all add: rc_inv_def)
  have sum: "unat (low + rg) = (if ?L + ?R = 2 ^ 32 then 0 else ?L + ?R)"
    using le by (auto simp: unat_word_ariths)
  show ?thesis
  proof (cases "low XOR (low + rg) < kTop")
    case True
    then have eq: "?L div 2 ^ 24 = unat (low + rg) div 2 ^ 24" by (simp only: xor_top)
    have lt: "?L + ?R \<noteq> 2 ^ 32"
    proof
      assume w: "?L + ?R = 2 ^ 32"
      then have "?L div 2 ^ 24 = 0" using eq sum by simp
      then have "?L < 2 ^ 24" by (simp add: div_eq_0_iff)
      then show False using top w by linarith
    qed
    have r: "r = rg" using c True by (simp add: norm_cond8_def)
    have "?L mod 2 ^ 24 + ?R < 2 ^ 24"
      by (rule block_same) (use eq sum lt in simp)
    then show ?thesis using lt R1 r by simp
  next
    case False
    then have neq: "?L div 2 ^ 24 \<noteq> unat (low + rg) div 2 ^ 24" unfolding xor_top .
    have r: "r = (0 - low) AND (kBot - 1)" and R15: "?R < 2 ^ 15"
      using c False by (auto simp: norm_cond8_def kBot_nat split: if_splits)
    let ?l = "?L mod 2 ^ 24"
    have l: "?l < 2 ^ 24" by simp
    have cut: "2 ^ 24 - ?l \<le> ?R"
    proof (cases "?L + ?R = 2 ^ 32")
      case True
      then have "?L = 2 ^ 32 - ?R" by simp
      then have "?L div 2 ^ 24 = 255" using R1 R15 by simp
      moreover have "16777216 * (?L div 16777216) + ?L mod 16777216 = ?L" by simp
      ultimately show ?thesis using True by simp
    next
      case no: False
      then show ?thesis using neq sum by (intro block_cut) simp
    qed
    have "2 ^ 32 - ?L = (2 ^ 24 - ?l) + (255 - ?L div 2 ^ 24) * 2 ^ 24"
    proof -
      have L: "16777216 * (?L div 16777216) + ?L mod 16777216 = ?L" by simp
      have "?L div 16777216 < 256" using unat_lt32 [of low] by simp
      then have "?L div 16777216 \<le> 255" by simp
      then obtain d where d: "255 = ?L div 16777216 + d" by (rule less_eqE)
      then have "255 - ?L div 16777216 = d" by simp
      moreover have "4294967296 - ?L = (16777216 - ?L mod 16777216) + d * 16777216"
        using L d l by linarith
      ultimately have "4294967296 - ?L = (16777216 - ?L mod 16777216) + (255 - ?L div 16777216) * 16777216"
        by simp
      then show ?thesis by simp
    qed
    moreover have "(255 - ?L div 2 ^ 24) * 2 ^ 24 = (255 - ?L div 2 ^ 24) * 2 ^ 9 * (2 ^ 15 :: nat)"
      by simp
    ultimately have "(2 ^ 32 - ?L) mod 2 ^ 15 = (2 ^ 24 - ?l) mod 2 ^ 15"
      by (metis mod_mult_self1)
    also have "\<dots> = 2 ^ 24 - ?l" using cut R15 by simp
    finally have ur: "unat r = 2 ^ 24 - ?l" unfolding r neg_and_kBot .
    have "?L + ?R = 2 ^ 32 \<Longrightarrow> unat r = ?R"
    proof -
      assume w: "?L + ?R = 2 ^ 32"
      then have "2 ^ 32 - ?L = ?R" by simp
      then show ?thesis unfolding r neg_and_kBot using R15 by simp
    qed
    then show ?thesis using ur cut R15 l by auto
  qed
qed

definition enc_round8 :: "CPpmd8_rc \<Rightarrow> UInt32 \<Rightarrow> CPpmd8_rc" where
  "enc_round8 p r = p\<lparr>rcLow := push_bit 8 (rcLow p), rcRange := push_bit 8 r,
     rcOut := IByteOut_Write (rcOut p) (ucast (drop_bit 24 (rcLow p)))\<rparr>"

definition dec_round8 :: "CPpmd8_rc \<Rightarrow> UInt32 \<Rightarrow> CPpmd8_rc" where
  "dec_round8 p r = (Code_shift8 p)\<lparr>rcLow := push_bit 8 (rcLow p), rcRange := push_bit 8 r\<rparr>"

definition norm_measure8 :: "CPpmd8_rc \<Rightarrow> nat" where
  "norm_measure8 p = (if unat (rcLow p) + unat (rcRange p) = 2 ^ 32 then 0 else 2 ^ 32) +
     (2 ^ 32 - unat (rcRange p))"

abbreviation inv8 :: "CPpmd8_rc \<Rightarrow> bool" where
  "inv8 p \<equiv> rc_inv (unat (rcLow p)) (unat (rcRange p))"

lemma enc_round8_low: "unat (rcLow (enc_round8 p r)) = unat (rcLow p) mod 2 ^ 24 * 256"
proof -
  have "unat (rcLow (enc_round8 p r)) = (unat (rcLow p) * 256) mod (16777216 * 256)"
    by (simp add: enc_round8_def unat_push_bit_mod)
  also have "\<dots> = unat (rcLow p) mod 16777216 * 256" by (rule mod_mult_mult2)
  finally show ?thesis by simp
qed

lemma enc_round8_T: "rc_T (enc_round8 p r) = rc_T p * 256"
proof -
  have top: "unat (ucast (drop_bit 24 (rcLow p)) :: Byte) = unat (rcLow p) div 16777216"
    using unat_lt32 [of "rcLow p"] by (simp add: unat_ucast_mod unat_drop_bit_div)
  have L: "unat (rcLow (enc_round8 p r)) = unat (rcLow p) mod 16777216 * 256"
    using enc_round8_low [of p r] by simp
  have "16777216 * (unat (rcLow p) div 16777216) + unat (rcLow p) mod 16777216 = unat (rcLow p)"
    by simp
  then have "unat (rcLow p) div 16777216 * 4294967296 + unat (rcLow p) mod 16777216 * 256 = unat (rcLow p) * 256"
    by linarith
  then show ?thesis
    unfolding rc_T_def L by (simp add: enc_round8_def IByteOut_Write_def top algebra_simps)
qed

lemma enc_round8:
  assumes inv: "inv8 p" and c: "norm_cond8 (rcLow p) (rcRange p) = Some r"
  shows "unat (rcRange (enc_round8 p r)) = unat r * 256" "inv8 (enc_round8 p r)"
    "norm_measure8 (enc_round8 p r) < norm_measure8 p"
    "length (rcOut (enc_round8 p r)) = Suc (length (rcOut p))"
proof -
  note C = norm_cond8_round [OF inv c]
  note L = enc_round8_low [of p r]
  have r24: "unat r < 2 ^ 24" using C by blast
  then show R: "unat (rcRange (enc_round8 p r)) = unat r * 256"
    by (simp add: enc_round8_def unat_push_bit_le)
  have sum: "unat (rcLow (enc_round8 p r)) + unat (rcRange (enc_round8 p r)) =
      (unat (rcLow p) mod 2 ^ 24 + unat r) * 256"
    unfolding L R by (simp only: distrib_right)
  let ?l = "unat (rcLow p) mod 2 ^ 24"
  have l: "?l + unat r \<le> 2 ^ 24" "1 \<le> unat r" "unat r \<le> unat (rcRange p)"
    using C by blast+
  have "2 ^ 24 \<le> ?l * 256" if eq: "(?l + unat r) * 256 = 2 ^ 32"
  proof -
    have "?l + unat r = 2 ^ 24" using eq by simp
    moreover from this C have "unat (rcRange p) < 2 ^ 15" by blast
    ultimately show ?thesis using l by simp
  qed
  moreover have "(?l + unat r) * 256 \<le> 2 ^ 32" using l by simp
  ultimately show "inv8 (enc_round8 p r)"
    using l(2) unfolding rc_inv_def sum unfolding L R by linarith
  have "x * 256 = 2 ^ 32 \<longleftrightarrow> x = 2 ^ 24" for x :: nat by auto
  then have p256: "(?l + unat r) * 256 = 2 ^ 32 \<longleftrightarrow> ?l + unat r = 2 ^ 24" .
  have R32: "unat r * 256 \<le> 2 ^ 32" using l by simp
  have R1: "unat (rcRange p) \<le> 2 ^ 32" using unat_lt32 [of "rcRange p"] by simp
  show "norm_measure8 (enc_round8 p r) < norm_measure8 p"
  proof (cases "?l + unat r = 2 ^ 24")
    case True
    show ?thesis
    proof (cases "unat (rcLow p) + unat (rcRange p) = 2 ^ 32")
      case w: True
      then have "unat r = unat (rcRange p)" using C by blast
      then have "unat (rcRange p) < unat r * 256" "unat (rcRange p) < 2 ^ 32"
        using l(2) R32 by linarith+
      then have "2 ^ 32 - unat r * 256 < 2 ^ 32 - unat (rcRange p)" by (intro diff_less_mono2)
      then show ?thesis
        unfolding norm_measure8_def sum p256 unfolding R by (simp only: True w simp_thms if_True add_0)
    next
      case False
      have "2 ^ 32 - unat r * 256 < 2 ^ 32" using l(2) by simp
      then show ?thesis
        unfolding norm_measure8_def sum p256 unfolding R
        by (simp only: True False simp_thms if_True if_False add_0)
    qed
  next
    case False
    then have "?l + unat r < 2 ^ 24" by (rule le_neq_implies_less [OF l(1)])
    then have "r = rcRange p" using C by blast
    then have req: "unat r = unat (rcRange p)" by simp
    have "unat (rcLow p) + unat (rcRange p) \<noteq> 2 ^ 32" using C False by blast
    moreover from req l(2) R32 have "unat (rcRange p) < unat r * 256" "unat (rcRange p) < 2 ^ 32"
      by linarith+
    then have "2 ^ 32 - unat r * 256 < 2 ^ 32 - unat (rcRange p)" by (intro diff_less_mono2)
    ultimately show ?thesis
      unfolding norm_measure8_def sum p256 unfolding R
      by (simp only: False simp_thms if_False add_less_cancel_left)
  qed
  show "length (rcOut (enc_round8 p r)) = Suc (length (rcOut p))"
    by (simp add: enc_round8_def IByteOut_Write_def)
qed

lemma enc_round8_contains:
  assumes inv: "inv8 p" and c: "norm_cond8 (rcLow p) (rcRange p) = Some r"
    and B: "contains8 B (enc_round8 p r)"
  shows "holds 4 B (rc_T p) (unat r) (length (rcOut p))" "contains8 B p"
proof -
  have "holds 4 B (rc_T p * 256) (unat r * 256) (Suc (length (rcOut p)))"
    using B enc_round8 [OF inv c] by (simp add: contains8_def enc_round8_T)
  then show h: "holds 4 B (rc_T p) (unat r) (length (rcOut p))" by (rule holds_shift)
  have "unat r \<le> unat (rcRange p)" using norm_cond8_round [OF inv c] by blast
  then show "contains8 B p" unfolding contains8_def by (intro holds_mono [OF h]) simp_all
qed

lemma enc_round8_sync:
  assumes inv: "inv8 p" and c: "norm_cond8 (rcLow p) (rcRange p) = Some r"
    and B: "contains8 B (enc_round8 p r)" and sync: "sync8 rest B p d"
  shows "sync8 rest B (enc_round8 p r) (dec_round8 d r)"
proof -
  let ?j = "length (rcOut p) + 4" and ?T = "rc_T p"
  let ?x = "be_val (take ?j B)"
  note st = enc_round8 [OF inv c]
  have len: "?j < length B" using B by (simp add: contains8_def holds_def st)
  have lo: "?T \<le> ?x" and hi: "?x < ?T + unat r"
    using enc_round8_contains(1) [OF inv c B] by (simp_all add: holds_def)
  have "unat r < 2 ^ 24" using norm_cond8_round [OF inv c] by blast
  have stream: "rcIn d = B ! ?j # drop (Suc ?j) B @ rest"
    using sync Cons_nth_drop_Suc [OF len, symmetric] by (simp only: sync8_def append_Cons)
  have code: "unat (rcCode d) = ?x - ?T" using sync by (simp add: sync8_def)
  with lo hi \<open>unat r < 2 ^ 24\<close> have c24: "unat (rcCode d) < 2 ^ 24" by linarith
  have "unat (rcCode (dec_round8 d r)) = (?x - ?T) * 256 + unat (B ! ?j)"
    using unat_push8_or_byte [OF c24, of "B ! ?j"] stream
    by (simp add: dec_round8_def Code_shift8_def code)
  also have "\<dots> = be_val (take (Suc ?j) B) - ?T * 256"
    using lo be_val_take_Suc [OF len] by (simp add: diff_mult_distrib)
  finally show ?thesis
    using stream sync by (simp add: sync8_def st enc_round8_T dec_round8_def Code_shift8_def)
      (simp add: enc_round8_def)
qed

section \<open>The normalisation loops\<close>

definition good8 :: "CPpmd8_rc \<Rightarrow> bool" where
  "good8 p \<longleftrightarrow> inv8 p \<and> 2 ^ 15 \<le> unat (rcRange p)"

text \<open>The loop returns, and the decoder's loop does the same rounds.\<close>

lemma Normalize8:
  assumes "inv8 p"
  shows "\<exists>p'. RangeEnc_Normalize8 p = Some p' \<and> good8 p' \<and>
    (\<forall>B. contains8 B p' \<longrightarrow> contains8 B p \<and>
      (\<forall>rest d. sync8 rest B p d \<longrightarrow>
        (\<exists>d'. RangeDec_Normalize8 d = Some d' \<and> sync8 rest B p' d')))"
  using assms
proof (induction "norm_measure8 p" arbitrary: p rule: less_induct)
  case less
  show ?case
  proof (cases "norm_cond8 (rcLow p) (rcRange p)")
    case None
    then have "2 ^ 15 \<le> unat (rcRange p)"
      by (auto simp: norm_cond8_def kBot_nat not_less split: if_splits)
    then have "good8 p" using less.prems by (simp add: good8_def)
    moreover have "RangeEnc_Normalize8 p = Some p"
      using None by (subst RangeEnc_Normalize8.simps) simp
    moreover have "RangeDec_Normalize8 d = Some d" if "sync8 rest B p d" for rest B d
      using None that by (subst RangeDec_Normalize8.simps) (simp add: sync8_def)
    ultimately show ?thesis by auto
  next
    case (Some r)
    note st = enc_round8 [OF less.prems Some]
    obtain p' where p': "RangeEnc_Normalize8 (enc_round8 p r) = Some p'" "good8 p'"
      and nested: "\<And>B. contains8 B p' \<Longrightarrow> contains8 B (enc_round8 p r)"
      and follow: "\<And>B rest d. contains8 B p' \<Longrightarrow> sync8 rest B (enc_round8 p r) d \<Longrightarrow>
        \<exists>d'. RangeDec_Normalize8 d = Some d' \<and> sync8 rest B p' d'"
      using less.hyps [OF st(3) st(2)] by blast
    have enc: "RangeEnc_Normalize8 p = Some p'"
      using Some p'(1) by (subst RangeEnc_Normalize8.simps) (simp add: enc_round8_def)
    have "\<exists>d'. RangeDec_Normalize8 d = Some d' \<and> sync8 rest B p' d'"
      if B: "contains8 B p'" and d: "sync8 rest B p d" for B rest d
    proof -
      have "RangeDec_Normalize8 d = RangeDec_Normalize8 (dec_round8 d r)"
        using Some d by (subst RangeDec_Normalize8.simps) (simp add: sync8_def dec_round8_def)
      moreover have "sync8 rest B (enc_round8 p r) (dec_round8 d r)"
        by (rule enc_round8_sync [OF less.prems Some nested [OF B] d])
      ultimately show ?thesis using follow [OF B] by simp
    qed
    moreover have "contains8 B p" if "contains8 B p'" for B
      by (rule enc_round8_contains(2) [OF less.prems Some nested [OF that]])
    ultimately show ?thesis using enc p'(2) by blast
  qed
qed

section \<open>Narrowing\<close>

lemma narrow8:
  assumes good: "good8 p" and sz: "0 < unat sz" "unat start + unat sz \<le> tot"
    and r: "unat r * tot \<le> unat (rcRange p)" "1 \<le> unat r"
  defines "q \<equiv> p\<lparr>rcLow := rcLow p + start * r, rcRange := r * sz\<rparr>"
  shows "inv8 q" "contains8 B q \<Longrightarrow> contains8 B p"
    "contains8 B q \<Longrightarrow> sync8 rest B p d \<Longrightarrow>
       unat start \<le> unat (rcCode d div r) \<and> unat (rcCode d div r) < unat start + unat sz \<and>
       sync8 rest B q (d\<lparr>rcLow := rcLow d + start * r, rcRange := r * sz, rcCode := rcCode d - start * r\<rparr>)"
proof -
  let ?L = "unat (rcLow p)" and ?R = "unat (rcRange p)" and ?r = "unat r"
  have inv: "1 \<le> ?R" "?L + ?R \<le> 2 ^ 32" "?L + ?R = 2 ^ 32 \<longrightarrow> 2 ^ 24 \<le> ?L"
    using good by (simp_all add: good8_def rc_inv_def)
  have "(unat start + unat sz) * ?r \<le> tot * ?r" using sz(2) by (rule mult_le_mono1)
  also have "tot * ?r \<le> ?R" using r(1) by (simp only: mult.commute)
  finally have le: "unat start * ?r + unat sz * ?r \<le> ?R" by (simp only: distrib_right)
  have szr: "1 \<le> unat sz * ?r" using sz(1) r(2) by (simp add: Suc_le_eq)
  have R32: "?R < 2 ^ 32" using unat_lt32 [of "rcRange p"] by simp
  have sr: "unat (start * r) = unat start * ?r"
    using le szr R32 by (intro unat_mult_le) simp
  have rs: "unat (r * sz) = unat sz * ?r"
    using le R32 by (subst unat_mult_le) (simp_all add: mult.commute)
  have lo: "unat (rcLow p + start * r) = ?L + unat start * ?r"
  proof -
    have "?L + unat start * ?r < 2 ^ 32" using le szr inv(2) by linarith
    then show ?thesis by (subst unat_add_le) (simp_all add: sr)
  qed
  have sum: "unat (rcLow q) + unat (rcRange q) \<le> ?L + ?R"
    using le by (simp add: q_def lo rs)
  show "inv8 q"
  proof -
    have "unat (rcLow q) + unat (rcRange q) = 2 ^ 32 \<Longrightarrow> 2 ^ 24 \<le> unat (rcLow q)"
    proof -
      assume "unat (rcLow q) + unat (rcRange q) = 2 ^ 32"
      then have "?L + ?R = 2 ^ 32" using sum inv(2) by linarith
      then have "2 ^ 24 \<le> ?L" using inv(3) by blast
      then show ?thesis by (simp add: q_def lo)
    qed
    then show ?thesis using sum inv(2) szr by (simp add: rc_inv_def q_def rs)
  qed
  have T: "rc_T q = rc_T p + unat start * ?r" by (simp add: rc_T_def q_def lo)
  have len: "length (rcOut q) = length (rcOut p)" by (simp add: q_def)
  have R: "unat (rcRange q) = unat sz * ?r" by (simp add: q_def rs)
  show c: "contains8 B p" if "contains8 B q"
    using that le unfolding contains8_def T R len by (elim holds_mono) simp_all
  assume B: "contains8 B q" and sync: "sync8 rest B p d"
  let ?x = "be_val (take (length (rcOut p) + 4) B)"
  have x: "rc_T p + unat start * ?r \<le> ?x" "?x < rc_T p + unat start * ?r + unat sz * ?r"
    using B unfolding contains8_def holds_def T R len by simp_all
  have code: "unat (rcCode d) = ?x - rc_T p" using sync by (simp add: sync8_def)
  have c1: "unat start * ?r \<le> unat (rcCode d)" and c2: "unat (rcCode d) < (unat start + unat sz) * ?r"
    using x code by (simp_all add: distrib_right)
  have "unat start \<le> unat (rcCode d) div ?r"
    using c1 r(2) by (simp add: less_eq_div_iff_mult_less_eq)
  moreover have "unat (rcCode d) div ?r < unat start + unat sz"
    using c2 r(2) by (simp add: div_less_iff_less_mult)
  moreover have "unat (rcCode d - start * r) = unat (rcCode d) - unat start * ?r"
    using c1 sr by (subst unat_sub_le) simp_all
  ultimately show "unat start \<le> unat (rcCode d div r) \<and> unat (rcCode d div r) < unat start + unat sz \<and>
     sync8 rest B q (d\<lparr>rcLow := rcLow d + start * r, rcRange := r * sz, rcCode := rcCode d - start * r\<rparr>)"
    using sync code by (simp add: unat_div sync8_def T len) (simp add: q_def)
qed

section \<open>The coder as an instance of the contract\<close>

fun enc8 :: "CPpmd8_rc \<Rightarrow> decision \<Rightarrow> CPpmd8_rc option" where
  "enc8 p (Interval start sz tot) = RangeEnc_Encode8 p start sz tot"
| "enc8 p (Bit b sizpe) = (if b then RangeEnc_EncodeBit8_1 p sizpe else RangeEnc_EncodeBit8_0 p sizpe)"

fun dec8 :: "CPpmd8_rc \<Rightarrow> decision \<Rightarrow> CPpmd8_rc option" where
  "dec8 p (Interval start sz tot) = do {
     (count, p) \<leftarrow> RangeDec_GetThreshold8 p tot;
     if unat start \<le> unat count \<and> unat count < unat start + unat sz
     then RangeDec_Decode8 p start sz else None }"
| "dec8 p (Bit b sizpe) =
     (let r = drop_bit 14 (rcRange p); p = p\<lparr>rcRange := r\<rparr>
      in if r = 0 then None
         else if rcCode p div r < sizpe
         then (if b then None else RangeDec_Decode8 p 0 sizpe)
         else (if b then RangeDec_Decode8 p sizpe (push_bit 14 1 - sizpe) else None))"

fun ok8 :: "decision \<Rightarrow> bool" where
  "ok8 (Interval start sz tot) \<longleftrightarrow>
     0 < unat sz \<and> unat start + unat sz \<le> unat tot \<and> unat tot \<le> 2 ^ 15"
| "ok8 (Bit b sizpe) \<longleftrightarrow> 0 < unat sizpe \<and> unat sizpe < 2 ^ 14"

definition flush8 :: "CPpmd8_rc \<Rightarrow> Byte list" where
  "flush8 p = rcOut (Ppmd8_RangeEnc_FlushData p)"

text \<open>Every decision is a narrowing to \<open>[start, start + sz)\<close> of a total, followed by the
  normalisation, in the encoder and in the decoder.\<close>

lemma enc8_step:
  assumes good: "good8 p" and ok: "ok8 x"
  shows "\<exists>p'. enc8 p x = Some p' \<and> good8 p' \<and> (\<forall>B. contains8 B p' \<longrightarrow> contains8 B p \<and>
    (\<forall>rest d. sync8 rest B p d \<longrightarrow> (\<exists>d'. dec8 d x = Some d' \<and> sync8 rest B p' d')))"
proof -
  have R: "2 ^ 15 \<le> unat (rcRange p)" using good by (simp add: good8_def)
  show ?thesis
  proof (cases x)
    case (Interval start sz tot)
    let ?r = "rcRange p div tot"
    let ?q = "p\<lparr>rcLow := rcLow p + start * ?r, rcRange := ?r * sz\<rparr>"
    have ok: "0 < unat sz" "unat start + unat sz \<le> unat tot" "unat tot \<le> 2 ^ 15"
      using ok Interval by simp_all
    then have tot: "0 < unat tot" "tot \<noteq> 0" by auto
    have r1: "1 \<le> unat ?r"
      using R ok(3) tot(1) by (simp add: unat_div less_eq_div_iff_mult_less_eq Suc_le_eq div_greater_zero_iff)
    have "unat ?r * unat tot \<le> unat (rcRange p)" by (simp add: unat_div)
    note N = narrow8 [OF good ok(1,2) this r1]
    obtain p' where p': "RangeEnc_Normalize8 ?q = Some p'" "good8 p'"
      and nested: "\<And>B. contains8 B p' \<Longrightarrow> contains8 B ?q"
      and follow: "\<And>B rest d. contains8 B p' \<Longrightarrow> sync8 rest B ?q d \<Longrightarrow>
        \<exists>d'. RangeDec_Normalize8 d = Some d' \<and> sync8 rest B p' d'"
      using Normalize8 [OF N(1)] by blast
    have enc: "enc8 p x = Some p'"
      using p'(1) tot by (simp add: Interval RangeEnc_Encode8_def Let_def)
    have "\<exists>d'. dec8 d x = Some d' \<and> sync8 rest B p' d'"
      if B: "contains8 B p'" and d: "sync8 rest B p d" for B rest d
    proof -
      note D = N(3) [OF nested [OF B] d]
      have dr: "rcRange d = rcRange p" using d by (simp add: sync8_def)
      obtain d' where "RangeDec_Normalize8
          (d\<lparr>rcLow := rcLow d + start * ?r, rcRange := ?r * sz, rcCode := rcCode d - start * ?r\<rparr>) = Some d'"
        "sync8 rest B p' d'"
        using follow [OF B] D by blast
      moreover have "?r \<noteq> 0" using r1 by auto
      ultimately show ?thesis
        using D tot dr
        by (simp add: Interval RangeDec_GetThreshold8_def RangeDec_Decode8_def Let_def)
    qed
    then show ?thesis using enc p'(2) N(2) nested by blast
  next
    case (Bit b s)
    let ?r = "drop_bit 14 (rcRange p)"
    define start where "start = (if b then s else 0)"
    define sz where "sz = (if b then push_bit 14 1 - s else s)"
    let ?q = "p\<lparr>rcLow := rcLow p + start * ?r, rcRange := ?r * sz\<rparr>"
    have s: "0 < unat s" "unat s < 2 ^ 14" using ok Bit by simp_all
    have two14: "unat (push_bit 14 1 :: UInt32) = 2 ^ 14" by (simp add: unat_push_bit_mod)
    then have "unat (push_bit 14 1 - s) = 2 ^ 14 - unat s"
      using s by (subst unat_sub_le) simp_all
    then have szs: "0 < unat sz" "unat start + unat sz \<le> 2 ^ 14"
      using s by (auto simp: start_def sz_def)
    have r1: "1 \<le> unat ?r" using R by (simp add: unat_drop_bit_div)
    have "unat ?r * 2 ^ 14 \<le> unat (rcRange p)" by (simp add: unat_drop_bit_div)
    note N = narrow8 [OF good szs this r1]
    obtain p' where p': "RangeEnc_Normalize8 ?q = Some p'" "good8 p'"
      and nested: "\<And>B. contains8 B p' \<Longrightarrow> contains8 B ?q"
      and follow: "\<And>B rest d. contains8 B p' \<Longrightarrow> sync8 rest B ?q d \<Longrightarrow>
        \<exists>d'. RangeDec_Normalize8 d = Some d' \<and> sync8 rest B p' d'"
      using Normalize8 [OF N(1)] by blast
    have enc: "enc8 p x = Some p'"
      using p'(1) by (simp add: Bit start_def sz_def RangeEnc_EncodeBit8_0_def
          RangeEnc_EncodeBit8_1_def Let_def split: if_splits)
    have "\<exists>d'. dec8 d x = Some d' \<and> sync8 rest B p' d'"
      if B: "contains8 B p'" and d: "sync8 rest B p d" for B rest d
    proof -
      note D = N(3) [OF nested [OF B] d]
      have dr: "rcRange d = rcRange p" using d by (simp add: sync8_def)
      obtain d' where d': "RangeDec_Normalize8
          (d\<lparr>rcLow := rcLow d + start * ?r, rcRange := ?r * sz, rcCode := rcCode d - start * ?r\<rparr>) = Some d'"
        "sync8 rest B p' d'"
        using follow [OF B] D by blast
      have "?r \<noteq> 0" using r1 by auto
      moreover have "rcCode d div ?r < s \<longleftrightarrow> \<not> b"
        using D s unfolding start_def sz_def by (auto simp: word_less_nat_alt split: if_splits)
      ultimately show ?thesis
        using d' dr by (cases b) (simp_all add: Bit RangeDec_Decode8_def Let_def start_def sz_def)
    qed
    then show ?thesis using enc p'(2) N(2) nested by blast
  qed
qed

lemma Flush_byte8:
  "rc_T (Flush_byte8 p) = rc_T p * 256" "length (rcOut (Flush_byte8 p)) = Suc (length (rcOut p))"
    "rcLow (Flush_byte8 p) = push_bit 8 (rcLow p)"
proof -
  have "rc_T (Flush_byte8 p) = rc_T (enc_round8 p (rcRange p))"
    by (simp add: rc_T_def Flush_byte8_def enc_round8_def)
  then show "rc_T (Flush_byte8 p) = rc_T p * 256" by (simp only: enc_round8_T)
  show "length (rcOut (Flush_byte8 p)) = Suc (length (rcOut p))" "rcLow (Flush_byte8 p) = push_bit 8 (rcLow p)"
    by (simp_all add: Flush_byte8_def IByteOut_Write_def)
qed

lemma flush8_val: "be_val (flush8 p) = rc_T p" "length (flush8 p) = length (rcOut p) + 4"
proof -
  let ?q = "Ppmd8_RangeEnc_FlushData p"
  have pow: "rc_T ((Flush_byte8 ^^ n) p) = rc_T p * 256 ^ n \<and>
      length (rcOut ((Flush_byte8 ^^ n) p)) = length (rcOut p) + n \<and>
      rcLow ((Flush_byte8 ^^ n) p) = push_bit (8 * n) (rcLow p)" for n
  proof (induction n)
    case (Suc n)
    then show ?case
      by (simp add: Flush_byte8 push_bit_push_bit)
  qed simp
  have "rcLow ?q = push_bit 32 (rcLow p)" using pow [of 4] by (simp add: Ppmd8_RangeEnc_FlushData_def)
  then have "rcLow ?q = 0" by (simp add: push_bit_word_beyond)
  moreover have "rc_T ?q = rc_T p * 2 ^ 32"
    using pow [of 4] by (simp add: Ppmd8_RangeEnc_FlushData_def)
  ultimately show "be_val (flush8 p) = rc_T p" by (simp add: rc_T_def flush8_def)
  show "length (flush8 p) = length (rcOut p) + 4"
    using pow [of 4] by (simp add: flush8_def Ppmd8_RangeEnc_FlushData_def)
qed

lemma flush8_contains: "good8 p \<Longrightarrow> contains8 (flush8 p) p"
  by (simp add: contains8_def holds_def flush8_val good8_def rc_inv_def)

interpretation rc8: range_coder enc8 dec8 good8 ok8 "\<lambda>n e. True" contains8 "sync8 rest" flush8
  for rest
proof unfold_locales
  fix e x
  assume "good8 e" "ok8 x"
  then show "\<exists>e'. enc8 e x = Some e' \<and> good8 e' \<and> True" using enc8_step by blast
next
  fix e x e' B
  assume "good8 e" "ok8 x" "enc8 e x = Some e'" "contains8 B e'"
  then show "contains8 B e" using enc8_step [of e x] by auto
next
  fix e x e' B d
  assume "good8 e" "ok8 x" "enc8 e x = Some e'" "contains8 B e'" "sync8 rest B e d"
  then show "\<exists>d'. dec8 d x = Some d' \<and> sync8 rest B e' d'" using enc8_step [of e x] by auto
next
  fix e
  assume "good8 e"
  then show "contains8 (flush8 e) e" by (rule flush8_contains)
qed simp

section \<open>Initialisation\<close>

lemma good8_init: "good8 (Ppmd8_RangeEnc_Init p\<lparr>rcOut := []\<rparr>)"
  by (simp add: good8_def rc_inv_def Ppmd8_RangeEnc_Init_def)

lemma Code_shift8_pow:
  assumes "rcIn d = bs @ rest" "unat (rcCode d) * 256 ^ length bs + be_val bs < 2 ^ 32"
  shows "unat (rcCode ((Code_shift8 ^^ length bs) d)) = unat (rcCode d) * 256 ^ length bs + be_val bs \<and>
    rcIn ((Code_shift8 ^^ length bs) d) = rest \<and>
    rcLow ((Code_shift8 ^^ length bs) d) = rcLow d \<and> rcRange ((Code_shift8 ^^ length bs) d) = rcRange d"
  using assms
proof (induction bs arbitrary: d)
  case (Cons b bs)
  let ?d = "Code_shift8 d"
  let ?n = "256 ^ length bs :: nat"
  have eq: "unat (rcCode d) * 256 ^ length (b # bs) + be_val (b # bs) =
      (unat (rcCode d) * 256 + unat b) * ?n + be_val bs"
    by (simp add: be_val_Cons algebra_simps)
  then have "unat (rcCode d) * 256 * ?n < 2 ^ 32"
    using Cons.prems(2) by (simp add: algebra_simps)
  moreover have "1 \<le> ?n" by simp
  then have "unat (rcCode d) * 256 * 1 \<le> unat (rcCode d) * 256 * ?n" by (rule mult_le_mono2)
  ultimately have "unat (rcCode d) * 256 * 1 < 2 ^ 32" by (rule order_le_less_trans [rotated])
  then have c24: "unat (rcCode d) < 2 ^ 24" by simp
  have d: "unat (rcCode ?d) = unat (rcCode d) * 256 + unat b" "rcIn ?d = bs @ rest"
    "rcLow ?d = rcLow d" "rcRange ?d = rcRange d"
    using unat_push8_or_byte [OF c24, of b] Cons.prems(1) by (simp_all add: Code_shift8_def)
  have "(Code_shift8 ^^ length (b # bs)) d = (Code_shift8 ^^ length bs) ?d"
    by (simp only: list.size funpow_Suc_right add_Suc_right add_0_right comp_apply)
  with Cons.IH [of ?d] d eq Cons.prems(2) show ?case by simp
qed simp

lemma Init_sync8:
  assumes "contains8 B (Ppmd8_RangeEnc_Init p\<lparr>rcOut := []\<rparr>)"
  shows "fst (Ppmd8_RangeDec_Init (d\<lparr>rcIn := B @ rest\<rparr>))"
    and "sync8 rest B (Ppmd8_RangeEnc_Init p\<lparr>rcOut := []\<rparr>) (snd (Ppmd8_RangeDec_Init (d\<lparr>rcIn := B @ rest\<rparr>)))"
proof -
  let ?e = "Ppmd8_RangeEnc_Init p\<lparr>rcOut := []\<rparr>"
  let ?d = "d\<lparr>rcIn := B @ rest\<rparr>\<lparr>rcLow := 0, rcRange := 0xFFFFFFFF, rcCode := 0\<rparr>"
  have e: "rc_T ?e = 0" "unat (rcRange ?e) = 2 ^ 32 - 1" "rcLow ?e = 0" "rcRange ?e = 0xFFFFFFFF"
    by (simp_all add: Ppmd8_RangeEnc_Init_def rc_T_def)
  have len: "4 \<le> length B" and v: "be_val (take 4 B) < 2 ^ 32 - 1"
    using assms by (simp_all add: contains8_def holds_def e)
  have "length (take 4 B) = 4" using len by simp
  moreover have "rcIn ?d = take 4 B @ (drop 4 B @ rest)" by simp
  ultimately have c: "unat (rcCode ((Code_shift8 ^^ 4) ?d)) = be_val (take 4 B)"
    "rcIn ((Code_shift8 ^^ 4) ?d) = drop 4 B @ rest"
    "rcLow ((Code_shift8 ^^ 4) ?d) = 0" "rcRange ((Code_shift8 ^^ 4) ?d) = 0xFFFFFFFF"
    using Code_shift8_pow [of ?d "take 4 B" "drop 4 B @ rest"] v by simp_all
  have ini: "Ppmd8_RangeDec_Init (d\<lparr>rcIn := B @ rest\<rparr>) =
      (rcCode ((Code_shift8 ^^ 4) ?d) < 0xFFFFFFFF, (Code_shift8 ^^ 4) ?d)"
    by (simp add: Ppmd8_RangeDec_Init_def Let_def)
  show "fst (Ppmd8_RangeDec_Init (d\<lparr>rcIn := B @ rest\<rparr>))"
    using c(1) v by (simp add: ini word_less_nat_alt)
  show "sync8 rest B ?e (snd (Ppmd8_RangeDec_Init (d\<lparr>rcIn := B @ rest\<rparr>)))"
    unfolding ini sync8_def e using c by (simp add: Ppmd8_RangeEnc_Init_def)
qed

section \<open>Properties\<close>

text \<open>
  C8.  The carryless range coder of PPMd8 is correct for every sequence of decisions with
  totals up to \<open>2^15\<close>: the encoder's unbounded normalisation loops return, no byte it has
  written is ever wrong, and the decoder, started on the flushed bytes followed by anything,
  takes the same decisions, has consumed exactly the encoder's bytes and ends with
  \<open>Code = 0\<close>.
\<close>

theorem range_coder8_roundtrip:
  assumes "list_all ok8 xs"
  shows "\<exists>e d d'. steps enc8 (Ppmd8_RangeEnc_Init pe\<lparr>rcOut := []\<rparr>) xs = Some e \<and>
    Ppmd8_RangeDec_Init (pd\<lparr>rcIn := rcOut (Ppmd8_RangeEnc_FlushData e) @ rest\<rparr>) = (True, d) \<and>
    steps dec8 d xs = Some d' \<and> rcIn d' = rest \<and> Ppmd8_RangeDec_IsFinishedOK d'"
proof -
  let ?e = "Ppmd8_RangeEnc_Init pe\<lparr>rcOut := []\<rparr>"
  let ?init = "\<lambda>B. snd (Ppmd8_RangeDec_Init (pd\<lparr>rcIn := B @ rest\<rparr>))"
  obtain e d' where e: "steps enc8 ?e xs = Some e" and d': "steps dec8 (?init (flush8 e)) xs = Some d'"
    and sync: "sync8 rest (flush8 e) e d'"
    using rc8.run_roundtrip [OF good8_init TrueI assms, where rest = rest and init = ?init] Init_sync8(2) by blast
  have g: "good8 e" using rc8.enc_run_total [OF good8_init [of pe] TrueI assms] e by auto
  have "contains8 (flush8 e) ?e"
    by (rule rc8.enc_run_contains [OF good8_init TrueI assms e flush8_contains [OF g]])
  then have "fst (Ppmd8_RangeDec_Init (pd\<lparr>rcIn := flush8 e @ rest\<rparr>))" by (rule Init_sync8(1))
  moreover have "rcIn d' = rest" "rcCode d' = 0"
    using sync by (simp_all add: sync8_def flush8_val unat_eq_zero)
  ultimately show ?thesis
    using e d' by (auto simp: flush8_def Ppmd8_RangeDec_IsFinishedOK_def prod_eq_iff)
qed

theorem range_coder8_roundtrip_witness:
  "list_all ok8 [Interval 3 2 10, Bit False 100, Bit True 16383, Interval 0 1 32768] \<and>
   (\<exists>e d d'. steps enc8 \<lparr>rcLow = 0, rcRange = 0xFFFFFFFF, rcCode = 0, rcIn = [], rcOut = []\<rparr>
       [Interval 3 2 10, Bit False 100, Bit True 16383, Interval 0 1 32768] = Some e \<and>
    Ppmd8_RangeDec_Init \<lparr>rcLow = 0, rcRange = 0, rcCode = 0,
       rcIn = rcOut (Ppmd8_RangeEnc_FlushData e) @ [7], rcOut = []\<rparr> = (True, d) \<and>
    steps dec8 d [Interval 3 2 10, Bit False 100, Bit True 16383, Interval 0 1 32768] = Some d' \<and>
    rcIn d' = [7] \<and> Ppmd8_RangeDec_IsFinishedOK d')"
proof -
  let ?xs = "[Interval 3 2 10, Bit False 100, Bit True 16383, Interval 0 1 32768]"
  have ok: "list_all ok8 ?xs" by simp
  show ?thesis
    using ok range_coder8_roundtrip [OF ok, where pe =
      "\<lparr>rcLow = 0, rcRange = 0, rcCode = 0, rcIn = [], rcOut = []\<rparr>" and
      pd = "\<lparr>rcLow = 0, rcRange = 0, rcCode = 0, rcIn = [], rcOut = []\<rparr>" and rest = "[7]"]
    by (simp add: Ppmd8_RangeEnc_Init_def)
qed

end
