(* ===== verification/Ppmd8_Codec.thy ===== *)
theory Ppmd8_Codec
  imports Ppmd8_Model Ppmd_Codec Ppmd8_Range
begin

text \<open>
  \<^verbatim>\<open>Ppmd8_EncodeSymbol\<close> and \<^verbatim>\<open>Ppmd8_DecodeSymbol\<close> (\<^verbatim>\<open>src/lib/ppmd/Ppmd8Enc.c\<close>,
  \<^verbatim>\<open>Ppmd8Dec.c\<close>), built like those of \<open>Ppmd7_Codec\<close>: the encoder takes the coding operation as
  its argument, and the decoder follows the decisions under the well-formedness \<open>wf8\<close> of the
  contexts it meets.  The range coder's part of \<^verbatim>\<open>CPpmd8\<close> is passed beside the model.
\<close>

section \<open>The encoder\<close>

partial_function (option) Climb8 :: "UInt32 \<Rightarrow> CPpmd8 \<Rightarrow> (bool \<times> CPpmd8) option" where
  "Climb8 numMasked p =
     (let p = p\<lparr>OrderFall := OrderFall p + 1\<rparr>
      in if Suffix (mem p) (MinContext p) = 0 then Some (False, p)
         else let p = p\<lparr>MinContext := SUFFIX (mem p) (MinContext p)\<rparr>
              in if ucast (NumStats8 (mem p) (MinContext p)) = numMasked then Climb8 numMasked p
                 else Some (True, p))"

text \<open>The \<^verbatim>\<open>for (;;)\<close> after an escape.  In a context with a single state the row of \<^verbatim>\<open>See\<close>
  would be -1 (\<open>None\<close>).\<close>

partial_function (option) Enc_escape8 ::
    "('e \<Rightarrow> decision \<Rightarrow> 'e option) \<Rightarrow> int \<Rightarrow> CPpmd8 \<Rightarrow> 'e \<Rightarrow> (Byte \<Rightarrow> Byte) \<Rightarrow> ('e \<times> CPpmd8) option" where
  "Enc_escape8 enc ch p rc charMask =
     do { let numMasked = ucast (NumStats8 (mem p) (MinContext p));
          (more, p) \<leftarrow> Climb8 numMasked p;
          if \<not> more then Some (rc, p)
          else if NumStats8 (mem p) (MinContext p) = 0 then None
          else
            (let (see, escFreq, p) = Ppmd8_MakeEscFreq p numMasked; m = mem p; c = MinContext p
             in case Masked_enc (unat (NumStats8 m c) + 1) m (STATS m c) 0 charMask ch of
                  Inl (s1, low, sm) \<Rightarrow>
                    do { rc \<leftarrow> enc rc (Interval low (ucast (sFreq m s1)) (sm + escFreq));
                         let p = put_see p see (Ppmd_See_Update (get_see p see));
                         p \<leftarrow> Ppmd8_Update2 (p\<lparr>FoundState := s1\<rparr>);
                         Some (rc, p) }
                | Inr (sm, charMask) \<Rightarrow>
                    do { rc \<leftarrow> enc rc (Interval sm escFreq (sm + escFreq));
                         let v = get_see p see;
                         let p = put_see p see (v\<lparr>Summ := Summ v + ucast (sm + escFreq)\<rparr>);
                         Enc_escape8 enc ch p rc charMask }) }"

definition Encode8 ::
    "('e \<Rightarrow> decision \<Rightarrow> 'e option) \<Rightarrow> CPpmd8 \<Rightarrow> 'e \<Rightarrow> int \<Rightarrow> ('e \<times> CPpmd8) option" where
  "Encode8 enc p rc ch =
     (let m = mem p; c = MinContext p; i = unat (NumStats8 m c); SF = ucast (SummFreq m c) in
      if i \<noteq> 0
      then let s = STATS m c
           in if int (unat (sSymbol m s)) = ch
              then do { rc \<leftarrow> enc rc (Interval 0 (ucast (sFreq m s)) SF);
                        p \<leftarrow> Ppmd8_Update1_0 (p\<lparr>FoundState := s\<rparr>);
                        Some (rc, p) }
              else let p = p\<lparr>PrevSuccess := 0\<rparr>
                   in case Scan_enc i m s (ucast (sFreq m s)) ch of
                        Inl (s, sm) \<Rightarrow>
                          do { rc \<leftarrow> enc rc (Interval sm (ucast (sFreq m s)) SF);
                               p \<leftarrow> Ppmd8_Update1 (p\<lparr>FoundState := s\<rparr>);
                               Some (rc, p) }
                      | Inr (s, sm) \<Rightarrow>
                          do { let charMask = Mask_down (i + 1) m s PPMD_SetAllBitsIn256Bytes;
                               rc \<leftarrow> enc rc (Interval sm (SF - sm) SF);
                               Enc_escape8 enc ch p rc charMask }
      else let (j, k) = Ppmd8_GetBinSumm p; prob = BinSumm p j k; s = ONE_STATE c
           in if int (unat (sSymbol m s)) = ch
              then do { rc \<leftarrow> enc rc (Bit False (ucast prob));
                        let p = put_bin p j k (PPMD_UPDATE_PROB_0 prob);
                        p \<leftarrow> Ppmd8_UpdateBin (p\<lparr>FoundState := s\<rparr>);
                        Some (rc, p) }
              else do { rc \<leftarrow> enc rc (Bit True (ucast prob));
                        let prob = PPMD_UPDATE_PROB_1 prob;
                        let p = put_bin p j k prob;
                        let p = p\<lparr>InitEsc := ucast (PPMD8_kExpEscape ! unat (drop_bit 10 prob))\<rparr>;
                        let charMask = PPMD_SetAllBitsIn256Bytes(sSymbol m s := 0);
                        Enc_escape8 enc ch (p\<lparr>PrevSuccess := 0\<rparr>) rc charMask })"

definition Ppmd8_EncodeSymbol :: "CPpmd8 \<Rightarrow> CPpmd8_rc \<Rightarrow> int \<Rightarrow> (CPpmd8_rc \<times> CPpmd8) option" where
  "Ppmd8_EncodeSymbol p rc ch = Encode8 enc8 p rc ch"

section \<open>The decoder\<close>

partial_function (option) Dec_escape8 ::
    "CPpmd8 \<Rightarrow> CPpmd8_rc \<Rightarrow> (Byte \<Rightarrow> Byte) \<Rightarrow> (int \<times> CPpmd8_rc \<times> CPpmd8) option" where
  "Dec_escape8 p rc charMask =
     do { let numMasked = ucast (NumStats8 (mem p) (MinContext p));
          (more, p) \<leftarrow> Climb8 numMasked p;
          if \<not> more then Some (- 1, rc, p)
          else if NumStats8 (mem p) (MinContext p) = 0 then None
          else do {
            let m = mem p;
            let num = ucast (NumStats8 m (MinContext p)) - numMasked;
            (ps, hiCnt) \<leftarrow> Collect_dec m (lim8 p) (unat num) charMask (STATS m (MinContext p)) [] 0;
            let (see, freqSum, p) = Ppmd8_MakeEscFreq p numMasked;
            let freqSum = freqSum + hiCnt;
            (count, rc) \<leftarrow> RangeDec_GetThreshold8 rc freqSum;
            if count < hiCnt
            then do { (s, hiCnt) \<leftarrow> Pick_dec m ps 0 count;
                      rc \<leftarrow> RangeDec_Decode8 rc (hiCnt - ucast (sFreq m s)) (ucast (sFreq m s));
                      let p = put_see p see (Ppmd_See_Update (get_see p see));
                      p \<leftarrow> Ppmd8_Update2 (p\<lparr>FoundState := s\<rparr>);
                      Some (int (unat (sSymbol m s)), rc, p) }
            else if freqSum \<le> count then Some (- 2, rc, p)
            else do { rc \<leftarrow> RangeDec_Decode8 rc hiCnt (freqSum - hiCnt);
                      let v = get_see p see;
                      let p = put_see p see (v\<lparr>Summ := Summ v + ucast freqSum\<rparr>);
                      if ps = [] then None else Dec_escape8 p rc (Mask_list m ps charMask) } } }"

definition Ppmd8_DecodeSymbol :: "CPpmd8 \<Rightarrow> CPpmd8_rc \<Rightarrow> (int \<times> CPpmd8_rc \<times> CPpmd8) option" where
  "Ppmd8_DecodeSymbol p rc =
     (let m = mem p; c = MinContext p; i = unat (NumStats8 m c); SF = ucast (SummFreq m c) in
      if i \<noteq> 0
      then let s = STATS m c; hiCnt = ucast (sFreq m s)
           in do { (count, rc) \<leftarrow> RangeDec_GetThreshold8 rc SF;
                   if count < hiCnt
                   then do { rc \<leftarrow> RangeDec_Decode8 rc 0 (ucast (sFreq m s));
                             p \<leftarrow> Ppmd8_Update1_0 (p\<lparr>FoundState := s\<rparr>);
                             Some (int (unat (sSymbol m s)), rc, p) }
                   else let p = p\<lparr>PrevSuccess := 0\<rparr>
                        in case Scan_dec i m s hiCnt count of
                             Inl (s, hiCnt) \<Rightarrow>
                               do { rc \<leftarrow> RangeDec_Decode8 rc (hiCnt - ucast (sFreq m s)) (ucast (sFreq m s));
                                    p \<leftarrow> Ppmd8_Update1 (p\<lparr>FoundState := s\<rparr>);
                                    Some (int (unat (sSymbol m s)), rc, p) }
                           | Inr (s, hiCnt) \<Rightarrow>
                               if SF \<le> count then Some (- 2, rc, p)
                               else do { rc \<leftarrow> RangeDec_Decode8 rc hiCnt (SF - hiCnt);
                                         Dec_escape8 p rc (Mask_down (i + 1) m s PPMD_SetAllBitsIn256Bytes) } }
      else let (j, k) = Ppmd8_GetBinSumm p; prob = BinSumm p j k; s = ONE_STATE c;
               r = drop_bit 14 (rcRange rc); rc = rc\<lparr>rcRange := r\<rparr>
           in if r = 0 then None
              else if rcCode rc div r < ucast prob
              then do { rc \<leftarrow> RangeDec_Decode8 rc 0 (ucast prob);
                        let p = put_bin p j k (PPMD_UPDATE_PROB_0 prob);
                        p \<leftarrow> Ppmd8_UpdateBin (p\<lparr>FoundState := s\<rparr>);
                        Some (int (unat (sSymbol m s)), rc, p) }
              else do { rc \<leftarrow> RangeDec_Decode8 rc (ucast prob) (push_bit 14 1 - ucast prob);
                        let prob = PPMD_UPDATE_PROB_1 prob;
                        let p = put_bin p j k prob;
                        let p = p\<lparr>InitEsc := ucast (PPMD8_kExpEscape ! unat (drop_bit 10 prob))\<rparr>;
                        Dec_escape8 (p\<lparr>PrevSuccess := 0\<rparr>) rc
                          (PPMD_SetAllBitsIn256Bytes(sSymbol m s := 0)) })"

section \<open>Well-formed contexts\<close>

definition num_states8 :: "arena \<Rightarrow> nat \<Rightarrow> nat" where
  "num_states8 m c = unat (NumStats8 m c) + 1"

definition ctx_symbols8 :: "arena \<Rightarrow> nat \<Rightarrow> Byte list" where
  "ctx_symbols8 m c =
     (let n = num_states8 m c
      in if n = 1 then [sSymbol m (ONE_STATE c)] else symbols m (STATS m c) n)"

text \<open>A context: its states lie in the allocation, their symbols are distinct, the frequencies
  are positive (at most 196 in a binary context), \<open>SummFreq\<close> leaves room for the escape and is
  at most \<open>2^15\<close>, the smallest range.  In a context that is not complete the frequencies leave
  room for the largest escape estimate too.  The flags are those the row of \<^verbatim>\<open>See\<close> and of
  \<^verbatim>\<open>BinSumm\<close> has columns for.\<close>

definition ctx_wf8 :: "arena \<Rightarrow> nat \<Rightarrow> nat \<Rightarrow> bool" where
  "ctx_wf8 m lim c \<longleftrightarrow>
     (let n = num_states8 m c; s = STATS m c in
      (if n = 1 then 0 < unat (sFreq m (ONE_STATE c)) \<and> unat (sFreq m (ONE_STATE c)) \<le> 196 \<and>
         unat (Flags8 m c) \<le> 0x18
       else s + 6 * n \<le> lim \<and> distinct (symbols m s n) \<and>
            (\<forall>x \<in> set (states s n). 0 < unat (sFreq m x)) \<and>
            fsum m (states s n) < unat (SummFreq m c) \<and> unat (SummFreq m c) \<le> 2 ^ 15 \<and>
            (n < 256 \<longrightarrow> fsum m (states s n) + 2 ^ 13 \<le> 2 ^ 15) \<and>
            unat (Flags8 m c) \<le> 0x1C))"

inductive chain8 :: "arena \<Rightarrow> nat \<Rightarrow> nat \<Rightarrow> bool" for m lim where
  root: "Suffix m c = 0 \<Longrightarrow> ctx_wf8 m lim c \<Longrightarrow> NumStats8 m c = 255 \<Longrightarrow> chain8 m lim c"
| link: "Suffix m c \<noteq> 0 \<Longrightarrow> ctx_wf8 m lim c \<Longrightarrow>
     set (ctx_symbols8 m c) \<subseteq> set (ctx_symbols8 m (SUFFIX m c)) \<Longrightarrow>
     chain8 m lim (SUFFIX m c) \<Longrightarrow> chain8 m lim c"

definition tables8 :: "CPpmd8 \<Rightarrow> bool" where
  "tables8 p \<longleftrightarrow> tables_ok p \<and> NS2Indx p = [0, 1, 2, 3, 4] @ ns2indx_loop 4 255 5 1 \<and>
     NS2BSIndx p = [0, 2] @ replicate 9 4 @ replicate 245 6"

definition see_ok8 :: "'a ppmd_scheme \<Rightarrow> bool" where
  "see_ok8 p \<longleftrightarrow> (\<forall>i < 24. \<forall>k < 32. 3 \<le> unat (Shift (See p i k)))"

definition bin_ok8 :: "'a ppmd_scheme \<Rightarrow> bool" where
  "bin_ok8 p \<longleftrightarrow> (\<forall>i < 25. \<forall>k < 64. 0 < unat (BinSumm p i k) \<and> unat (BinSumm p i k) < 2 ^ 14)"

definition wf8 :: "CPpmd8 \<Rightarrow> bool" where
  "wf8 p \<longleftrightarrow> chain8 (mem p) (lim8 p) (MinContext p) \<and> tables8 p \<and> see_ok8 p \<and> bin_ok8 p \<and>
     unat (PrevSuccess p) \<le> 1"

text \<open>In the escape loop: the masked symbols are those of the current context.\<close>

definition esc_wf8 :: "CPpmd8 \<Rightarrow> Byte set \<Rightarrow> bool" where
  "esc_wf8 p S \<longleftrightarrow> chain8 (mem p) (lim8 p) (MinContext p) \<and> tables8 p \<and> see_ok8 p \<and>
     S = set (ctx_symbols8 (mem p) (MinContext p))"

lemma chain8_ctx: "chain8 m lim c \<Longrightarrow> ctx_wf8 m lim c"
  by (erule chain8.cases) auto

lemma num_states8_bounds [simp]: "1 \<le> num_states8 m c" "num_states8 m c \<le> 256" "num_states8 m c \<noteq> 0"
  using unat_lt8 [of "NumStats8 m c"] by (simp_all add: num_states8_def)

lemma num_states8_eq: "num_states8 m c = num_states8 m c' \<longleftrightarrow> NumStats8 m c = NumStats8 m c'"
  by (simp add: num_states8_def word_unat_eq_iff)

lemma num_states8_full: "num_states8 m c = 256 \<longleftrightarrow> NumStats8 m c = 255"
  by (simp add: num_states8_def word_unat_eq_iff)

lemma ctx_symbols8_length [simp]: "length (ctx_symbols8 m c) = num_states8 m c"
  by (simp add: ctx_symbols8_def symbols_def Let_def)

lemma ctx_symbols8_distinct: "ctx_wf8 m lim c \<Longrightarrow> distinct (ctx_symbols8 m c)"
  by (auto simp: ctx_wf8_def ctx_symbols8_def Let_def)

lemma card_ctx_symbols8: "ctx_wf8 m lim c \<Longrightarrow> card (set (ctx_symbols8 m c)) = num_states8 m c"
  by (simp add: distinct_card ctx_symbols8_distinct)

lemma ucast8_eq [simp]: "(ucast (x :: Byte) :: UInt32) = ucast y \<longleftrightarrow> x = y"
  by (metis unat_ucast_Byte word_unat_eq_iff)

section \<open>Climbing the suffix chain\<close>

lemma Climb8_chain:
  assumes "chain8 m lim c" "mem p = m" "MinContext p = c"
  shows "\<exists>more o' c'. Climb8 k p = Some (more, p\<lparr>OrderFall := o', MinContext := c'\<rparr>) \<and>
    chain8 m lim c' \<and> set (ctx_symbols8 m c) \<subseteq> set (ctx_symbols8 m c') \<and>
    (if more then ucast (NumStats8 m c') \<noteq> k
     else NumStats8 m c' = 255 \<and> (c' = c \<or> ucast (NumStats8 m c') = k))"
  using assms
proof (induction c arbitrary: p rule: chain8.induct)
  case (root c)
  have "Climb8 k p = Some (False, p\<lparr>OrderFall := OrderFall p + 1, MinContext := c\<rparr>)"
    using root by (subst Climb8.simps) (cases p, simp add: Let_def)
  then show ?case using root
    by (intro exI [of _ False] exI [of _ "OrderFall p + 1"] exI [of _ c]) (auto intro: chain8.root)
next
  case (link c)
  let ?p = "p\<lparr>OrderFall := OrderFall p + 1, MinContext := SUFFIX m c\<rparr>"
  have step: "Climb8 k p = (if ucast (NumStats8 m (SUFFIX m c)) = k then Climb8 k ?p else Some (True, ?p))"
    using link by (subst Climb8.simps) (simp add: Let_def)
  show ?case
  proof (cases "ucast (NumStats8 m (SUFFIX m c)) = k")
    case False
    then show ?thesis using step link by auto
  next
    case True
    obtain more o' c' where 1: "Climb8 k ?p = Some (more, ?p\<lparr>OrderFall := o', MinContext := c'\<rparr>)"
      and 2: "chain8 m lim c'" "set (ctx_symbols8 m (SUFFIX m c)) \<subseteq> set (ctx_symbols8 m c')"
      "if more then ucast (NumStats8 m c') \<noteq> k
       else NumStats8 m c' = 255 \<and> (c' = SUFFIX m c \<or> ucast (NumStats8 m c') = k)"
      using link.IH [of ?p] link.prems by auto
    have eq: "?p\<lparr>OrderFall := o', MinContext := c'\<rparr> = p\<lparr>OrderFall := o', MinContext := c'\<rparr>"
      by (cases p) simp
    from 2 True link.hyps(3) show ?thesis
      using step 1 unfolding eq by (intro exI [of _ more] exI [of _ o'] exI [of _ c']) (auto split: if_splits)
  qed
qed

section \<open>Array indices\<close>

lemma NS2Indx8_bound:
  "list_all (\<lambda>b. unat b < 25) (take 196 ([0, 1, 2, 3, 4] @ ns2indx_loop 4 255 5 1)) \<and>
   list_all (\<lambda>b. unat b < 27) (take 257 ([0, 1, 2, 3, 4] @ ns2indx_loop 4 255 5 1)) \<and>
   length ([0, 1, 2, 3, 4] @ ns2indx_loop 4 255 5 1 :: Byte list) = 260"
  by code_simp

lemma NS2Indx8_nth:
  assumes "tables8 p"
  shows "j < 196 \<Longrightarrow> unat (NS2Indx p ! j) < 25" "j < 257 \<Longrightarrow> unat (NS2Indx p ! j) < 27"
proof -
  have b: "list_all (\<lambda>b. unat b < 25) (take 196 (NS2Indx p))"
    "list_all (\<lambda>b. unat b < 27) (take 257 (NS2Indx p))" "length (NS2Indx p) = 260"
    using NS2Indx8_bound assms by (simp_all only: tables8_def)
  show "j < 196 \<Longrightarrow> unat (NS2Indx p ! j) < 25" "j < 257 \<Longrightarrow> unat (NS2Indx p ! j) < 27"
    using b by (auto simp: list_all_length)
qed

lemma NS2BSIndx8_nth:
  assumes "tables8 p" "j < 256"
  shows "unat (NS2BSIndx p ! j) \<le> 6"
proof -
  have "NS2BSIndx p ! j \<in> set (NS2BSIndx p)"
    using assms by (intro nth_mem) (simp add: tables8_def)
  moreover have "set (NS2BSIndx p) \<subseteq> {0, 2, 4, 6}" using assms by (auto simp: tables8_def)
  ultimately have "NS2BSIndx p ! j \<in> {0, 2, 4, 6}" by blast
  then show ?thesis by auto
qed

lemma see_index8_bounds:
  assumes "tables8 p" "ctx_wf8 (mem p) lim (MinContext p)" "see_index8 p k = (i, j)"
    and "NumStats8 (mem p) (MinContext p) \<noteq> 0" "NumStats8 (mem p) (MinContext p) \<noteq> 255"
  shows "i < 24 \<and> j < 32"
proof -
  let ?m = "mem p" and ?c = "MinContext p"
  have "num_states8 ?m ?c \<noteq> 1" using assms(4) by (simp add: num_states8_def unat_eq_zero)
  then have fl: "unat (Flags8 ?m ?c) \<le> 28" using assms(2) by (simp add: ctx_wf8_def Let_def)
  have "num_states8 ?m ?c \<noteq> 256" using assms(5) by (simp add: num_states8_full)
  then have "unat (NumStats8 ?m ?c) + 2 < 257"
    using num_states8_bounds(2) [of ?m ?c] by (simp add: num_states8_def)
  then have "i < 24" using NS2Indx8_nth(2) [OF assms(1)] assms(3)
    by (fastforce simp: see_index8_def Let_def)
  moreover have "unat (of_bool A + 2 * of_bool B + ucast (Flags8 ?m ?c) :: UInt32) \<le> 1 + 2 + 28" for A B
    by (rule order_trans [OF unat_add_bound] add_mono)+ (use fl in auto)
  then have "j < 32" using assms(3) by (fastforce simp: see_index8_def Let_def less_Suc_eq_le [symmetric])
  ultimately show ?thesis ..
qed

lemma bin_index8_bounds:
  assumes "tables8 p" "unat (PrevSuccess p) \<le> 1" "Ppmd8_GetBinSumm p = (i, k)"
    and "ctx_wf8 (mem p) lim (MinContext p)" "NumStats8 (mem p) (MinContext p) = 0"
  shows "i < 25 \<and> k < 64"
proof -
  let ?m = "mem p" and ?c = "MinContext p"
  let ?b = "ucast (NS2BSIndx p ! unat (NumStats8 ?m (SUFFIX ?m ?c))) :: UInt32"
  let ?r = "drop_bit 26 (RunLength p) AND 0x20"
  have one: "0 < unat (sFreq ?m (ONE_STATE ?c))" "unat (sFreq ?m (ONE_STATE ?c)) \<le> 196"
    "unat (Flags8 ?m ?c) \<le> 24"
    using assms(4,5) by (simp_all add: ctx_wf8_def num_states8_def Let_def)
  have b: "unat ?b \<le> 6" using NS2BSIndx8_nth [OF assms(1)] unat_lt8 by simp
  have r: "unat ?r \<le> 32"
    using word_and_le1 [of "drop_bit 26 (RunLength p)" "0x20"] by (simp add: word_le_nat_alt)
  have f: "unat (ucast (Flags8 ?m ?c) :: UInt32) \<le> 24" using one(3) by simp
  have "unat (?b + PrevSuccess p + ucast (Flags8 ?m ?c) + ?r) \<le> 6 + 1 + 24 + 32"
    by (intro order_trans [OF unat_add_bound] add_mono assms(2) b r f)
  then have "k < 64" using assms(3) by (simp add: Ppmd8_GetBinSumm_def Let_def)
  moreover have "i < 25"
    using assms(3) one NS2Indx8_nth(1) [OF assms(1), of "unat (sFreq ?m (ONE_STATE ?c)) - 1"]
    by (auto simp: Ppmd8_GetBinSumm_def Let_def)
  ultimately show ?thesis by simp
qed

section \<open>The SEE estimate\<close>

lemma lim8_put_see [simp]: "lim8 (put_see p r v) = lim8 p"
  by (simp add: lim8_def arena_top_def)

lemma tables8_put_see [simp]: "tables8 (put_see p r v) = tables8 p"
  by (simp add: tables8_def tables_ok_def)

lemma see_ok8_put_see: "see_ok8 p \<Longrightarrow> Shift v = Shift (get_see p r) \<Longrightarrow> see_ok8 (put_see p r v)"
  by (cases r) (auto simp: see_ok8_def)

lemma esc_wf8_put_see:
  "esc_wf8 p S \<Longrightarrow> Shift v = Shift (get_see p r) \<Longrightarrow> esc_wf8 (put_see p r v) S"
  by (simp add: esc_wf8_def see_ok8_put_see)

text \<open>The escape frequency is at least 1 and less than \<open>2^13\<close>; in the complete context it
  is 1.\<close>

lemma MakeEscFreq8:
  assumes "esc_wf8 p S" "NumStats8 (mem p) (MinContext p) \<noteq> 0"
    and "Ppmd8_MakeEscFreq p k = (see, esc, q)"
  shows "1 \<le> unat esc \<and> unat esc < 2 ^ 13 \<and> (num_states8 (mem p) (MinContext p) = 256 \<longrightarrow> esc = 1) \<and>
    esc_wf8 q S \<and> mem q = mem p \<and> MinContext q = MinContext p \<and> lim8 q = lim8 p"
proof (cases "NumStats8 (mem p) (MinContext p) = 255")
  case True
  then show ?thesis using assms by (auto simp: Ppmd8_MakeEscFreq_def)
next
  case False
  obtain i j where ij: "see_index8 p k = (i, j)" by force
  have b: "i < 24 \<and> j < 32"
    using see_index8_bounds [OF _ chain8_ctx ij assms(2) False] assms(1) unfolding esc_wf8_def by blast
  let ?see = "See p i j"
  let ?r = "drop_bit (unat (Shift ?see)) (Summ ?see)"
  have "3 \<le> unat (Shift ?see)" using assms(1) b by (simp add: esc_wf8_def see_ok8_def)
  then have r: "unat ?r < 2 ^ 13" by (rule drop_shift3)
  have e: "see = SeeRef i j" "esc = ucast ?r + of_bool (?r = 0)"
    "q = put_see p (SeeRef i j) (?see\<lparr>Summ := Summ ?see - ?r\<rparr>)"
    using assms(3) False ij by (auto simp: Ppmd8_MakeEscFreq_def Let_def)
  have "unat esc = (if ?r = 0 then 1 else unat ?r)"
    unfolding e(2) by simp
  then have "1 \<le> unat esc" "unat esc < 2 ^ 13"
    using r by (simp_all add: unat_eq_zero Suc_leI unat_gt_0)
  moreover have "esc_wf8 q S" unfolding e(3) by (rule esc_wf8_put_see [OF assms(1)]) simp
  ultimately show ?thesis using False unfolding e(3) num_states8_full by (simp del: put_see.simps)
qed

section \<open>The decisions of one symbol\<close>

definition trace8 :: "CPpmd8 \<Rightarrow> int \<Rightarrow> (decision list \<times> CPpmd8) option" where
  "trace8 p ch = Encode8 log_decision p [] ch"

lemmas Enc_escape8_induct = Enc_escape8.raw_induct [rotated, consumes 1, case_names step]

lemma Enc_escape8_trace:
  "Enc_escape8 e0 ch p acc cm = Some y \<Longrightarrow> e0 = log_decision \<Longrightarrow>
   \<exists>ds. fst y = acc @ ds \<and> (\<forall>(enc :: 'e \<Rightarrow> decision \<Rightarrow> 'e option) rc.
     Enc_escape8 enc ch p rc cm = map_option (\<lambda>rc'. (rc', snd y)) (steps enc rc ds))"
proof (induction e0 ch p acc cm y rule: Enc_escape8_induct)
  case (step f enc0 ch p acc cm y)
  let ?k = "ucast (NumStats8 (mem p) (MinContext p)) :: UInt32"
  from step obtain more q where cl: "Climb8 ?k p = Some (more, q)"
    by (auto simp: Let_def split: bind_splits)
  show ?case
  proof (cases more)
    case False
    have "y = (acc, q)" using False step(2) cl by (simp add: Let_def)
    moreover have "Enc_escape8 enc ch p rc cm = Some (rc, q)" for enc :: "'e \<Rightarrow> decision \<Rightarrow> 'e option" and rc
      using cl False by (subst Enc_escape8.simps) (simp add: Let_def)
    ultimately show ?thesis by simp
  next
    case True
    have nz: "NumStats8 (mem q) (MinContext q) \<noteq> 0"
      using step(2) cl True by (auto simp: Let_def split: if_splits)
    obtain see esc q2 where mk: "Ppmd8_MakeEscFreq q ?k = (see, esc, q2)"
      by (metis surj_pair)
    let ?m = "mem q2" and ?c = "MinContext q2"
    let ?M = "Masked_enc (unat (NumStats8 ?m ?c) + 1) ?m (STATS ?m ?c) 0 cm ch"
    show ?thesis
    proof (cases ?M)
      case (Inl a)
      then obtain s1 low sm where a: "?M = Inl (s1, low, sm)" by (cases a) auto
      let ?d = "Interval low (ucast (sFreq ?m s1)) (sm + esc)"
      let ?q = "put_see q2 see (Ppmd_See_Update (get_see q2 see))\<lparr>FoundState := s1\<rparr>"
      obtain q3 where q3: "Ppmd8_Update2 ?q = Some q3" "y = (acc @ [?d], q3)"
        using step(2,3) cl True nz mk a
        by (auto simp: Let_def log_decision_def split: bind_splits simp del: Masked_enc.simps)
      show ?thesis
      proof (intro exI [of _ "[?d]"] conjI allI)
        fix enc :: "'e \<Rightarrow> decision \<Rightarrow> 'e option" and rc
        show "Enc_escape8 enc ch p rc cm = map_option (\<lambda>rc'. (rc', snd y)) (steps enc rc [?d])"
          using cl True nz mk a q3
          by (subst Enc_escape8.simps) (cases "enc rc ?d"; simp add: Let_def del: Masked_enc.simps)
      qed (simp add: q3)
    next
      case (Inr b)
      then obtain sm cm' where b: "?M = Inr (sm, cm')" by (cases b) auto
      let ?d = "Interval sm esc (sm + esc)" and ?v = "get_see q2 see"
      let ?q = "put_see q2 see (?v\<lparr>Summ := Summ ?v + ucast (sm + esc)\<rparr>)"
      have "f enc0 ch ?q (acc @ [?d]) cm' = Some y"
        using step(2,3) cl True nz mk b by (auto simp: Let_def log_decision_def simp del: Masked_enc.simps)
      from step(1) [OF this step(3)] obtain ds where ds: "fst y = (acc @ [?d]) @ ds"
        "\<forall>(enc :: 'e \<Rightarrow> decision \<Rightarrow> 'e option) rc.
           Enc_escape8 enc ch ?q rc cm' = map_option (\<lambda>rc'. (rc', snd y)) (steps enc rc ds)"
        by blast
      show ?thesis
      proof (intro exI [of _ "?d # ds"] conjI allI)
        fix enc :: "'e \<Rightarrow> decision \<Rightarrow> 'e option" and rc
        show "Enc_escape8 enc ch p rc cm = map_option (\<lambda>rc'. (rc', snd y)) (steps enc rc (?d # ds))"
          using cl True nz mk b ds(2)
          by (subst Enc_escape8.simps) (cases "enc rc ?d"; simp add: Let_def del: Masked_enc.simps)
      qed (simp add: ds(1))
    qed
  qed
qed

lemma Enc_escape8_from_trace:
  fixes enc :: "'e \<Rightarrow> decision \<Rightarrow> 'e option"
  assumes "Enc_escape8 log_decision ch p acc cm = Some (acc @ ds, p')"
  shows "Enc_escape8 enc ch p rc cm = map_option (\<lambda>rc'. (rc', p')) (steps enc rc ds)"
  using Enc_escape8_trace [OF assms refl, where ?'e = 'e] by simp

lemma Enc_escape8_accE:
  assumes "Enc_escape8 log_decision ch p acc cm = Some (ds', p')"
  obtains ds where "ds' = acc @ ds"
    "Enc_escape8 log_decision ch p acc cm = Some (acc @ ds, p')"
  using Enc_escape8_trace [OF assms refl] assms by auto

text \<open>After the first decision \<open>d\<close> the symbol is escaped.\<close>

lemma Encode8_trace_escape:
  fixes enc :: "'e \<Rightarrow> decision \<Rightarrow> 'e option"
  assumes e: "Enc_escape8 log_decision ch q [d] cm = Some (ds, p')"
    and q: "Encode8 enc p rc ch = Option.bind (enc rc d) (\<lambda>rc. Enc_escape8 enc ch q rc cm)"
  shows "Encode8 enc p rc ch = map_option (\<lambda>rc'. (rc', p')) (steps enc rc ds)"
proof -
  obtain ds2 where ds: "ds = [d] @ ds2"
    and e2: "Enc_escape8 log_decision ch q [d] cm = Some ([d] @ ds2, p')"
    using Enc_escape8_accE [OF e] by metis
  show ?thesis using ds Enc_escape8_from_trace [OF e2] q by (cases "enc rc d") auto
qed

lemma Encode8_trace:
  assumes "trace8 p ch = Some (ds, p')"
  shows "Encode8 enc p rc ch = map_option (\<lambda>rc'. (rc', p')) (steps enc rc ds)"
proof -
  let ?m = "mem p" and ?c = "MinContext p"
  let ?n = "unat (NumStats8 ?m ?c)" and ?s = "STATS ?m ?c"
  note defs = trace8_def Encode8_def Let_def log_decision_def
  show ?thesis
  proof (cases "?n = 0")
    case True
    obtain i k where g: "Ppmd8_GetBinSumm p = (i, k)" by (metis surj_pair)
    show ?thesis
    proof (cases "int (unat (sSymbol ?m (ONE_STATE ?c))) = ch")
      case hit: True
      then show ?thesis using assms True g by (auto simp: defs split: bind_splits)
    next
      case False
      from assms True g False obtain cm q2 where
        "Enc_escape8 log_decision ch q2 [Bit True (ucast (BinSumm p i k))] cm = Some (ds, p')"
        "Encode8 enc p rc ch =
          Option.bind (enc rc (Bit True (ucast (BinSumm p i k)))) (\<lambda>rc. Enc_escape8 enc ch q2 rc cm)"
        by (simp add: defs)
      then show ?thesis by (rule Encode8_trace_escape)
    qed
  next
    case False
    let ?SF = "ucast (SummFreq ?m ?c) :: UInt32"
    let ?S = "Scan_enc ?n ?m ?s (ucast (sFreq ?m ?s)) ch"
    consider (first) "int (unat (sSymbol ?m ?s)) = ch"
      | (found) s sm where "int (unat (sSymbol ?m ?s)) \<noteq> ch" "?S = Inl (s, sm)"
      | (esc) s sm where "int (unat (sSymbol ?m ?s)) \<noteq> ch" "?S = Inr (s, sm)"
      by (metis obj_sumE surj_pair)
    then show ?thesis
    proof cases
      case first
      then show ?thesis using assms False by (auto simp: defs split: bind_splits)
    next
      case found
      then show ?thesis using assms False by (auto simp: defs split: bind_splits)
    next
      case esc
      let ?d = "Interval sm (?SF - sm) ?SF"
      from assms False esc obtain cm q2 where
        "Enc_escape8 log_decision ch q2 [?d] cm = Some (ds, p')"
        "Encode8 enc p rc ch = Option.bind (enc rc ?d) (\<lambda>rc. Enc_escape8 enc ch q2 rc cm)"
        by (simp add: defs del: Mask_down.simps)
      then show ?thesis by (rule Encode8_trace_escape)
    qed
  qed
qed

section \<open>The decoder follows\<close>

lemma Climb8_esc:
  assumes "esc_wf8 p S"
  shows "\<exists>more q. Climb8 (ucast (NumStats8 (mem p) (MinContext p))) p = Some (more, q) \<and>
    mem q = mem p \<and> lim8 q = lim8 p \<and>
    (if more then esc_wf8 q (set (ctx_symbols8 (mem q) (MinContext q))) \<and>
         S \<subseteq> set (ctx_symbols8 (mem q) (MinContext q)) \<and>
         card S < num_states8 (mem q) (MinContext q)
     else S = UNIV)"
proof -
  let ?m = "mem p" and ?c = "MinContext p"
  let ?k = "ucast (NumStats8 ?m ?c) :: UInt32"
  have ch: "chain8 ?m (lim8 p) ?c" and S: "S = set (ctx_symbols8 ?m ?c)"
    using assms by (simp_all add: esc_wf8_def)
  obtain more o' c' where 1: "Climb8 ?k p = Some (more, p\<lparr>OrderFall := o', MinContext := c'\<rparr>)"
    and 2: "chain8 ?m (lim8 p) c'" "set (ctx_symbols8 ?m ?c) \<subseteq> set (ctx_symbols8 ?m c')"
    and 3: "if more then ucast (NumStats8 ?m c') \<noteq> ?k
       else NumStats8 ?m c' = 255 \<and> (c' = ?c \<or> ucast (NumStats8 ?m c') = ?k)"
    using Climb8_chain [OF ch refl refl, of ?k] by blast
  have cS: "card S = num_states8 ?m ?c"
    unfolding S by (rule card_ctx_symbols8 [OF chain8_ctx [OF ch]])
  have c': "card (set (ctx_symbols8 ?m c')) = num_states8 ?m c'"
    by (rule card_ctx_symbols8 [OF chain8_ctx [OF 2(1)]])
  have le: "card S \<le> card (set (ctx_symbols8 ?m c'))"
    unfolding S by (rule card_mono [OF _ 2(2)]) simp
  let ?q = "p\<lparr>OrderFall := o', MinContext := c'\<rparr>"
  have lim: "lim8 ?q = lim8 p" by (simp add: lim8_def arena_top_def)
  show ?thesis
  proof (cases more)
    case True
    then have "num_states8 ?m c' \<noteq> num_states8 ?m ?c" using 3 by (auto simp: num_states8_eq)
    then have "card S < num_states8 ?m c'"
      using le cS c' by (simp add: order_less_le)
    moreover have "esc_wf8 ?q (set (ctx_symbols8 ?m c'))"
      using assms 2(1) lim by (simp add: esc_wf8_def tables8_def tables_ok_def see_ok8_def)
    ultimately show ?thesis using 1 2(2) lim S True by auto
  next
    case False
    then have "num_states8 ?m ?c = 256" using 3 by (auto simp: num_states8_full)
    then have "card S = 256" using cS by simp
    then have "S = UNIV" by (intro card_subset_eq) (simp_all add: card_Byte_UNIV)
    then show ?thesis using 1 lim False by auto
  qed
qed

lemma fsum_unmasked_le: "fsum m (unmasked m S s n) \<le> fsum m (states s n)"
proof -
  have "fsum m (filter P xs) \<le> fsum m xs" for P xs by (induction xs) auto
  then show ?thesis by (simp add: unmasked_def)
qed

lemma ctx_wf8_states:
  assumes "ctx_wf8 m lim c" "n = num_states8 m c" "s = STATS m c" "n \<noteq> 1"
  shows "s + 6 * n \<le> lim \<and> distinct (symbols m s n) \<and> (\<forall>x \<in> set (states s n). 0 < unat (sFreq m x)) \<and>
    fsum m (states s n) < unat (SummFreq m c) \<and> unat (SummFreq m c) \<le> 2 ^ 15 \<and>
    (n < 256 \<longrightarrow> fsum m (states s n) + 2 ^ 13 \<le> 2 ^ 15)"
  using assms by (simp add: ctx_wf8_def Let_def)

lemma round8:
  assumes wf: "esc_wf8 p S"
    and cl: "Climb8 (ucast (NumStats8 (mem p) (MinContext p))) p = Some (True, q)"
    and mk: "Ppmd8_MakeEscFreq q (ucast (NumStats8 (mem p) (MinContext p))) = (see, esc, q2)"
    and m: "m = mem q2" and c: "c = MinContext q2" and n: "n = num_states8 m c"
    and s: "s = STATS m c" and nz: "NumStats8 (mem q) (MinContext q) \<noteq> 0"
  shows "mem q = m \<and> MinContext q = c \<and> n \<noteq> 1 \<and> distinct (symbols m s n) \<and>
    s + 6 * n \<le> lim8 q \<and> n \<le> 256 \<and> S \<subseteq> set (symbols m s n) \<and> card S < n \<and> 1 \<le> unat esc \<and>
    unat (ucast (NumStats8 m c) - (ucast (NumStats8 (mem p) (MinContext p)) :: UInt32)) = n - card S \<and>
    (\<forall>x \<in> set (states s n). 0 < unat (sFreq m x)) \<and>
    fsum m (unmasked m S s n) + unat esc \<le> 2 ^ 15 \<and> esc_wf8 q2 (set (symbols m s n))"
proof -
  let ?k = "ucast (NumStats8 (mem p) (MinContext p)) :: UInt32"
  obtain q': "mem q = mem p" "lim8 q = lim8 p"
    and wfq: "esc_wf8 q (set (ctx_symbols8 (mem q) (MinContext q)))"
    and sub: "S \<subseteq> set (ctx_symbols8 (mem q) (MinContext q))"
    and lt: "card S < num_states8 (mem q) (MinContext q)"
    using Climb8_esc [OF wf] cl by auto
  have cS: "card S = num_states8 (mem p) (MinContext p)"
    using wf card_ctx_symbols8 [OF chain8_ctx] unfolding esc_wf8_def by blast
  note esc = MakeEscFreq8 [OF wfq nz mk]
  have eq: "mem q = m" "MinContext q = c" "lim8 q2 = lim8 q" using esc m c by auto
  have lt': "card S < n" using lt eq n by simp
  have n1: "n \<noteq> 1" using nz eq n by (simp add: num_states8_def unat_eq_zero)
  have syms: "ctx_symbols8 m c = symbols m s n" using n1 n s by (simp add: ctx_symbols8_def Let_def)
  have "ctx_wf8 m (lim8 q) c" using wfq eq by (auto simp: esc_wf8_def intro: chain8_ctx)
  note C = ctx_wf8_states [OF this n s n1]
  have "unat (ucast (NumStats8 m c) - ?k) = n - card S"
    using lt' cS n by (subst unat_sub_le) (simp_all add: num_states8_def)
  moreover have "fsum m (unmasked m S s n) + unat esc \<le> 2 ^ 15"
  proof (cases "n = 256")
    case True
    then show ?thesis using C esc eq n fsum_unmasked_le [of m S s n] by simp
  next
    case False
    then have "n < 256" using n num_states8_bounds(2) [of m c] by linarith
    then show ?thesis using C esc fsum_unmasked_le [of m S s n] by simp
  qed
  moreover have "n \<le> 256" using n by simp
  ultimately show ?thesis using esc eq n1 lt' sub syms C by simp
qed

lemma dec8_IntervalE:
  assumes "dec8 d (Interval start sz tot) = Some d'"
  obtains count d1 where "RangeDec_GetThreshold8 d tot = Some (count, d1)"
    "unat start \<le> unat count" "unat count < unat start + unat sz" "RangeDec_Decode8 d1 start sz = Some d'"
  using assms by (auto split: bind_splits if_splits)

lemma Dec_escape8_follows:
  "Enc_escape8 e0 ch p acc cm = Some y \<Longrightarrow> e0 = log_decision \<Longrightarrow> esc_wf8 p S \<Longrightarrow>
   cm = mask_of S \<Longrightarrow> - 1 \<le> ch \<Longrightarrow> ch \<le> 255 \<Longrightarrow> \<forall>x \<in> S. int (unat x) \<noteq> ch \<Longrightarrow>
   \<exists>ds. fst y = acc @ ds \<and> list_all ok8 ds \<and>
     (\<forall>d d'. steps dec8 d ds = Some d' \<longrightarrow> Dec_escape8 p d cm = Some (ch, d', snd y))"
proof (induction e0 ch p acc cm y arbitrary: S rule: Enc_escape8_induct)
  case (step f enc0 ch p acc cm y)
  note IH = step(1) and body = step(2) and e0 = step(3) and wf = step(4) and cm = step(5)
  let ?k = "ucast (NumStats8 (mem p) (MinContext p)) :: UInt32"
  obtain more q where cl: "Climb8 ?k p = Some (more, q)"
    and cl2: "if more then True else S = UNIV"
    using Climb8_esc [OF wf] by auto
  show ?case
  proof (cases more)
    case False
    then have "ch = - 1" using cl2 step(6-8) all_Bytes by auto
    moreover have "y = (acc, q)" using False body cl by (simp add: Let_def)
    moreover have "Dec_escape8 p d cm = Some (- 1, d, q)" for d
      using cl False by (subst Dec_escape8.simps) (simp add: Let_def)
    ultimately show ?thesis by simp
  next
    case True
    with cl have cl: "Climb8 ?k p = Some (True, q)" by simp
    have nz: "NumStats8 (mem q) (MinContext q) \<noteq> 0"
      using body cl by (auto simp: Let_def split: if_splits)
    obtain see esc q2 where mk: "Ppmd8_MakeEscFreq q ?k = (see, esc, q2)"
      by (metis surj_pair)
    define m c where mc: "m = mem q2" "c = MinContext q2"
    define n s where ns: "n = num_states8 m c" "s = STATS m c"
    note r = round8 [OF wf cl mk mc ns nz]
    then have q: "mem q = m" "MinContext q = c"
      and M: "distinct (symbols m s n)" "s + 6 * n \<le> lim8 q" "n \<le> 256"
        "S \<subseteq> set (symbols m s n)" "card S < n"
      and esc: "1 \<le> unat esc" "fsum m (unmasked m S s n) + unat esc \<le> 2 ^ 15"
      and num: "unat (ucast (NumStats8 m c) - ?k) = n - card S"
      and fr: "\<forall>x \<in> set (states s n). 0 < unat (sFreq m x)"
      and wf2: "esc_wf8 q2 (set (symbols m s n))"
      by blast+
    have nz: "NumStats8 m c \<noteq> 0" using nz q by simp
    let ?M = "Masked_enc n m s 0 cm ch"
    show ?thesis
    proof (cases ?M)
      case (Inl a)
      then obtain s1 low sm where a: "?M = Inl (s1, low, sm)" by (cases a) auto
      let ?f = "ucast (sFreq m s1) :: UInt32"
      let ?d = "Interval low ?f (sm + esc)"
      let ?q = "put_see q2 see (Ppmd_See_Update (get_see q2 see))\<lparr>FoundState := s1\<rparr>"
      note F = Masked_found [OF M a [unfolded cm] step(8)]
      have tot: "unat (sm + esc) = unat sm + unat esc"
        using F esc by (subst unat_add_le) auto
      obtain q3 where q3: "Ppmd8_Update2 ?q = Some q3" "y = (acc @ [?d], q3)"
        using body e0 cl mk a q nz
        by (auto simp: Let_def log_decision_def mc ns num_states8_def
            split: bind_splits simp del: Masked_enc.simps)
      have "ok8 ?d" using F fr tot esc by auto
      moreover have "Dec_escape8 p d cm = Some (ch, d', snd y)"
        if "steps dec8 d [?d] = Some d'" for d d'
      proof -
        from that have "dec8 d ?d = Some d'" by (auto split: bind_splits)
        then obtain count d1 where th: "RangeDec_GetThreshold8 d (sm + esc) = Some (count, d1)"
          "unat low \<le> unat count" "unat count < unat low + unat ?f" "RangeDec_Decode8 d1 low ?f = Some d'"
          by (rule dec8_IntervalE)
        then obtain hi2 where "Pick_dec m (unmasked m S s n) 0 count = Some (s1, hi2)"
          "hi2 - ?f = low" using F by auto
        moreover have "count < sm" using F th(3) by (simp add: word_less_nat_alt)
        ultimately show ?thesis
          using cl mk q num F th q3 cm mc ns nz
          by (subst Dec_escape8.simps) (simp add: Let_def add.commute [of esc sm])
      qed
      ultimately show ?thesis using q3 by (intro exI [where x = "[?d]"]) auto
    next
      case (Inr b)
      then obtain sm cm' where b: "?M = Inr (sm, cm')" by (cases b) auto
      let ?d = "Interval sm esc (sm + esc)" and ?v = "get_see q2 see"
      let ?q = "put_see q2 see (?v\<lparr>Summ := Summ ?v + ucast (sm + esc)\<rparr>)"
      note F = Masked_escaped [OF M b [unfolded cm]]
      have tot: "unat (sm + esc) = unat sm + unat esc"
        using F esc by (subst unat_add_le) auto
      have rec: "f enc0 ch ?q (acc @ [?d]) cm' = Some y"
        using body e0 cl mk b q nz
        by (auto simp: Let_def log_decision_def mc ns num_states8_def simp del: Masked_enc.simps)
      have wfq: "esc_wf8 ?q (set (symbols m s n))" by (rule esc_wf8_put_see [OF wf2]) simp
      obtain ds where ds: "fst y = (acc @ [?d]) @ ds" "list_all ok8 ds"
        "\<forall>d d'. steps dec8 d ds = Some d' \<longrightarrow> Dec_escape8 ?q d cm' = Some (ch, d', snd y)"
        using IH [OF rec e0 wfq] F step(6,7) by blast
      have "ok8 ?d" using F tot esc by auto
      moreover have "Dec_escape8 p d cm = Some (ch, d', snd y)"
        if st: "steps dec8 d (?d # ds) = Some d'" for d d'
      proof -
        from st obtain dm where "dec8 d ?d = Some dm" and dm: "steps dec8 dm ds = Some d'"
          by (auto split: bind_splits simp del: dec8.simps)
        from this(1) obtain count d1 where th: "RangeDec_GetThreshold8 d (sm + esc) = Some (count, d1)"
          "unat sm \<le> unat count" "unat count < unat sm + unat esc" "RangeDec_Decode8 d1 sm esc = Some dm"
          by (rule dec8_IntervalE)
        have "\<not> count < sm" "\<not> sm + esc \<le> count"
          using th tot by (simp_all add: word_less_nat_alt word_le_nat_alt)
        then show ?thesis
          using cl mk q num F th ds(3) dm cm mc ns nz
          by (subst Dec_escape8.simps) (simp add: Let_def add.commute [of esc sm])
      qed
      ultimately show ?thesis using ds by (intro exI [where x = "?d # ds"]) auto
    qed
  qed
qed

text \<open>The state in which the escape loop starts.\<close>

lemma esc_wf8_start_bin:
  assumes "wf8 p" "NumStats8 (mem p) (MinContext p) = 0" "Ppmd8_GetBinSumm p = (i, k)"
  shows "esc_wf8 (put_bin p i k v\<lparr>InitEsc := e\<rparr>\<lparr>PrevSuccess := 0\<rparr>)
    {sSymbol (mem p) (ONE_STATE (MinContext p))} \<and> i < 25 \<and> k < 64"
proof -
  have "i < 25 \<and> k < 64"
    using bin_index8_bounds [OF _ _ assms(3) chain8_ctx assms(2)] assms(1) unfolding wf8_def by blast
  then show ?thesis
    using assms(1,2)
    by (simp add: esc_wf8_def wf8_def put_bin_def tables8_def tables_ok_def see_ok8_def
        lim8_def arena_top_def ctx_symbols8_def num_states8_def Let_def)
qed

lemma esc_wf8_start:
  assumes "wf8 p" "n = num_states8 (mem p) (MinContext p)" "n \<noteq> 1"
  shows "esc_wf8 (p\<lparr>PrevSuccess := 0\<rparr>) (set (symbols (mem p) (STATS (mem p) (MinContext p)) n))"
  using assms
  by (simp add: esc_wf8_def wf8_def tables8_def tables_ok_def see_ok8_def lim8_def arena_top_def
      ctx_symbols8_def Let_def)

text \<open>A decoder step on a bit is the comparison and the narrowing of the code.\<close>

lemma dec8_BitE:
  assumes "dec8 d (Bit b prob) = Some d'"
  obtains "drop_bit 14 (rcRange d) \<noteq> 0"
    "rcCode d div drop_bit 14 (rcRange d) < prob \<longleftrightarrow> \<not> b"
    "(if b then RangeDec_Decode8 (d\<lparr>rcRange := drop_bit 14 (rcRange d)\<rparr>) prob (push_bit 14 1 - prob)
      else RangeDec_Decode8 (d\<lparr>rcRange := drop_bit 14 (rcRange d)\<rparr>) 0 prob) = Some d'"
  using assms by (auto simp: Let_def split: if_splits)

text \<open>A context with one state.\<close>

lemma DecodeSymbol8_follows_bin:
  assumes wf: "wf8 p" and ch: "- 1 \<le> ch" "ch \<le> 255" and tr: "trace8 p ch = Some (ds, p')"
    and one: "NumStats8 (mem p) (MinContext p) = 0"
  shows "list_all ok8 ds \<and>
    (\<forall>d d'. steps dec8 d ds = Some d' \<longrightarrow> Ppmd8_DecodeSymbol p d = Some (ch, d', p'))"
proof -
  define m c where mc: "m = mem p" "c = MinContext p"
  obtain i k where g: "Ppmd8_GetBinSumm p = (i, k)" by (metis surj_pair)
  let ?prob = "BinSumm p i k" and ?one = "ONE_STATE c"
  note st = esc_wf8_start_bin [OF wf one g]
  have prob: "0 < unat ?prob" "unat ?prob < 2 ^ 14"
    using st wf by (simp_all add: wf8_def bin_ok8_def)
  note defs = trace8_def Encode8_def Let_def log_decision_def
  show ?thesis
  proof (cases "int (unat (sSymbol m ?one)) = ch")
    case True
    let ?q = "put_bin p i k (PPMD_UPDATE_PROB_0 ?prob)\<lparr>FoundState := ?one\<rparr>"
    have ds: "ds = [Bit False (ucast ?prob)]" and up: "Ppmd8_UpdateBin ?q = Some p'"
      using tr True one mc g by (auto simp: defs split: bind_splits)
    have "Ppmd8_DecodeSymbol p d = Some (ch, d', p')" if "steps dec8 d ds = Some d'" for d d'
    proof -
      have "dec8 d (Bit False (ucast ?prob)) = Some d'"
        using that ds by (auto split: bind_splits simp del: dec8.simps)
      then show ?thesis
        using up True one mc g by (elim dec8_BitE) (simp add: Ppmd8_DecodeSymbol_def Let_def)
    qed
    then show ?thesis using ds prob by simp
  next
    case False
    let ?p1 = "PPMD_UPDATE_PROB_1 ?prob"
    let ?q = "put_bin p i k ?p1\<lparr>InitEsc := ucast (PPMD8_kExpEscape ! unat (drop_bit 10 ?p1))\<rparr>
      \<lparr>PrevSuccess := 0\<rparr>"
    let ?cm = "PPMD_SetAllBitsIn256Bytes(sSymbol m ?one := 0)"
    have e: "Enc_escape8 log_decision ch ?q [Bit True (ucast ?prob)] ?cm = Some (ds, p')"
      using tr False one mc g by (auto simp: defs)
    have wfq: "esc_wf8 ?q {sSymbol m ?one}" using st mc by simp
    have cm: "?cm = mask_of {sSymbol m ?one}" by (simp add: mask_of_empty)
    obtain ds2 where ds: "ds = [Bit True (ucast ?prob)] @ ds2" and ok: "list_all ok8 ds2"
      and fol: "\<forall>d d'. steps dec8 d ds2 = Some d' \<longrightarrow> Dec_escape8 ?q d ?cm = Some (ch, d', p')"
      using Dec_escape8_follows [OF e refl wfq cm ch] False by auto
    have "Ppmd8_DecodeSymbol p d = Some (ch, d', p')" if st: "steps dec8 d ds = Some d'" for d d'
    proof -
      obtain d1 where d1: "dec8 d (Bit True (ucast ?prob)) = Some d1" "steps dec8 d1 ds2 = Some d'"
        using st ds by (auto split: bind_splits simp del: dec8.simps)
      from d1(1) show ?thesis
        using d1(2) fol one mc g by (elim dec8_BitE) (simp add: Ppmd8_DecodeSymbol_def Let_def)
    qed
    then show ?thesis using ds ok prob by simp
  qed
qed

text \<open>A context with several states.\<close>

lemma DecodeSymbol8_follows_many:
  assumes wf: "wf8 p" and ch: "- 1 \<le> ch" "ch \<le> 255" and tr: "trace8 p ch = Some (ds, p')"
    and many: "NumStats8 (mem p) (MinContext p) \<noteq> 0"
  shows "list_all ok8 ds \<and>
    (\<forall>d d'. steps dec8 d ds = Some d' \<longrightarrow> Ppmd8_DecodeSymbol p d = Some (ch, d', p'))"
proof -
  define m c where mc: "m = mem p" "c = MinContext p"
  define k where k: "k = unat (NumStats8 m c)"
  define s where s: "s = STATS m c"
  let ?f = "ucast (sFreq m s) :: UInt32" and ?SF = "ucast (SummFreq m c) :: UInt32"
  have k0: "k \<noteq> 0" "k \<le> 255" using many mc k unat_lt8 [of "NumStats8 m c"] by (simp_all add: unat_eq_zero)
  have n: "Suc k = num_states8 m c" using k by (simp add: num_states8_def)
  have wfc: "ctx_wf8 m (lim8 p) c" using wf mc by (auto simp: wf8_def intro: chain8_ctx)
  note C = ctx_wf8_states [OF wfc n s]
  have M: "fsum m (states s (Suc k)) < unat (SummFreq m c)"
    and fr: "\<forall>x \<in> set (states s (Suc k)). 0 < unat (sFreq m x)"
    and SF: "unat ?SF \<le> 2 ^ 15"
    using C k0 by simp_all
  have b: "unat ?f + 255 * k < 2 ^ 32" using k0 unat_lt8 [of "sFreq m s"] by simp
  have f: "unat ?f + fsum m (states (s + 6) k) = fsum m (states s (Suc k))" by simp
  let ?S = "Scan_enc k m s ?f ch"
  note defs = trace8_def Encode8_def Let_def log_decision_def
  consider (first) "int (unat (sSymbol m s)) = ch"
    | (found) s1 sm where "int (unat (sSymbol m s)) \<noteq> ch" "?S = Inl (s1, sm)"
    | (esc) s1 sm where "int (unat (sSymbol m s)) \<noteq> ch" "?S = Inr (s1, sm)"
    by (metis obj_sumE surj_pair)
  then show ?thesis
  proof cases
    case first
    let ?d = "Interval 0 ?f ?SF" and ?q = "p\<lparr>FoundState := s\<rparr>"
    have ds: "ds = [?d]" and up: "Ppmd8_Update1_0 ?q = Some p'"
      using tr first k0 k s mc by (auto simp: defs split: bind_splits)
    have "ok8 ?d" using M f fr SF by simp
    moreover have "Ppmd8_DecodeSymbol p d = Some (ch, d', p')"
      if st: "steps dec8 d ds = Some d'" for d d'
    proof -
      from st ds have "dec8 d ?d = Some d'" by (auto split: bind_splits simp del: dec8.simps)
      then obtain count d1 where th: "RangeDec_GetThreshold8 d ?SF = Some (count, d1)"
        "unat count < unat (0 :: UInt32) + unat ?f" "RangeDec_Decode8 d1 0 ?f = Some d'"
        by (rule dec8_IntervalE)
      then show ?thesis using up first k0 k s mc
        by (simp add: Ppmd8_DecodeSymbol_def Let_def word_less_nat_alt)
    qed
    ultimately show ?thesis using ds by simp
  next
    case found
    let ?g = "ucast (sFreq m s1) :: UInt32"
    let ?d = "Interval sm ?g ?SF" and ?q = "p\<lparr>PrevSuccess := 0\<rparr>\<lparr>FoundState := s1\<rparr>"
    note F = Scan_enc_Inl [OF found(2) b]
    have ds: "ds = [?d]" and up: "Ppmd8_Update1 ?q = Some p'"
      using tr found k0 k s mc by (auto simp: defs split: bind_splits)
    have "s1 \<in> set (states s (Suc k))" using F by simp
    then have "ok8 ?d" using F M f fr SF by auto
    moreover have "Ppmd8_DecodeSymbol p d = Some (ch, d', p')"
      if st: "steps dec8 d ds = Some d'" for d d'
    proof -
      from st ds have "dec8 d ?d = Some d'" by (auto split: bind_splits simp del: dec8.simps)
      then obtain count d1 where th: "RangeDec_GetThreshold8 d ?SF = Some (count, d1)"
        "unat sm \<le> unat count" "unat count < unat sm + unat ?g" "RangeDec_Decode8 d1 sm ?g = Some d'"
        by (rule dec8_IntervalE)
      then have sc: "Scan_dec k m s ?f count = Inl (s1, sm + ?g)" using F by simp
      have "\<not> count < ?f" using F th(2) by (simp add: word_less_nat_alt)
      then show ?thesis using up sc th F found k0 k s mc
        by (simp add: Ppmd8_DecodeSymbol_def Let_def)
    qed
    ultimately show ?thesis using ds by simp
  next
    case esc
    note F = Scan_enc_Inr [OF esc(2) b]
    have sm: "unat sm = fsum m (states s (Suc k))" using F f by simp
    have lt: "unat sm < unat ?SF" using sm M by simp
    then have gap: "unat (?SF - sm) = unat ?SF - unat sm" by (intro unat_sub_le) simp
    let ?d = "Interval sm (?SF - sm) ?SF" and ?q = "p\<lparr>PrevSuccess := 0\<rparr>"
    let ?cm = "Mask_down (Suc k) m s1 PPMD_SetAllBitsIn256Bytes"
    have e: "Enc_escape8 log_decision ch ?q [?d] ?cm = Some (ds, p')"
      using tr esc k0 k s mc by (simp add: defs del: Mask_down.simps)
    have "s1 = s + 6 * (Suc k - 1)" using F by simp
    then have cm: "?cm = mask_of (set (symbols m s (Suc k)))"
      using Mask_down_mask_of [of "Suc k" m s "{}"]
      by (simp add: mask_of_empty del: Mask_down.simps symbols_simps)
    have wfq: "esc_wf8 ?q (set (symbols m s (Suc k)))"
      using esc_wf8_start [OF wf n [unfolded mc]] k0 n s mc by simp
    have "\<forall>x \<in> set (symbols m s (Suc k)). int (unat x) \<noteq> ch" using F esc(1) by simp
    then obtain ds2 where ds: "ds = [?d] @ ds2" and ok: "list_all ok8 ds2"
      and fol: "\<forall>d d'. steps dec8 d ds2 = Some d' \<longrightarrow> Dec_escape8 ?q d ?cm = Some (ch, d', p')"
      using Dec_escape8_follows [OF e refl wfq cm ch] by auto
    have "ok8 ?d" using lt gap SF by simp
    moreover have "Ppmd8_DecodeSymbol p d = Some (ch, d', p')"
      if st: "steps dec8 d ds = Some d'" for d d'
    proof -
      obtain d1 where d1: "dec8 d ?d = Some d1" "steps dec8 d1 ds2 = Some d'"
        using st ds by (auto split: bind_splits simp del: dec8.simps)
      obtain count d2 where th: "RangeDec_GetThreshold8 d ?SF = Some (count, d2)"
        "unat sm \<le> unat count" "unat count < unat sm + unat (?SF - sm)"
        "RangeDec_Decode8 d2 sm (?SF - sm) = Some d1"
        by (rule dec8_IntervalE [OF d1(1)])
      then have sc: "Scan_dec k m s ?f count = Inr (s1, sm)" using F by simp
      have "\<not> count < ?f" "\<not> ?SF \<le> count"
        using F th gap lt by (simp_all add: word_less_nat_alt word_le_nat_alt)
      then show ?thesis using sc th d1(2) fol k0 k s mc
        by (simp add: Ppmd8_DecodeSymbol_def Let_def del: Mask_down.simps)
    qed
    ultimately show ?thesis using ds ok by simp
  qed
qed

lemma DecodeSymbol8_follows:
  assumes "wf8 p" "- 1 \<le> ch" "ch \<le> 255" "trace8 p ch = Some (ds, p')"
  shows "list_all ok8 ds \<and>
    (\<forall>d d'. steps dec8 d ds = Some d' \<longrightarrow> Ppmd8_DecodeSymbol p d = Some (ch, d', p'))"
  using DecodeSymbol8_follows_bin [OF assms] DecodeSymbol8_follows_many [OF assms] by blast

end
