(* ===== verification/Decoder_Stream.thy ===== *)
theory Decoder_Stream
  imports Ppmd7_Codec Ppmd8_Codec "HOL-Library.Sublist"
begin

text \<open>
  The symbol decoders read their input from the front and look at nothing else of it: what is left
  is a suffix of the input, and as long as something is left, it could have been anything.
\<close>

section \<open>The 7z decoder\<close>

text \<open>\<open>swap7 n v d\<close>: the last \<open>n\<close> bytes of the input replaced by \<open>v\<close>.\<close>

definition swap7 :: "nat \<Rightarrow> Byte list \<Rightarrow> CPpmd7z_RangeDec \<Rightarrow> CPpmd7z_RangeDec" where
  "swap7 n v d = d\<lparr>dStream := take (length (dStream d) - n) (dStream d) @ v\<rparr>"

definition left7 :: "CPpmd7z_RangeDec \<Rightarrow> nat" where
  "left7 d = length (dStream d)"

lemma swap7_sel [simp]: "dRange (swap7 n v d) = dRange d" "dCode (swap7 n v d) = dCode d"
  by (simp_all add: swap7_def)

lemma swap7_upd [simp]:
  "(swap7 n v d)\<lparr>dRange := r\<rparr> = swap7 n v (d\<lparr>dRange := r\<rparr>)"
  "(swap7 n v d)\<lparr>dCode := c\<rparr> = swap7 n v (d\<lparr>dCode := c\<rparr>)"
  by (simp_all add: swap7_def)

lemma left7_upd [simp]: "left7 (d\<lparr>dRange := r\<rparr>) = left7 d" "left7 (d\<lparr>dCode := c\<rparr>) = left7 d"
  by (simp_all add: left7_def)

lemma Code_shift_suffix: "suffix (dStream (Code_shift d)) (dStream d)"
  by (cases "dStream d") (simp_all add: Code_shift_def suffix_ConsI)

lemma Code_shift_left: "left7 (Code_shift d) \<le> left7 d"
  using Code_shift_suffix [of d] by (simp add: left7_def suffix_length_le)

lemma Code_shift_range [simp]: "dRange (Code_shift d) = dRange d"
  by (simp add: Code_shift_def split: prod.splits)

lemma Code_shift_swap: "0 < n \<Longrightarrow> n \<le> left7 (Code_shift d) \<Longrightarrow> Code_shift (swap7 n v d) = swap7 n v (Code_shift d)"
  by (cases "dStream d") (auto simp: Code_shift_def swap7_def left7_def Suc_diff_le)

lemma Normalize_suffix: "suffix (dStream (Range_Normalize d)) (dStream d)"
  using Code_shift_suffix [of d]
    Code_shift_suffix [of "(Code_shift d)\<lparr>dRange := push_bit 8 (dRange (Code_shift d))\<rparr>"]
  by (auto simp: Range_Normalize_def Let_def intro: suffix_order.trans)

lemma Normalize_swap:
  "0 < n \<Longrightarrow> n \<le> left7 (Range_Normalize d) \<Longrightarrow> Range_Normalize (swap7 n v d) = swap7 n v (Range_Normalize d)"
  using Code_shift_left [of "(Code_shift d)\<lparr>dRange := push_bit 8 (dRange d)\<rparr>"]
  by (auto simp: Range_Normalize_def Let_def Code_shift_swap split: if_splits)

lemma Decode_suffix: "suffix (dStream (Range_Decode d start sz)) (dStream d)"
  using Normalize_suffix [of "d\<lparr>dCode := dCode d - start * dRange d, dRange := dRange d * sz\<rparr>"]
  by (simp add: Range_Decode_def)

lemma Decode_suffix2: "dStream d = s \<Longrightarrow> suffix (dStream (Range_Decode d start sz)) s"
  using Decode_suffix [of d start sz] by simp

lemma Decode_swap:
  "0 < n \<Longrightarrow> n \<le> left7 (Range_Decode d start sz) \<Longrightarrow>
     Range_Decode (swap7 n v d) start sz = swap7 n v (Range_Decode d start sz)"
  by (simp add: Range_Decode_def Normalize_swap)

lemma DecodeBit_suffix: "Range_DecodeBit d sizpe = (b, d') \<Longrightarrow> suffix (dStream d') (dStream d)"
  using Normalize_suffix [of "d\<lparr>dRange := drop_bit 14 (dRange d) * sizpe\<rparr>"]
    Normalize_suffix [of "d\<lparr>dCode := dCode d - drop_bit 14 (dRange d) * sizpe,
      dRange := dRange d - drop_bit 14 (dRange d) * sizpe\<rparr>"]
  by (auto simp: Range_DecodeBit_def Let_def split: if_splits)

lemma DecodeBit_swap:
  "0 < n \<Longrightarrow> Range_DecodeBit d sizpe = (b, d') \<Longrightarrow> n \<le> left7 d' \<Longrightarrow>
     Range_DecodeBit (swap7 n v d) sizpe = (b, swap7 n v d')"
  by (auto simp: Range_DecodeBit_def Let_def Normalize_swap split: if_splits)

lemma GetThreshold_suffix: "Range_GetThreshold d tot = Some (c, d') \<Longrightarrow> dStream d' = dStream d"
  by (auto simp: Range_GetThreshold_def Let_def split: if_splits)

lemma GetThreshold_swap:
  "Range_GetThreshold (swap7 n v d) tot = map_option (\<lambda>(c, d). (c, swap7 n v d)) (Range_GetThreshold d tot)"
  by (simp add: Range_GetThreshold_def Let_def)

lemmas Dec_escape7_induct = Dec_escape7.raw_induct [rotated, consumes 1, case_names step]

lemma Dec_escape7_suffix:
  "Dec_escape7 p rc M = Some (ch, rc', p') \<Longrightarrow> suffix (dStream rc') (dStream rc)"
proof (induction p rc M "(ch, rc', p')" arbitrary: ch rc' p' rule: Dec_escape7_induct)
  case (step rec p rc M)
  show ?case using step(2)
    by (auto simp: Let_def split: bind_splits if_splits prod.splits dest!: GetThreshold_suffix step(1)
        intro: Decode_suffix2 suffix_order.trans [OF _ Decode_suffix2])
qed

lemma DecodeSymbol7_suffix:
  "Ppmd7_DecodeSymbol p rc = Some (ch, rc', p') \<Longrightarrow> suffix (dStream rc') (dStream rc)"
  by (auto simp: Ppmd7_DecodeSymbol_def Let_def split: bind_splits if_splits prod.splits sum.splits
      dest!: GetThreshold_suffix Dec_escape7_suffix DecodeBit_suffix
      intro: Decode_suffix2 suffix_order.trans [OF _ Decode_suffix2] suffix_order.trans)

lemma Dec_escape7_swap:
  assumes "Dec_escape7 p rc M = Some (ch, rc', p')" "0 < n"
  shows "suffix (dStream rc') (dStream rc) \<and>
    (n \<le> left7 rc' \<longrightarrow> Dec_escape7 p (swap7 n v rc) M = Some (ch, swap7 n v rc', p'))"
  using assms(1)
proof (induction p rc M "(ch, rc', p')" arbitrary: ch rc' p' rule: Dec_escape7_induct)
  case (step rec p rc M)
  define nm where "nm = (ucast (NumStats7 (mem p) (MinContext p)) :: UInt32)"
  obtain more p1 where 1: "Climb7 nm p = Some (more, p1)"
    using step(2) by (auto simp: nm_def Let_def split: bind_splits)
  show ?case
  proof (cases more)
    case False
    then show ?thesis using step(2) 1 by (subst Dec_escape7.simps) (simp add: nm_def Let_def)
  next
    case True
    define m where "m = mem p1"
    obtain ps hi where 2: "Collect_dec m (lim7 p1) (unat (ucast (NumStats7 m (MinContext p1)) - nm)) M
        (STATS m (MinContext p1)) [] 0 = Some (ps, hi)"
      using step(2) 1 True by (auto simp: nm_def m_def Let_def split: bind_splits)
    obtain se fs p2 where 3: "Ppmd7_MakeEscFreq p1 nm = (se, fs, p2)" by (cases "Ppmd7_MakeEscFreq p1 nm")
    obtain count rc1 where 4: "Range_GetThreshold rc (fs + hi) = Some (count, rc1)"
      using step(2) 1 2 3 True by (auto simp: nm_def m_def Let_def split: bind_splits)
    have thr: "Range_GetThreshold (swap7 n v rc) (fs + hi) = Some (count, swap7 n v rc1)"
      by (simp add: GetThreshold_swap 4)
    note run = 1 [unfolded nm_def] 2 [unfolded nm_def m_def] 3 [unfolded nm_def] True
    consider "count < hi" | "\<not> count < hi" "fs + hi \<le> count" | "\<not> count < hi" "\<not> fs + hi \<le> count"
      by blast
    then show ?thesis
    proof cases
      case 1
      then show ?thesis using step(2) assms(2) run 4 thr GetThreshold_suffix [OF 4]
        by (subst Dec_escape7.simps) (auto simp: Let_def Decode_swap split: bind_splits intro: Decode_suffix2)
    next
      case 2
      then show ?thesis using step(2) run 4 thr GetThreshold_suffix [OF 4] by (subst Dec_escape7.simps) (auto simp: Let_def)
    next
      case 3
      define rc2 where "rc2 = Range_Decode rc1 hi fs"
      define p3 where "p3 = put_see p2 se ((get_see p2 se)\<lparr>Summ := Summ (get_see p2 se) + ucast (fs + hi)\<rparr>)"
      have r: "rec p3 rc2 (Mask_list m ps M) = Some (ch, rc', p')" and ps: "ps \<noteq> []"
        using step(2) run 4 3 by (auto simp: Let_def rc2_def p3_def m_def split: if_splits)
      have e: "suffix (dStream rc') (dStream rc2)"
        "n \<le> left7 rc' \<Longrightarrow> Dec_escape7 p3 (swap7 n v rc2) (Mask_list m ps M) = Some (ch, swap7 n v rc', p')"
        using step(1) [OF r] by blast+
      have "suffix (dStream rc2) (dStream rc)"
        using GetThreshold_suffix [OF 4] by (simp add: rc2_def Decode_suffix2)
      then have suf: "suffix (dStream rc') (dStream rc)" using e(1) by (rule suffix_order.trans [rotated])
      have "Range_Decode (swap7 n v rc1) hi fs = swap7 n v rc2" if "n \<le> left7 rc'"
        using e(1) that assms(2) by (auto simp: rc2_def left7_def dest!: suffix_length_le intro!: Decode_swap)
      then show ?thesis using run thr 3 ps e suf
        by (subst Dec_escape7.simps) (simp add: Let_def p3_def m_def)
    qed
  qed
qed

lemma Escape_Decode_swap:
  assumes "Dec_escape7 p (Range_Decode rc a b) M = Some (ch, rc', p')" "0 < n" "n \<le> left7 rc'"
  shows "Dec_escape7 p (Range_Decode (swap7 n v rc) a b) M = Some (ch, swap7 n v rc', p')"
proof -
  note e = Dec_escape7_swap [OF assms(1,2), of v]
  then have "n \<le> left7 (Range_Decode rc a b)"
    using assms(3) by (auto simp: left7_def dest: suffix_length_le)
  then show ?thesis using e assms(2,3) by (simp add: Decode_swap)
qed

lemma DecodeSymbol7_swap:
  assumes "Ppmd7_DecodeSymbol p rc = Some (ch, rc', p')" "0 < n" "n \<le> left7 rc'"
  shows "Ppmd7_DecodeSymbol p (swap7 n v rc) = Some (ch, swap7 n v rc', p')"
proof -
  let ?m = "mem p" and ?c = "MinContext p"
  let ?n = "unat (NumStats7 ?m ?c)" and ?SF = "ucast (SummFreq ?m ?c) :: UInt32"
  let ?s = "STATS ?m ?c"
  have n0: "?n \<noteq> 0"
  proof
    assume "?n = 0"
    then show False using assms(1) by (simp add: Ppmd7_DecodeSymbol_def Let_def)
  qed
  show ?thesis
  proof (cases "?n = 1")
    case False
    obtain count rc1 where t: "Range_GetThreshold rc ?SF = Some (count, rc1)"
      using assms(1) False n0 by (auto simp: Ppmd7_DecodeSymbol_def Let_def split: bind_splits)
    have ts: "Range_GetThreshold (swap7 n v rc) ?SF = Some (count, swap7 n v rc1)"
      by (simp add: GetThreshold_swap t)
    show ?thesis
    proof (cases "count < ucast (sFreq ?m ?s)")
      case True
      then show ?thesis using assms False n0 t ts
        by (auto simp: Ppmd7_DecodeSymbol_def Let_def Decode_swap split: bind_splits)
    next
      case c: False
      show ?thesis
      proof (cases "Scan_dec (?n - 1) ?m ?s (ucast (sFreq ?m ?s)) count")
        case (Inl x)
        then show ?thesis using assms False n0 t ts c
          by (cases x) (auto simp: Ppmd7_DecodeSymbol_def Let_def Decode_swap split: bind_splits)
      next
        case (Inr x)
        then show ?thesis using assms False n0 t ts c
          by (cases x) (auto simp: Ppmd7_DecodeSymbol_def Let_def Escape_Decode_swap split: if_splits)
      qed
    qed
  next
    case True
    obtain i k p1 where g: "Ppmd7_GetBinSumm p = (i, k, p1)" by (cases "Ppmd7_GetBinSumm p")
    obtain b rc1 where d: "Range_DecodeBit rc (ucast (BinSumm p1 i k)) = (b, rc1)" by fastforce
    show ?thesis
    proof (cases "b = 0")
      case b: True
      then show ?thesis using assms True g d DecodeBit_swap [OF assms(2) d, of v]
        by (auto simp: Ppmd7_DecodeSymbol_def Let_def split: bind_splits)
    next
      case b: False
      define M p2 where M: "M = PPMD_SetAllBitsIn256Bytes(sSymbol ?m (ONE_STATE ?c) := 0)"
        and p2: "p2 = put_bin p1 i k (PPMD_UPDATE_PROB_1 (BinSumm p1 i k))
           \<lparr>InitEsc := ucast (PPMD7_kExpEscape ! unat (drop_bit 10 (PPMD_UPDATE_PROB_1 (BinSumm p1 i k)))),
            PrevSuccess := 0\<rparr>"
      have e: "Dec_escape7 p2 rc1 M = Some (ch, rc', p')"
        using assms(1) True g d b by (simp add: Ppmd7_DecodeSymbol_def Let_def M p2)
      note s = Dec_escape7_swap [OF e assms(2), of v]
      then have "n \<le> left7 rc1" using assms(3) by (auto simp: left7_def dest: suffix_length_le)
      then show ?thesis using s assms(3) True g DecodeBit_swap [OF assms(2) d, of v] b
        by (simp add: Ppmd7_DecodeSymbol_def Let_def M p2)
    qed
  qed
qed

section \<open>The carryless decoder\<close>

definition swap8 :: "nat \<Rightarrow> Byte list \<Rightarrow> CPpmd8_rc \<Rightarrow> CPpmd8_rc" where
  "swap8 n v d = d\<lparr>rcIn := take (length (rcIn d) - n) (rcIn d) @ v\<rparr>"

definition left8 :: "CPpmd8_rc \<Rightarrow> nat" where
  "left8 d = length (rcIn d)"

lemma swap8_sel [simp]: "rcRange (swap8 n v d) = rcRange d" "rcCode (swap8 n v d) = rcCode d"
  "rcLow (swap8 n v d) = rcLow d"
  by (simp_all add: swap8_def)

lemma swap8_upd [simp]:
  "(swap8 n v d)\<lparr>rcRange := r\<rparr> = swap8 n v (d\<lparr>rcRange := r\<rparr>)"
  "(swap8 n v d)\<lparr>rcCode := c\<rparr> = swap8 n v (d\<lparr>rcCode := c\<rparr>)"
  "(swap8 n v d)\<lparr>rcLow := l\<rparr> = swap8 n v (d\<lparr>rcLow := l\<rparr>)"
  by (simp_all add: swap8_def)

lemma left8_upd [simp]: "left8 (d\<lparr>rcRange := r\<rparr>) = left8 d" "left8 (d\<lparr>rcCode := c\<rparr>) = left8 d"
  "left8 (d\<lparr>rcLow := l\<rparr>) = left8 d"
  by (simp_all add: left8_def)

lemma Code_shift8_suffix: "suffix (rcIn (Code_shift8 d)) (rcIn d)"
  by (cases "rcIn d") (simp_all add: Code_shift8_def suffix_ConsI)

lemma Code_shift8_swap: "0 < n \<Longrightarrow> n \<le> left8 (Code_shift8 d) \<Longrightarrow> Code_shift8 (swap8 n v d) = swap8 n v (Code_shift8 d)"
  by (cases "rcIn d") (auto simp: Code_shift8_def swap8_def left8_def Suc_diff_le)

lemmas RangeDec_Normalize8_induct = RangeDec_Normalize8.raw_induct [rotated, consumes 1, case_names step]

lemma Normalize8_swap:
  assumes "RangeDec_Normalize8 d = Some d'" "0 < n"
  shows "suffix (rcIn d') (rcIn d) \<and>
    (n \<le> left8 d' \<longrightarrow> RangeDec_Normalize8 (swap8 n v d) = Some (swap8 n v d'))"
  using assms(1)
proof (induction d d' rule: RangeDec_Normalize8_induct)
  case (step rec d d')
  show ?case
  proof (cases "norm_cond8 (rcLow d) (rcRange d)")
    case None
    then show ?thesis using step(2) by (simp add: RangeDec_Normalize8.simps)
  next
    case (Some r)
    define d1 where "d1 = (Code_shift8 d)\<lparr>rcLow := push_bit 8 (rcLow d), rcRange := push_bit 8 r\<rparr>"
    have "rec d1 = Some d'" using step(2) Some by (simp add: d1_def)
    note e = step(1) [OF this]
    have s: "suffix (rcIn d1) (rcIn d)" using Code_shift8_suffix [of d] by (simp add: d1_def)
    have "RangeDec_Normalize8 (swap8 n v d) = Some (swap8 n v d')" if n: "n \<le> left8 d'"
    proof -
      have "n \<le> left8 d1" using e n by (auto simp: left8_def dest: suffix_length_le)
      then have "Code_shift8 (swap8 n v d) = swap8 n v (Code_shift8 d)"
        using assms(2) by (intro Code_shift8_swap) (simp_all add: d1_def)
      then show ?thesis using e n Some by (subst RangeDec_Normalize8.simps) (simp add: d1_def)
    qed
    then show ?thesis using e s by (blast intro: suffix_order.trans)
  qed
qed

lemma Decode8_swap:
  assumes "RangeDec_Decode8 d start sz = Some d'" "0 < n"
  shows "suffix (rcIn d') (rcIn d) \<and>
    (n \<le> left8 d' \<longrightarrow> RangeDec_Decode8 (swap8 n v d) start sz = Some (swap8 n v d'))"
  using Normalize8_swap [OF assms(1) [unfolded RangeDec_Decode8_def Let_def] assms(2), of v]
  by (simp add: RangeDec_Decode8_def Let_def)

lemma GetThreshold8_suffix: "RangeDec_GetThreshold8 d tot = Some (c, d') \<Longrightarrow> rcIn d' = rcIn d"
  by (auto simp: RangeDec_GetThreshold8_def Let_def split: if_splits)

lemma GetThreshold8_swap:
  "RangeDec_GetThreshold8 (swap8 n v d) tot = map_option (\<lambda>(c, d). (c, swap8 n v d)) (RangeDec_GetThreshold8 d tot)"
  by (simp add: RangeDec_GetThreshold8_def Let_def)

lemmas Dec_escape8_induct = Dec_escape8.raw_induct [rotated, consumes 1, case_names step]

lemma Dec_escape8_swap:
  assumes "Dec_escape8 p rc M = Some (ch, rc', p')" "0 < n"
  shows "suffix (rcIn rc') (rcIn rc) \<and>
    (n \<le> left8 rc' \<longrightarrow> Dec_escape8 p (swap8 n v rc) M = Some (ch, swap8 n v rc', p'))"
  using assms(1)
proof (induction p rc M "(ch, rc', p')" arbitrary: ch rc' p' rule: Dec_escape8_induct)
  case (step rec p rc M)
  define nm where "nm = (ucast (NumStats8 (mem p) (MinContext p)) :: UInt32)"
  obtain more p1 where 1: "Climb8 nm p = Some (more, p1)"
    using step(2) by (auto simp: nm_def Let_def split: bind_splits)
  show ?case
  proof (cases more)
    case False
    then show ?thesis using step(2) 1 by (subst Dec_escape8.simps) (simp add: nm_def Let_def)
  next
    case True
    define m where "m = mem p1"
    have nz: "NumStats8 m (MinContext p1) \<noteq> 0"
    proof
      assume "NumStats8 m (MinContext p1) = 0"
      then show False using step(2) 1 True by (simp add: nm_def m_def Let_def)
    qed
    obtain ps hi where 2: "Collect_dec m (lim8 p1) (unat (ucast (NumStats8 m (MinContext p1)) - nm)) M
        (STATS m (MinContext p1)) [] 0 = Some (ps, hi)"
      using step(2) 1 True nz by (auto simp: nm_def m_def Let_def split: bind_splits)
    obtain se fs p2 where 3: "Ppmd8_MakeEscFreq p1 nm = (se, fs, p2)" by (cases "Ppmd8_MakeEscFreq p1 nm")
    obtain count rc1 where 4: "RangeDec_GetThreshold8 rc (fs + hi) = Some (count, rc1)"
      using step(2) 1 2 3 True nz by (auto simp: nm_def m_def Let_def split: bind_splits)
    have thr: "RangeDec_GetThreshold8 (swap8 n v rc) (fs + hi) = Some (count, swap8 n v rc1)"
      by (simp add: GetThreshold8_swap 4)
    have in1: "rcIn rc1 = rcIn rc" by (rule GetThreshold8_suffix [OF 4])
    note run = 1 [unfolded nm_def] 2 [unfolded nm_def m_def] 3 [unfolded nm_def] True nz [unfolded m_def]
    consider "count < hi" | "\<not> count < hi" "fs + hi \<le> count" | "\<not> count < hi" "\<not> fs + hi \<le> count"
      by blast
    then show ?thesis
    proof cases
      case 1
      then obtain s h rc2 where "Pick_dec m ps 0 count = Some (s, h)"
        and d: "RangeDec_Decode8 rc1 (h - ucast (sFreq m s)) (ucast (sFreq m s)) = Some rc2"
        using step(2) run 4 by (auto simp: Let_def m_def split: bind_splits)
      then show ?thesis using step(2) run 4 thr in1 1 Decode8_swap [OF d assms(2), of v]
        by (subst Dec_escape8.simps) (auto simp: Let_def m_def split: bind_splits)
    next
      case 2
      then show ?thesis using step(2) run 4 thr in1 by (subst Dec_escape8.simps) (auto simp: Let_def)
    next
      case 3
      define p3 where "p3 = put_see p2 se ((get_see p2 se)\<lparr>Summ := Summ (get_see p2 se) + ucast (fs + hi)\<rparr>)"
      obtain rc2 where d: "RangeDec_Decode8 rc1 hi fs = Some rc2"
        and r: "rec p3 rc2 (Mask_list m ps M) = Some (ch, rc', p')" and ps: "ps \<noteq> []"
        using step(2) run 4 3 by (auto simp: Let_def p3_def m_def split: if_splits bind_splits)
      have e: "suffix (rcIn rc') (rcIn rc2)"
        "n \<le> left8 rc' \<Longrightarrow> Dec_escape8 p3 (swap8 n v rc2) (Mask_list m ps M) = Some (ch, swap8 n v rc', p')"
        using step(1) [OF r] by blast+
      note D = Decode8_swap [OF d assms(2), of v]
      have "suffix (rcIn rc') (rcIn rc)" using D e(1) in1 by (auto intro: suffix_order.trans)
      moreover have "n \<le> left8 rc' \<Longrightarrow> n \<le> left8 rc2"
        using e(1) by (auto simp: left8_def dest!: suffix_length_le)
      ultimately show ?thesis using run thr 3 ps e D
        by (subst Dec_escape8.simps) (simp add: Let_def p3_def m_def)
    qed
  qed
qed

lemma Escape_Decode8_swap:
  assumes "RangeDec_Decode8 rc a b = Some rc1" "Dec_escape8 p rc1 M = Some (ch, rc', p')" "0 < n" "n \<le> left8 rc'"
  shows "RangeDec_Decode8 (swap8 n v rc) a b = Some (swap8 n v rc1) \<and>
    Dec_escape8 p (swap8 n v rc1) M = Some (ch, swap8 n v rc', p')"
proof -
  note e = Dec_escape8_swap [OF assms(2,3), of v]
  then have "n \<le> left8 rc1" using assms(4) by (auto simp: left8_def dest: suffix_length_le)
  then show ?thesis using e assms(4) Decode8_swap [OF assms(1,3), of v] by simp
qed

lemma DecodeSymbol8_suffix:
  "Ppmd8_DecodeSymbol p rc = Some (ch, rc', p') \<Longrightarrow> suffix (rcIn rc') (rcIn rc)"
  by (auto simp: Ppmd8_DecodeSymbol_def Let_def split: bind_splits if_splits prod.splits sum.splits
      dest!: GetThreshold8_suffix Dec_escape8_swap [of _ _ _ _ _ _ 1, THEN conjunct1]
        Decode8_swap [of _ _ _ _ 1, THEN conjunct1]
      intro: suffix_order.trans)

lemma DecodeSymbol8_swap:
  assumes "Ppmd8_DecodeSymbol p rc = Some (ch, rc', p')" "0 < n" "n \<le> left8 rc'"
  shows "Ppmd8_DecodeSymbol p (swap8 n v rc) = Some (ch, swap8 n v rc', p')"
proof -
  let ?m = "mem p" and ?c = "MinContext p"
  let ?i = "unat (NumStats8 ?m ?c)" and ?SF = "ucast (SummFreq ?m ?c) :: UInt32"
  let ?s = "STATS ?m ?c"
  show ?thesis
  proof (cases "?i = 0")
    case False
    obtain count rc1 where t: "RangeDec_GetThreshold8 rc ?SF = Some (count, rc1)"
      using assms(1) False by (auto simp: Ppmd8_DecodeSymbol_def Let_def split: bind_splits)
    have ts: "RangeDec_GetThreshold8 (swap8 n v rc) ?SF = Some (count, swap8 n v rc1)"
      by (simp add: GetThreshold8_swap t)
    show ?thesis
    proof (cases "count < ucast (sFreq ?m ?s)")
      case True
      then obtain rc2 where d: "RangeDec_Decode8 rc1 0 (ucast (sFreq ?m ?s)) = Some rc2" and "rc2 = rc'"
        using assms(1) False t by (auto simp: Ppmd8_DecodeSymbol_def Let_def split: bind_splits)
      then show ?thesis using assms False t ts True Decode8_swap [OF d assms(2), of v]
        by (auto simp: Ppmd8_DecodeSymbol_def Let_def split: bind_splits)
    next
      case c: False
      show ?thesis
      proof (cases "Scan_dec ?i ?m ?s (ucast (sFreq ?m ?s)) count")
        case (Inl x)
        obtain s h where x: "x = (s, h)" by (cases x)
        obtain rc2 where d: "RangeDec_Decode8 rc1 (h - ucast (sFreq ?m s)) (ucast (sFreq ?m s)) = Some rc2" and "rc2 = rc'"
          using assms(1) False t c Inl x by (auto simp: Ppmd8_DecodeSymbol_def Let_def split: bind_splits)
        then show ?thesis using assms False t ts c Inl x Decode8_swap [OF d assms(2), of v]
          by (auto simp: Ppmd8_DecodeSymbol_def Let_def split: bind_splits)
      next
        case (Inr x)
        obtain s h where x: "x = (s, h)" by (cases x)
        show ?thesis
        proof (cases "?SF \<le> count")
          case True
          then show ?thesis using assms False t ts c Inr x by (auto simp: Ppmd8_DecodeSymbol_def Let_def)
        next
          case le: False
          obtain rc2 where d: "RangeDec_Decode8 rc1 h (?SF - h) = Some rc2"
            and e: "Dec_escape8 (p\<lparr>PrevSuccess := 0\<rparr>) rc2 (Mask_down (?i + 1) ?m s PPMD_SetAllBitsIn256Bytes) = Some (ch, rc', p')"
            using assms(1) False t c Inr x le by (auto simp: Ppmd8_DecodeSymbol_def Let_def split: bind_splits)
          from Escape_Decode8_swap [OF d e assms(2,3)] show ?thesis using False t ts c Inr x le
            by (simp add: Ppmd8_DecodeSymbol_def Let_def)
        qed
      qed
    qed
  next
    case True
    obtain j k where g: "Ppmd8_GetBinSumm p = (j, k)" by (cases "Ppmd8_GetBinSumm p")
    let ?pr = "BinSumm p j k" and ?r = "drop_bit 14 (rcRange rc)"
    let ?rc = "rc\<lparr>rcRange := ?r\<rparr>"
    have r: "?r \<noteq> 0"
    proof
      assume "?r = 0"
      then show False using assms(1) True g by (simp add: Ppmd8_DecodeSymbol_def Let_def)
    qed
    show ?thesis
    proof (cases "rcCode rc div ?r < ucast ?pr")
      case c: True
      then obtain rc2 where d: "RangeDec_Decode8 ?rc 0 (ucast ?pr) = Some rc2" and "rc2 = rc'"
        using assms(1) True g r by (auto simp: Ppmd8_DecodeSymbol_def Let_def split: bind_splits)
      then show ?thesis using assms True g r c Decode8_swap [OF d assms(2), of v]
        by (auto simp: Ppmd8_DecodeSymbol_def Let_def split: bind_splits)
    next
      case c: False
      define M p2 where M: "M = PPMD_SetAllBitsIn256Bytes(sSymbol ?m (ONE_STATE ?c) := 0)"
        and p2: "p2 = put_bin p j k (PPMD_UPDATE_PROB_1 ?pr)
           \<lparr>InitEsc := ucast (PPMD8_kExpEscape ! unat (drop_bit 10 (PPMD_UPDATE_PROB_1 ?pr))), PrevSuccess := 0\<rparr>"
      obtain rc2 where d: "RangeDec_Decode8 ?rc (ucast ?pr) (push_bit 14 1 - ucast ?pr) = Some rc2"
        and e: "Dec_escape8 p2 rc2 M = Some (ch, rc', p')"
        using assms(1) True g r c by (auto simp: Ppmd8_DecodeSymbol_def Let_def M p2 split: bind_splits)
      from Escape_Decode8_swap [OF d e assms(2,3)] show ?thesis using True g r c
        by (simp add: Ppmd8_DecodeSymbol_def Let_def M p2)
    qed
  qed
qed

end
