(* ===== verification/Ppmd_Start.thy ===== *)
theory Ppmd_Start
  imports Ppmd_Codec
begin

text \<open>
  The layout of the arena that \<^verbatim>\<open>RestartModel\<close> builds in \<^verbatim>\<open>Ppmd7.c\<close> and in \<^verbatim>\<open>Ppmd8.c\<close>: the order-0
  context in the last unit, its 256 states at the start of the units.
\<close>

text \<open>The sizes the headers allow: at least \<^verbatim>\<open>PPMD7_MIN_MEM_SIZE\<close>, and offsets below \<open>2^32\<close>.\<close>

definition arena_fits :: "'a ppmd_scheme \<Rightarrow> bool" where
  "arena_fits p \<longleftrightarrow> 2 ^ 11 \<le> unat (Size p) \<and> unat (AlignOffset p) + unat (Size p) \<le> 2 ^ 32"

definition start_ctx :: "'a ppmd_scheme \<Rightarrow> nat" where
  "start_ctx p = unat (AlignOffset p) + unat (Size p) - 12"

definition start_units :: "'a ppmd_scheme \<Rightarrow> nat" where
  "start_units p = unat (AlignOffset p) + unat (Size p) - unat (Size p) div 8 div 12 * 7 * 12"

lemma start_units_bounds:
  assumes "arena_fits p"
  shows "unat (AlignOffset p) \<le> start_units p" "start_units p + 1764 \<le> unat (AlignOffset p) + unat (Size p)"
    "start_units p + 1752 \<le> start_ctx p" "start_ctx p + 12 = unat (AlignOffset p) + unat (Size p)"
    "start_units p < 2 ^ 32" "start_ctx p < 2 ^ 32"
    "unat (AlignOffset p) + unat (Size p) div 8 \<le> start_units p"
proof -
  let ?z = "unat (Size p)"
  have z: "2048 \<le> ?z" using assms by (simp add: arena_fits_def)
  have top: "unat (AlignOffset p) + ?z \<le> 2 ^ 32" using assms by (simp add: arena_fits_def)
  have lo: "1764 \<le> ?z div 8 div 12 * 7 * 12" using z by simp
  have hi: "?z div 8 div 12 * 7 * 12 + ?z div 8 \<le> ?z" by simp
  show "unat (AlignOffset p) \<le> start_units p" using hi by (simp add: start_units_def)
  show "start_units p + 1764 \<le> unat (AlignOffset p) + ?z" using lo hi by (simp add: start_units_def)
  show "start_ctx p + 12 = unat (AlignOffset p) + ?z" using z by (simp add: start_ctx_def)
  show "start_units p + 1752 \<le> start_ctx p" using lo hi z by (simp add: start_units_def start_ctx_def)
  show "start_units p < 2 ^ 32" "start_ctx p < 2 ^ 32"
    using top z by (simp_all add: start_units_def start_ctx_def)
  show "unat (AlignOffset p) + ?z div 8 \<le> start_units p" using hi by (simp add: start_units_def)
qed

lemma and_3: "unat (x AND 3) = unat x mod 4" for x :: UInt32
proof -
  have "x AND 3 = take_bit 2 x" by (simp add: take_bit_eq_mask mask_eq_exp_minus_1)
  then have "unat (x AND 3) = take_bit 2 (unat x)" by (simp only: unsigned_take_bit_eq)
  then show ?thesis by (simp add: take_bit_eq_mod)
qed

text \<open>An allocator that has memory, with some content in it.\<close>

definition full_alloc :: "nat \<Rightarrow> arena option" where
  "full_alloc n = Some (\<lambda>a. 0xA5)"

end
