(* ===== verification/Ppmd7_Roundtrip.thy ===== *)
theory Ppmd7_Roundtrip
  imports Ppmd7_Codec Ppmd_Start
begin

text \<open>
  The 7z codec as a whole: a freshly initialised model is well formed, encoder and decoder
  are an instance of \<open>symbol_codec\<close>, and messages come back.
\<close>

section \<open>The model after a restart\<close>

text \<open>The sizes \<^verbatim>\<open>Ppmd7.h\<close> allows: at least \<^verbatim>\<open>PPMD7_MIN_MEM_SIZE\<close>, and the allocation with the
  guard unit below \<open>2^32\<close>.\<close>

definition arena_ok7 :: "CPpmd7 \<Rightarrow> bool" where
  "arena_ok7 p \<longleftrightarrow> 2 ^ 11 \<le> unat (Size p) \<and> unat (AlignOffset p) + unat (Size p) + 12 \<le> 2 ^ 32"

lemma arena_ok7_fits: "arena_ok7 p \<Longrightarrow> arena_fits p"
  by (simp add: arena_ok7_def arena_fits_def)

lemma RestartModel7_fields:
  "MinContext (RestartModel7 p) = start_ctx p" "MaxContext (RestartModel7 p) = start_ctx p"
  "FoundState (RestartModel7 p) = start_units p" "UnitsStart (RestartModel7 p) = start_units p"
  "LoUnit (RestartModel7 p) = start_units p + 1536" "HiUnit (RestartModel7 p) = start_ctx p"
  "Text (RestartModel7 p) = unat (AlignOffset p)" "OrderFall (RestartModel7 p) = MaxOrder p"
  "MaxOrder (RestartModel7 p) = MaxOrder p" "PrevSuccess (RestartModel7 p) = 0"
  "Size (RestartModel7 p) = Size p" "AlignOffset (RestartModel7 p) = AlignOffset p"
  "GlueCount (RestartModel7 p) = 0"
  by (simp_all add: RestartModel7_def Let_def start_ctx_def start_units_def UNIT_SIZE_def U2B_def)

lemma RestartModel7_mem:
  "mem (RestartModel7 p) = fresh_states (wr_Stats (wr_SummFreq (wr_NumStats7
     (wr_Suffix (mem p) (start_ctx p) 0) (start_ctx p) 256) (start_ctx p) 257) (start_ctx p)
     (REF (start_units p))) (start_units p)"
  by (simp add: RestartModel7_def Let_def start_ctx_def start_units_def UNIT_SIZE_def)

text \<open>The order-0 context with its 256 states.\<close>

lemma RestartModel7_root:
  assumes "arena_ok7 p"
  defines "m \<equiv> mem (RestartModel7 p)" and "c \<equiv> start_ctx p" and "s \<equiv> start_units p"
  shows "NumStats7 m c = 256" "SummFreq m c = 257" "Suffix m c = 0" "STATS m c = s"
    "symbols m s 256 = map word_of_nat [0..<256]" "fsum m (states s 256) = 256"
    "\<And>i. i < 256 \<Longrightarrow> sSymbol m (s + 6 * i) = word_of_nat i"
    "\<And>i. i < 256 \<Longrightarrow> sFreq m (s + 6 * i) = 1" "\<And>i. i < 256 \<Longrightarrow> sSuccessor m (s + 6 * i) = 0"
proof -
  note b = start_units_bounds [OF arena_ok7_fits [OF assms(1)]]
  have c: "s + 1536 \<le> c" using b(3) by (simp add: c_def s_def)
  note m = m_def RestartModel7_mem c_def [symmetric] s_def [symmetric]
  note defs = NumStats7_def SummFreq_def Suffix_def Stats_def wr_NumStats7_def wr_SummFreq_def
    wr_Suffix_def wr_Stats_def
  show "NumStats7 m c = 256" "SummFreq m c = 257" "Suffix m c = 0"
    using c by (simp_all add: m defs mem_frame)
  have "Stats m c = REF s" using c by (simp add: m defs mem_frame)
  then show "STATS m c = s" using b(5) by (simp add: STATS_def GetPtr_REF s_def)
  show "symbols m s 256 = map word_of_nat [0..<256]" "fsum m (states s 256) = 256"
    by (simp_all add: m fresh_states_symbols fresh_states_fsum)
  show "sSymbol m (s + 6 * i) = word_of_nat i" "sFreq m (s + 6 * i) = 1"
    "sSuccessor m (s + 6 * i) = 0" if "i < 256" for i
    using that by (simp_all add: m fresh_states_fields)
qed

lemma kInitBinEsc7_range:
  "k < 64 \<Longrightarrow> 7999 \<le> unat (kInitBinEsc7 ! (k mod 8)) \<and> unat (kInitBinEsc7 ! (k mod 8)) \<le> 26162"
proof -
  have "list_all (\<lambda>b. 7999 \<le> unat b \<and> unat b \<le> 26162) kInitBinEsc7"
    by (simp add: kInitBinEsc7_def)
  moreover have "k mod 8 < length kInitBinEsc7" by (simp add: kInitBinEsc7_def)
  ultimately show ?thesis unfolding list_all_length by blast
qed

lemma bin_start:
  assumes "i < 128" "k < 64"
  shows "0 < unat (kDefaultBinSumm7 i k) \<and> unat (kDefaultBinSumm7 i k) < 2 ^ 14"
proof -
  let ?x = "unat (kInitBinEsc7 ! (k mod 8))"
  have x: "7999 \<le> ?x" "?x \<le> 26162" using kInitBinEsc7_range [OF assms(2)] by auto
  have "?x div (i + 2) \<le> ?x div 2" by (rule div_le_mono2) simp_all
  then have lo: "?x div (i + 2) \<le> 13081" using x(2) by linarith
  have "?x div 129 \<le> ?x div (i + 2)" using assms(1) by (intro div_le_mono2) simp_all
  then have hi: "1 \<le> ?x div (i + 2)" using x(1) by linarith
  have "unat PPMD_BIN_SCALE = 16384" by (simp add: PPMD_BIN_SCALE_def ppmd_consts)
  then have "unat (kDefaultBinSumm7 i k) = 16384 - ?x div (i + 2)"
    by (simp add: kDefaultBinSumm7_def unat_of_nat)
  then show ?thesis using lo hi by simp
qed

lemma RestartModel7_wf:
  assumes "arena_ok7 p" "tables7 p"
  shows "wf7 (RestartModel7 p)"
proof -
  let ?q = "RestartModel7 p"
  note R = RestartModel7_root [OF assms(1)]
  have lim: "lim7 ?q = unat (AlignOffset p) + unat (Size p) + 12"
    by (simp add: lim7_def arena_top_def RestartModel7_fields UNIT_SIZE_def)
  have fr: "\<forall>x \<in> set (states (start_units p) 256). sFreq (mem ?q) x = 1"
    using R(8) by (auto simp: states_eq_map)
  have "ctx_wf7 (mem ?q) (lim7 ?q) (start_ctx p)"
    using R(1-6) fr lim start_units_bounds(2) [OF arena_ok7_fits [OF assms(1)]] distinct_fresh_symbols
    by (simp add: ctx_wf7_def Let_def)
  then have "chain7 (mem ?q) (lim7 ?q) (MinContext ?q)"
    unfolding RestartModel7_fields by (intro chain7.root R)
  moreover have "tables7 ?q"
    using assms(2) by (simp add: RestartModel7_def Let_def tables7_def tables_ok_def)
  moreover have "see_ok ?q"
    by (simp add: RestartModel7_def Let_def see_ok_def kDefaultSee_def ppmd_consts)
  moreover have "bin_ok ?q"
    using bin_start by (simp add: RestartModel7_def Let_def bin_ok_def)
  ultimately show ?thesis by (simp add: wf7_def RestartModel7_fields)
qed

section \<open>Initialisation\<close>

lemma Ppmd7_Alloc_fresh:
  assumes "Ppmd7_Alloc (Ppmd7_Construct p0) sz alloc = (True, p)"
    and "2 ^ 11 \<le> unat sz" "unat sz \<le> 0xFFFFFFFF - 36"
  shows "arena_ok7 p \<and> tables7 p \<and> Size p = sz \<and>
    unat (AlignOffset p) = 4 - unat sz mod 4 \<and> Base p"
proof -
  obtain blk where p: "p = (Ppmd7_Construct p0)\<lparr>AlignOffset := 4 - (sz AND 3), Size := sz,
      Base := True, mem := blk\<rparr>"
    using assms(1)
    by (auto simp: Ppmd7_Alloc_def Ppmd7_Construct_def Ppmd7_Free_def Let_def split: option.splits)
  have "unat (sz AND 3) \<le> unat (4 :: UInt32)" by (simp add: and_3)
  then have a: "unat (4 - (sz AND 3)) = 4 - unat sz mod 4"
    by (subst unat_sub_le) (simp_all add: and_3)
  show ?thesis
    using assms(2,3) a
    by (simp add: p arena_ok7_def tables7_def tables_ok_def Ppmd7_Construct_def)
qed

lemma Ppmd7_Init_fields:
  fixes q :: CPpmd7
  assumes "q = Ppmd7_Init p mo"
  defines "r \<equiv> RestartModel7 (p\<lparr>MaxOrder := mo\<rparr>)"
  shows "mem q = mem r" "MinContext q = MinContext r" "MaxContext q = MaxContext r"
    "wf7 q \<longleftrightarrow> wf7 r" "Text q = Text r" "UnitsStart q = UnitsStart r" "LoUnit q = LoUnit r"
    "HiUnit q = HiUnit r" "OrderFall q = mo" "lim7 q = lim7 r"
  unfolding assms(1) Ppmd7_Init_def Let_def r_def
  by (simp_all add: wf7_def lim7_def arena_top_def tables7_def tables_ok_def see_ok_def bin_ok_def
      RestartModel7_fields)

lemma Ppmd7_Init_wf:
  assumes "Ppmd7_Alloc (Ppmd7_Construct p0) sz alloc = (True, p)"
    and "2 ^ 11 \<le> unat sz" "unat sz \<le> 0xFFFFFFFF - 36"
  shows "wf7 (Ppmd7_Init p mo)"
proof -
  let ?p = "p\<lparr>MaxOrder := mo\<rparr>"
  note al = Ppmd7_Alloc_fresh [OF assms]
  have ok: "arena_ok7 ?p" using conjunct1 [OF al] by (simp add: arena_ok7_def)
  have tb: "tables7 ?p" using al by (simp add: tables7_def tables_ok_def)
  show ?thesis unfolding Ppmd7_Init_fields [OF refl] by (rule RestartModel7_wf [OF ok tb])
qed

text \<open>
  C27.  Construct, Alloc, Init: with an arena of a size \<^verbatim>\<open>Ppmd7.h\<close> allows and any content the
  allocator leaves in it, the initialised model is well formed (\<open>wf7\<close>): the only context is
  the order-0 context, it holds every byte exactly once, and the lookup tables, the binary
  probabilities and the SEE shifts are in range.  The arena is laid out text, units, contexts
  with the context aligned to 4 bytes.
\<close>

theorem ppmd7_init_wf:
  fixes mo :: UInt32
  assumes "Ppmd7_Alloc (Ppmd7_Construct p0) sz alloc = (True, p)"
    and "2 ^ 11 \<le> unat sz" "unat sz \<le> 0xFFFFFFFF - 36"
  defines "q \<equiv> Ppmd7_Init p mo"
  shows "wf7 q \<and> Suffix (mem q) (MinContext q) = 0 \<and>
    ctx_symbols7 (mem q) (MinContext q) = map word_of_nat [0..<256] \<and>
    Text q < UnitsStart q \<and> UnitsStart q + 1536 = LoUnit q \<and> LoUnit q \<le> HiUnit q \<and>
    HiUnit q = MinContext q \<and> MinContext q + 24 = lim7 q \<and> 4 dvd MinContext q"
proof -
  let ?p = "p\<lparr>MaxOrder := mo\<rparr>"
  note al = Ppmd7_Alloc_fresh [OF assms(1-3)]
  have ok: "arena_ok7 ?p" using conjunct1 [OF al] by (simp add: arena_ok7_def)
  note q = Ppmd7_Init_fields [OF q_def [THEN meta_eq_to_obj_eq]]
  note R = RestartModel7_root [OF ok] and b = start_units_bounds [OF arena_ok7_fits [OF ok]]
  have "wf7 q" unfolding q_def by (rule Ppmd7_Init_wf [OF assms(1-3)])
  moreover have "ctx_symbols7 (mem q) (MinContext q) = map word_of_nat [0..<256]"
    using R by (simp add: q RestartModel7_fields ctx_symbols7_def Let_def)
  moreover have "lim7 q = start_ctx ?p + 24"
    unfolding q(10) using b(4) by (simp add: lim7_def arena_top_def RestartModel7_fields UNIT_SIZE_def)
  moreover have "4 dvd start_ctx ?p"
  proof -
    have "4 dvd unat (AlignOffset ?p) + unat (Size ?p)"
      using al by (simp add: mod_eq_0_iff_dvd [symmetric]) presburger
    then have "4 dvd start_ctx ?p + 12" using b(4) by simp
    moreover have "(4 :: nat) dvd 12" by simp
    ultimately show ?thesis using dvd_add_left_iff by blast
  qed
  moreover have "Text q < UnitsStart q"
    using b(7) al assms(2) by (simp add: q RestartModel7_fields)
  moreover have "LoUnit q \<le> HiUnit q" using b(3) by (simp add: q RestartModel7_fields)
  ultimately show ?thesis using R(3) by (simp add: q RestartModel7_fields)
qed

section \<open>Messages\<close>

interpretation sc7: symbol_codec enc7 dec7 good7 ok7 enc7_room contains7 "sync7 rest" flush7
  trace7 Ppmd7_EncodeSymbol Ppmd7_DecodeSymbol wf7 for rest
proof unfold_locales
  fix p ch ds p' and e :: CPpmd7z_RangeEnc
  assume "trace7 p ch = Some (ds, p')"
  then show "Ppmd7_EncodeSymbol p e ch = map_option (\<lambda>e'. (e', p')) (steps enc7 e ds)"
    unfolding Ppmd7_EncodeSymbol_def by (rule Encode7_trace)
next
  fix p ch ds p' and d d' :: CPpmd7z_RangeDec
  assume wf: "wf7 p" and tr: "trace7 p ch = Some (ds, p')" and ch: "- 1 \<le> ch" "ch \<le> 255"
  show "steps dec7 d ds = Some d' \<Longrightarrow> Ppmd7_DecodeSymbol p d = Some (ch, d', p')"
    using DecodeSymbol7_follows [OF wf ch tr] by blast
next
  fix p ch ds p'
  assume wf: "wf7 p" and tr: "trace7 p ch = Some (ds, p')" and ch: "- 1 \<le> ch" "ch \<le> 255"
  show "list_all ok7 ds" using DecodeSymbol7_follows [OF wf ch tr] by blast
qed


section \<open>Witnesses\<close>

text \<open>A structure before \<^verbatim>\<open>Ppmd7_Construct\<close>.\<close>

definition blank7 :: CPpmd7 where
  "blank7 = \<lparr>MinContext = 0, MaxContext = 0, FoundState = 0, OrderFall = 0, InitEsc = 0,
     PrevSuccess = 0, MaxOrder = 0, RunLength = 0, InitRL = 0, Size = 0, GlueCount = 0,
     Base = False, mem = (\<lambda>a. 0), LoUnit = 0, HiUnit = 0, Text = 0, UnitsStart = 0,
     AlignOffset = 0, Indx2Units = [], Units2Indx = [], FreeList = (\<lambda>i. 0), NS2Indx = [],
     NS2BSIndx = [], DummySee = \<lparr>Summ = 0, Shift = 0, Count = 0\<rparr>,
     See = (\<lambda>i k. \<lparr>Summ = 0, Shift = 0, Count = 0\<rparr>), BinSumm = (\<lambda>i k. 0),
     HiBitsFlag = 0, HB2Flag = []\<rparr>"

definition model7_2048 :: CPpmd7 where
  "model7_2048 = snd (Ppmd7_Alloc (Ppmd7_Construct blank7) 2048 full_alloc)"

lemma model7_2048_alloc:
  "Ppmd7_Alloc (Ppmd7_Construct blank7) 2048 full_alloc = (True, model7_2048)"
  by (simp add: model7_2048_def Ppmd7_Alloc_def full_alloc_def Ppmd7_Construct_def Ppmd7_Free_def Let_def)

theorem ppmd7_init_wf_witness:
  "wf7 (Ppmd7_Init model7_2048 6) \<and>
   ctx_symbols7 (mem (Ppmd7_Init model7_2048 6)) (MinContext (Ppmd7_Init model7_2048 6)) =
     map word_of_nat [0..<256]"
  using ppmd7_init_wf [OF model7_2048_alloc, of 6] by simp

text \<open>The first byte 0 after initialisation is coded in the order-0 context.\<close>

lemma first_symbol7:
  assumes ok: "arena_ok7 p" and mo: "mo \<noteq> 0"
  shows "\<exists>q'. trace7 (Ppmd7_Init p mo) 0 = Some ([Interval 0 1 257], q')"
proof -
  define q where "q = Ppmd7_Init p mo"
  let ?p = "p\<lparr>MaxOrder := mo\<rparr>"
  have ok': "arena_ok7 ?p" using ok by (simp add: arena_ok7_def)
  note q = Ppmd7_Init_fields [OF q_def] RestartModel7_fields
  note b = start_units_bounds [OF arena_ok7_fits [OF ok']]
  define m c s where mcs: "m = mem q" "c = start_ctx ?p" "s = start_units ?p"
  have c: "s + 1752 \<le> c" using b(3) by (simp add: mcs)
  note R = RestartModel7_root [OF ok', folded q(1) mcs]
  have s0: "sSymbol m s = 0" "sFreq m s = 1" "sSuccessor m s = 0"
    using R(7-9) [of 0] by simp_all
  define m1 where "m1 = wr_Freq (wr_SummFreq m c 261) s 5"
  have m1: "sFreq m1 s = 5" "sSuccessor m1 s = 0" "Suffix m1 c = 0"
    using c R(3) s0(3)
    by (simp_all add: m1_def wr_Freq_def wr_SummFreq_def sFreq_def rd_state_def Suffix_def mem_frame
        sSuccessor_def SUCCESSOR_def)
  let ?r = "q\<lparr>FoundState := s, PrevSuccess := 0, RunLength := RunLength q, mem := m1\<rparr>"
  have up: "\<exists>q'. UpdateModel7 ?r = Some q'"
  proof -
    have "Update_suffix7 ?r = Some ?r"
      using m1 mcs by (simp add: Update_suffix7_def Let_def q)
    moreover have "Text q + 1 < UnitsStart q"
      using b(7) ok by (auto simp: q arena_ok7_def)
    moreover have "Update_finish7 x y z = Some z'" if "z' = z\<lparr>MaxContext := GetPtr y, MinContext := GetPtr y\<rparr>"
      "MaxContext z = MinContext z" for x y z z'
      using that by (simp add: Update_finish7_def Update_contexts7.simps Let_def)
    ultimately show ?thesis
      using m1 mo mcs by (simp add: UpdateModel7_def Let_def q)
  qed
  have "sFreq (wr_SummFreq m c 261) s = 1" using c s0
    by (simp add: wr_SummFreq_def sFreq_def rd_state_def mem_frame)
  then have "Ppmd7_Update1_0 (q\<lparr>FoundState := s\<rparr>) = UpdateModel7 ?r"
    using R m1 s0 mo mcs
    by (simp add: Ppmd7_Update1_0_def Let_def q m1_def MAX_FREQ_def NextContext7_def)
  with up obtain q' where "Ppmd7_Update1_0 (q\<lparr>FoundState := s\<rparr>) = Some q'" by auto
  then show ?thesis
    unfolding q_def [symmetric]
    using R s0 mcs by (auto simp: trace7_def Encode7_def Let_def q log_decision_def)
qed

lemma first_run7:
  obtains q' where "trace7 (Ppmd7_Init model7_2048 6) 0 = Some ([Interval 0 1 257], q')"
    "wf7 (Ppmd7_Init model7_2048 6)"
proof -
  let ?q = "Ppmd7_Init model7_2048 6"
  have "arena_ok7 model7_2048" using Ppmd7_Alloc_fresh [OF model7_2048_alloc] by simp
  then obtain q' where tr: "trace7 ?q 0 = Some ([Interval 0 1 257], q')"
    using first_symbol7 [of model7_2048 6] by auto
  have "wf7 ?q" using Ppmd7_Init_wf [OF model7_2048_alloc] by simp
  with tr that show thesis by blast
qed


end
