(* ===== verification/Ppmd8_Roundtrip.thy ===== *)
theory Ppmd8_Roundtrip
  imports Ppmd8_Codec Ppmd_Start
begin

text \<open>
  The PPMdI codec as a whole: a freshly initialised model is well formed, encoder and decoder
  are an instance of \<open>symbol_codec\<close>, and messages come back.
\<close>

section \<open>The model after a restart\<close>

lemma RestartModel8_fields:
  "MinContext (RestartModel8 p) = start_ctx p" "MaxContext (RestartModel8 p) = start_ctx p"
  "FoundState (RestartModel8 p) = start_units p" "UnitsStart (RestartModel8 p) = start_units p"
  "LoUnit (RestartModel8 p) = start_units p + 1536" "HiUnit (RestartModel8 p) = start_ctx p"
  "Text (RestartModel8 p) = unat (AlignOffset p)" "OrderFall (RestartModel8 p) = MaxOrder p"
  "MaxOrder (RestartModel8 p) = MaxOrder p" "PrevSuccess (RestartModel8 p) = 0"
  "Size (RestartModel8 p) = Size p" "AlignOffset (RestartModel8 p) = AlignOffset p"
  "GlueCount (RestartModel8 p) = 0" "RestoreMethod (RestartModel8 p) = RestoreMethod p"
  by (simp_all add: RestartModel8_def RESET_TEXT_def Let_def start_ctx_def start_units_def
      UNIT_SIZE_def U2B_def)

lemma RestartModel8_mem:
  "mem (RestartModel8 p) = fresh_states (wr_Stats (wr_SummFreq (wr_Flags8 (wr_NumStats8
     (wr_Suffix (mem p) (start_ctx p) 0) (start_ctx p) 255) (start_ctx p) 0) (start_ctx p) 257)
     (start_ctx p) (REF (start_units p))) (start_units p)"
  by (simp add: RestartModel8_def RESET_TEXT_def Let_def start_ctx_def start_units_def UNIT_SIZE_def)

text \<open>The order-0 context with its 256 states.\<close>

lemma RestartModel8_root:
  assumes "arena_fits p"
  defines "m \<equiv> mem (RestartModel8 p)" and "c \<equiv> start_ctx p" and "s \<equiv> start_units p"
  shows "NumStats8 m c = 255" "SummFreq m c = 257" "Suffix m c = 0" "STATS m c = s"
    "Flags8 m c = 0" "symbols m s 256 = map word_of_nat [0..<256]" "fsum m (states s 256) = 256"
    "\<And>i. i < 256 \<Longrightarrow> sSymbol m (s + 6 * i) = word_of_nat i"
    "\<And>i. i < 256 \<Longrightarrow> sFreq m (s + 6 * i) = 1" "\<And>i. i < 256 \<Longrightarrow> sSuccessor m (s + 6 * i) = 0"
proof -
  note b = start_units_bounds [OF assms(1)]
  have c: "s + 1536 \<le> c" using b(3) by (simp add: c_def s_def)
  note m = m_def RestartModel8_mem c_def [symmetric] s_def [symmetric]
  note defs = NumStats8_def Flags8_def SummFreq_def Suffix_def Stats_def wr_NumStats8_def wr_Flags8_def
    wr_SummFreq_def wr_Suffix_def wr_Stats_def
  show "NumStats8 m c = 255" "Flags8 m c = 0" "SummFreq m c = 257" "Suffix m c = 0"
    using c by (simp_all add: m defs mem_frame)
  have "Stats m c = REF s" using c by (simp add: m defs mem_frame)
  then show "STATS m c = s" using b(5) by (simp add: STATS_def GetPtr_REF s_def)
  show "symbols m s 256 = map word_of_nat [0..<256]" "fsum m (states s 256) = 256"
    by (simp_all add: m fresh_states_symbols fresh_states_fsum)
  show "sSymbol m (s + 6 * i) = word_of_nat i" "sFreq m (s + 6 * i) = 1"
    "sSuccessor m (s + 6 * i) = 0" if "i < 256" for i
    using that by (simp_all add: m fresh_states_fields)
qed

lemma kInitBinEsc8_range:
  "k < 64 \<Longrightarrow> 7999 \<le> unat (kInitBinEsc8 ! (k mod 8)) \<and> unat (kInitBinEsc8 ! (k mod 8)) \<le> 26162"
proof -
  have "list_all (\<lambda>b. 7999 \<le> unat b \<and> unat b \<le> 26162) kInitBinEsc8"
    by (simp add: kInitBinEsc8_def)
  moreover have "k mod 8 < length kInitBinEsc8" by (simp add: kInitBinEsc8_def)
  ultimately show ?thesis unfolding list_all_length by blast
qed

text \<open>The rows of \<^verbatim>\<open>BinSumm\<close> start at the frequencies that \<^verbatim>\<open>NS2Indx\<close> maps to them.\<close>

lemma ns2_skip_bounds: "i \<le> ns2_skip xs k i" "i \<le> length xs \<Longrightarrow> ns2_skip xs k i \<le> length xs"
  using length_takeWhile_le [of "\<lambda>b. unat b = k" "drop i xs"] by (simp_all add: ns2_skip_def)

lemma bin_i8_range:
  assumes "xs \<noteq> []" "hd xs = 0"
  shows "1 \<le> bin_i8 xs i \<and> bin_i8 xs i \<le> length xs"
proof (induction i)
  case 0
  then show ?case using assms length_takeWhile_le [of "\<lambda>b. unat b = 0" xs]
    by (cases xs) (auto simp: ns2_skip_def)
next
  case (Suc i)
  then show ?case using ns2_skip_bounds [of "bin_i8 xs i" xs "Suc i"] by simp
qed

lemma bin_start8:
  assumes "tables8 p" "i < 25" "k < 64"
  shows "0 < unat (kDefaultBinSumm8 (NS2Indx p) i k) \<and> unat (kDefaultBinSumm8 (NS2Indx p) i k) < 2 ^ 14"
proof -
  let ?x = "unat (kInitBinEsc8 ! (k mod 8))" and ?i = "bin_i8 (NS2Indx p) i"
  have x: "7999 \<le> ?x" "?x \<le> 26162" using kInitBinEsc8_range [OF assms(3)] by auto
  have "length (NS2Indx p) = 260" "NS2Indx p \<noteq> []" "hd (NS2Indx p) = 0"
    using assms(1) NS2Indx8_bound by (simp_all add: tables8_def)
  then have i: "1 \<le> ?i" "?i \<le> 260" using bin_i8_range [of "NS2Indx p" i] by simp_all
  have "?x div (?i + 1) \<le> ?x div 2" using i by (intro div_le_mono2) simp_all
  then have lo: "?x div (?i + 1) \<le> 13081" using x(2) by linarith
  have "?x div 261 \<le> ?x div (?i + 1)" using i by (intro div_le_mono2) simp_all
  then have hi: "1 \<le> ?x div (?i + 1)" using x(1) by linarith
  have "unat PPMD_BIN_SCALE = 16384" by (simp add: PPMD_BIN_SCALE_def ppmd_consts)
  then have "unat (kDefaultBinSumm8 (NS2Indx p) i k) = 16384 - ?x div (?i + 1)"
    by (simp add: kDefaultBinSumm8_def unat_of_nat)
  then show ?thesis using lo hi by simp
qed

lemma RestartModel8_wf:
  assumes "arena_fits p" "tables8 p"
  shows "wf8 (RestartModel8 p)"
proof -
  let ?q = "RestartModel8 p"
  note R = RestartModel8_root [OF assms(1)]
  have lim: "lim8 ?q = unat (AlignOffset p) + unat (Size p)"
    by (simp add: lim8_def arena_top_def RestartModel8_fields)
  have fr: "\<forall>x \<in> set (states (start_units p) 256). sFreq (mem ?q) x = 1"
    using R(9) by (auto simp: states_eq_map)
  have n: "num_states8 (mem ?q) (start_ctx p) = 256" using R(1) by (simp add: num_states8_full)
  have "ctx_wf8 (mem ?q) (lim8 ?q) (start_ctx p)"
    using R(2-7) fr lim n start_units_bounds(2) [OF assms(1)] distinct_fresh_symbols
    by (simp add: ctx_wf8_def Let_def)
  then have "chain8 (mem ?q) (lim8 ?q) (MinContext ?q)"
    unfolding RestartModel8_fields by (intro chain8.root R)
  moreover have "tables8 ?q"
    using assms(2) by (simp add: RestartModel8_def RESET_TEXT_def Let_def tables8_def tables_ok_def)
  moreover have "see_ok8 ?q"
    by (simp add: RestartModel8_def RESET_TEXT_def Let_def see_ok8_def kDefaultSee8_def ppmd_consts)
  moreover have "bin_ok8 ?q"
    using bin_start8 [OF assms(2)] by (simp add: RestartModel8_def RESET_TEXT_def Let_def bin_ok8_def)
  ultimately show ?thesis by (simp add: wf8_def RestartModel8_fields)
qed

section \<open>Initialisation\<close>

lemma Ppmd8_Alloc_fresh:
  assumes "Ppmd8_Alloc (Ppmd8_Construct p0) sz alloc = (True, p)"
    and "2 ^ 11 \<le> unat sz" "unat sz \<le> 0xFFFFFFFF - 36"
  shows "arena_fits p \<and> tables8 p \<and> Size p = sz \<and>
    unat (AlignOffset p) = 4 - unat sz mod 4 \<and> Base p"
proof -
  obtain blk where p: "p = (Ppmd8_Construct p0)\<lparr>AlignOffset := 4 - (sz AND 3), Size := sz,
      Base := True, mem := blk\<rparr>"
    using assms(1)
    by (auto simp: Ppmd8_Alloc_def Ppmd8_Construct_def Ppmd8_Free_def Let_def split: option.splits)
  have "unat (sz AND 3) \<le> unat (4 :: UInt32)" by (simp add: and_3)
  then have a: "unat (4 - (sz AND 3)) = 4 - unat sz mod 4"
    by (subst unat_sub_le) (simp_all add: and_3)
  show ?thesis
    using assms(2,3) a
    by (simp add: p arena_fits_def tables8_def tables_ok_def Ppmd8_Construct_def)
qed

lemma Ppmd8_Init_fields:
  fixes q :: CPpmd8
  assumes "q = Ppmd8_Init p mo rm"
  defines "r \<equiv> RestartModel8 (p\<lparr>MaxOrder := mo, RestoreMethod := rm\<rparr>)"
  shows "mem q = mem r" "MinContext q = MinContext r" "MaxContext q = MaxContext r"
    "wf8 q \<longleftrightarrow> wf8 r" "Text q = Text r" "UnitsStart q = UnitsStart r" "LoUnit q = LoUnit r"
    "HiUnit q = HiUnit r" "OrderFall q = mo" "lim8 q = lim8 r" "RestoreMethod q = rm"
  unfolding assms(1) Ppmd8_Init_def Let_def r_def
  by (simp_all add: wf8_def lim8_def arena_top_def tables8_def tables_ok_def see_ok8_def bin_ok8_def
      RestartModel8_fields)

lemma Ppmd8_Init_wf:
  assumes "Ppmd8_Alloc (Ppmd8_Construct p0) sz alloc = (True, p)"
    and "2 ^ 11 \<le> unat sz" "unat sz \<le> 0xFFFFFFFF - 36"
  shows "wf8 (Ppmd8_Init p mo rm)"
proof -
  let ?p = "p\<lparr>MaxOrder := mo, RestoreMethod := rm\<rparr>"
  note al = Ppmd8_Alloc_fresh [OF assms]
  have ok: "arena_fits ?p" using conjunct1 [OF al] by (simp add: arena_fits_def)
  have tb: "tables8 ?p" using al by (simp add: tables8_def tables_ok_def)
  show ?thesis unfolding Ppmd8_Init_fields [OF refl] by (rule RestartModel8_wf [OF ok tb])
qed

text \<open>
  C28.  Construct, Alloc, Init of the PPMdI model: with an arena of an allowed size and any
  content the allocator leaves in it, the initialised model is well formed (\<open>wf8\<close>): the only
  context is the order-0 context, it holds every byte exactly once, and the lookup tables, the
  binary probabilities and the SEE shifts are in range.  The arena is laid out text, units,
  contexts, with the context in its last 12 bytes, aligned to 4.
\<close>

theorem ppmd8_init_wf:
  fixes mo rm :: UInt32
  assumes "Ppmd8_Alloc (Ppmd8_Construct p0) sz alloc = (True, p)"
    and "2 ^ 11 \<le> unat sz" "unat sz \<le> 0xFFFFFFFF - 36"
  defines "q \<equiv> Ppmd8_Init p mo rm"
  shows "wf8 q \<and> Suffix (mem q) (MinContext q) = 0 \<and>
    ctx_symbols8 (mem q) (MinContext q) = map word_of_nat [0..<256] \<and>
    Text q < UnitsStart q \<and> UnitsStart q + 1536 = LoUnit q \<and> LoUnit q \<le> HiUnit q \<and>
    HiUnit q = MinContext q \<and> MinContext q + 12 = lim8 q \<and> 4 dvd MinContext q"
proof -
  let ?p = "p\<lparr>MaxOrder := mo, RestoreMethod := rm\<rparr>"
  note al = Ppmd8_Alloc_fresh [OF assms(1-3)]
  have ok: "arena_fits ?p" using conjunct1 [OF al] by (simp add: arena_fits_def)
  note q = Ppmd8_Init_fields [OF q_def [THEN meta_eq_to_obj_eq]]
  note R = RestartModel8_root [OF ok] and b = start_units_bounds [OF ok]
  have "wf8 q" unfolding q_def by (rule Ppmd8_Init_wf [OF assms(1-3)])
  moreover have "ctx_symbols8 (mem q) (MinContext q) = map word_of_nat [0..<256]"
    using R by (simp add: q RestartModel8_fields ctx_symbols8_def num_states8_def Let_def)
  moreover have "lim8 q = start_ctx ?p + 12"
    unfolding q(10) using b(4) by (simp add: lim8_def arena_top_def RestartModel8_fields)
  moreover have "4 dvd start_ctx ?p"
  proof -
    have "4 dvd unat (AlignOffset ?p) + unat (Size ?p)"
      using al by (simp add: mod_eq_0_iff_dvd [symmetric]) presburger
    then have "4 dvd start_ctx ?p + 12" using b(4) by simp
    moreover have "(4 :: nat) dvd 12" by simp
    ultimately show ?thesis using dvd_add_left_iff by blast
  qed
  moreover have "Text q < UnitsStart q"
    using b(7) al assms(2) by (simp add: q RestartModel8_fields)
  moreover have "LoUnit q \<le> HiUnit q" using b(3) by (simp add: q RestartModel8_fields)
  ultimately show ?thesis using R(3) by (simp add: q RestartModel8_fields)
qed

section \<open>Messages\<close>

interpretation sc8: symbol_codec enc8 dec8 good8 ok8 "\<lambda>n e. True" contains8 "sync8 rest" flush8
  trace8 Ppmd8_EncodeSymbol Ppmd8_DecodeSymbol wf8 for rest
proof unfold_locales
  fix p ch ds p' and e :: CPpmd8_rc
  assume "trace8 p ch = Some (ds, p')"
  then show "Ppmd8_EncodeSymbol p e ch = map_option (\<lambda>e'. (e', p')) (steps enc8 e ds)"
    unfolding Ppmd8_EncodeSymbol_def by (rule Encode8_trace)
next
  fix p ch ds p' and d d' :: CPpmd8_rc
  assume wf: "wf8 p" and tr: "trace8 p ch = Some (ds, p')" and ch: "- 1 \<le> ch" "ch \<le> 255"
  show "steps dec8 d ds = Some d' \<Longrightarrow> Ppmd8_DecodeSymbol p d = Some (ch, d', p')"
    using DecodeSymbol8_follows [OF wf ch tr] by blast
next
  fix p ch ds p'
  assume wf: "wf8 p" and tr: "trace8 p ch = Some (ds, p')" and ch: "- 1 \<le> ch" "ch \<le> 255"
  show "list_all ok8 ds" using DecodeSymbol8_follows [OF wf ch tr] by blast
qed


section \<open>Witnesses\<close>

definition blank8 :: CPpmd8 where
  "blank8 = \<lparr>MinContext = 0, MaxContext = 0, FoundState = 0, OrderFall = 0, InitEsc = 0,
     PrevSuccess = 0, MaxOrder = 0, RunLength = 0, InitRL = 0, Size = 0, GlueCount = 0,
     Base = False, mem = (\<lambda>a. 0), LoUnit = 0, HiUnit = 0, Text = 0, UnitsStart = 0,
     AlignOffset = 0, Indx2Units = [], Units2Indx = [], FreeList = (\<lambda>i. 0), NS2Indx = [],
     NS2BSIndx = [], DummySee = \<lparr>Summ = 0, Shift = 0, Count = 0\<rparr>,
     See = (\<lambda>i k. \<lparr>Summ = 0, Shift = 0, Count = 0\<rparr>), BinSumm = (\<lambda>i k. 0),
     RestoreMethod = 0, Stamps = (\<lambda>i. 0)\<rparr>"

definition model8_2048 :: CPpmd8 where
  "model8_2048 = snd (Ppmd8_Alloc (Ppmd8_Construct blank8) 2048 full_alloc)"

lemma model8_2048_alloc:
  "Ppmd8_Alloc (Ppmd8_Construct blank8) 2048 full_alloc = (True, model8_2048)"
  by (simp add: model8_2048_def Ppmd8_Alloc_def full_alloc_def Ppmd8_Construct_def Ppmd8_Free_def Let_def)

theorem ppmd8_init_wf_witness:
  "wf8 (Ppmd8_Init model8_2048 6 1) \<and>
   ctx_symbols8 (mem (Ppmd8_Init model8_2048 6 1)) (MinContext (Ppmd8_Init model8_2048 6 1)) =
     map word_of_nat [0..<256]"
  using ppmd8_init_wf [OF model8_2048_alloc, of 6 1] by simp

text \<open>The first byte 0 after initialisation is coded in the order-0 context; the order is
  reduced up to the root.\<close>

lemma UpdateModel8_at_root:
  assumes "Suffix (mem r) (MinContext r) = 0" "MaxContext r = MinContext r" "OrderFall r \<noteq> 0"
    and "sSuccessor (mem r) (FoundState r) = 0" "Text r + 1 < UnitsStart r"
    and "UnitsStart r \<le> FoundState r" "FoundState r + 6 \<le> MinContext r"
  shows "\<exists>q'. UpdateModel8 r = Some q'"
proof -
  let ?m = "wr8 (mem r) (Text r) (sSymbol (mem r) (FoundState r))"
  let ?r1 = "r\<lparr>mem := ?m, Text := Text r + 1\<rparr>"
  let ?r2 = "?r1\<lparr>mem := wr_Successor ?m (FoundState r) (REF (Text r + 1)), OrderFall := OrderFall r + 1\<rparr>"
  have suf: "Suffix (mem ?r2) (MinContext r) = 0"
    using assms by (simp add: Suffix_def wr_Successor_def mem_frame)
  have "Update_suffix8 r = Some (None, r)" using assms(1) by (simp add: Update_suffix8_def Let_def)
  moreover have "ReduceOrder8 ?r1 None (MinContext r) = Some (Some (MinContext r), ?r2)"
    using suf by (simp add: ReduceOrder8_def Let_def Reduce_walk8.simps)
  moreover have "\<exists>q'. Update_finish8 su (REF c) fs ff (MinContext r) ?r2 = Some q'" for su c fs ff
    using assms(2,3) by (simp add: Update_finish8_def Let_def Update_contexts8.simps)
  ultimately show ?thesis using assms(2-5) by (auto simp: UpdateModel8_def Let_def)
qed

lemma first_symbol8:
  assumes ok: "arena_fits p" and mo: "mo \<noteq> 0"
  shows "\<exists>q'. trace8 (Ppmd8_Init p mo rm) 0 = Some ([Interval 0 1 257], q')"
proof -
  define q where "q = Ppmd8_Init p mo rm"
  let ?p = "p\<lparr>MaxOrder := mo, RestoreMethod := rm\<rparr>"
  have ok': "arena_fits ?p" using ok by (simp add: arena_fits_def)
  note q = Ppmd8_Init_fields [OF q_def] RestartModel8_fields
  note b = start_units_bounds [OF ok']
  define m c s where mcs: "m = mem q" "c = start_ctx ?p" "s = start_units ?p"
  have c: "s + 1752 \<le> c" using b(3) by (simp add: mcs)
  note R = RestartModel8_root [OF ok', folded q(1) mcs]
  have s0: "sSymbol m s = 0" "sFreq m s = 1" "sSuccessor m s = 0"
    using R(8-10) [of 0] by simp_all
  define m1 where "m1 = wr_Freq (wr_SummFreq m c 261) s 5"
  have m1: "sFreq m1 s = 5" "sSuccessor m1 s = 0" "Suffix m1 c = 0"
    using c R(3) s0(3)
    by (simp_all add: m1_def wr_Freq_def wr_SummFreq_def sFreq_def rd_state_def Suffix_def mem_frame
        sSuccessor_def SUCCESSOR_def)
  let ?r = "q\<lparr>FoundState := s, PrevSuccess := 0, RunLength := RunLength q, mem := m1\<rparr>"
  have "Text q + 1 < UnitsStart q" using b(7) ok by (auto simp: q arena_fits_def)
  then have up: "\<exists>q'. UpdateModel8 ?r = Some q'"
    using m1 c mo by (intro UpdateModel8_at_root) (simp_all add: q mcs)
  have "sFreq (wr_SummFreq m c 261) s = 1" using c s0
    by (simp add: wr_SummFreq_def sFreq_def rd_state_def mem_frame)
  then have "Ppmd8_Update1_0 (q\<lparr>FoundState := s\<rparr>) = Option.bind (UpdateModel8 ?r)
      (\<lambda>p. Some (p\<lparr>MinContext := MaxContext p\<rparr>))"
    using R m1 s0 mo mcs
    by (simp add: Ppmd8_Update1_0_def Let_def q m1_def MAX_FREQ_def NextContext8_def)
  with up obtain q' where "Ppmd8_Update1_0 (q\<lparr>FoundState := s\<rparr>) = Some q'" by auto
  then show ?thesis
    unfolding q_def [symmetric]
    using R s0 mcs by (auto simp: trace8_def Encode8_def Let_def q log_decision_def)
qed

lemma first_run8:
  obtains q' where "trace8 (Ppmd8_Init model8_2048 6 0) 0 = Some ([Interval 0 1 257], q')"
    "wf8 (Ppmd8_Init model8_2048 6 0)"
proof -
  let ?q = "Ppmd8_Init model8_2048 6 0"
  note al = Ppmd8_Alloc_fresh [OF model8_2048_alloc]
  then obtain q' where tr: "trace8 ?q 0 = Some ([Interval 0 1 257], q')"
    using first_symbol8 [of model8_2048 6 0] by auto
  have "wf8 ?q" using Ppmd8_Init_wf [OF model8_2048_alloc] by simp
  with tr that show thesis by blast
qed


end
