(* ===== verification/Encoder_Object.thy ===== *)
theory Encoder_Object
  imports Output_Buffer Ppmd7_Roundtrip Ppmd8_Roundtrip
begin

text \<open>
  The encoder objects of the extension module (\<^verbatim>\<open>src/ext/_ppmdmodule.c\<close>): the arguments of
  \<^verbatim>\<open>__init__\<close>, \<^verbatim>\<open>encode\<close> and \<^verbatim>\<open>flush\<close> of \<^verbatim>\<open>Ppmd7Encoder\<close> and \<^verbatim>\<open>Ppmd8Encoder\<close>, and
  \<^verbatim>\<open>dealloc\<close>.  The symbol coders write through \<open>Writer\<close> into the output buffer; they never read
  what they have written, so a call is its state change (\<open>se\<close>) and the bytes it emits, which
  are then written in order.  A result \<open>None\<close> is undefined behaviour (a NULL or freed
  pointer) or a call that does not return.  Locks and reference counts are not modelled.
\<close>

section \<open>Arguments\<close>

datatype py_error =
    ValueError
  | RuntimeError
  | MemoryError
  | NoException  \<comment> \<open>the failure value, without an exception set\<close>

datatype pyarg = PyNone | PyInt int | PyOther

definition clamp_max_order :: "nat \<Rightarrow> nat \<Rightarrow> nat" where
  "clamp_max_order max_order mx =
     (if max_order < PPMD7_MIN_ORDER then PPMD7_MIN_ORDER
      else if mx < max_order then mx else max_order)"

definition PPMD7_MIN_MEM_SIZE :: nat where "PPMD7_MIN_MEM_SIZE = 2 ^ 11"
definition PPMD7_MAX_MEM_SIZE :: nat where "PPMD7_MAX_MEM_SIZE = 0xFFFFFFFF - 12 * 3"

definition clamp_memory_size :: "nat \<Rightarrow> nat" where
  "clamp_memory_size memorySize =
     (if memorySize < PPMD7_MIN_MEM_SIZE then PPMD7_MIN_MEM_SIZE
      else if PPMD7_MAX_MEM_SIZE < memorySize then PPMD7_MAX_MEM_SIZE else memorySize)"

text \<open>\<^verbatim>\<open>PyLong_AsUnsignedLong\<close> (64 bits); \<open>None\<close>: -1 with an exception set.\<close>

definition PyLong_AsUnsignedLong :: "int \<Rightarrow> nat option" where
  "PyLong_AsUnsignedLong i = (if 0 \<le> i \<and> i < 2 ^ 64 then Some (nat i) else None)"

definition order_arg :: "nat \<Rightarrow> pyarg \<Rightarrow> py_error + UInt32" where
  "order_arg mx a =
     (case a of
        PyNone \<Rightarrow> Inr 6
      | PyOther \<Rightarrow> Inr (word_of_nat (clamp_max_order 6 mx))
      | PyInt i \<Rightarrow> (case PyLong_AsUnsignedLong i of
            None \<Rightarrow> Inl ValueError
          | Some n \<Rightarrow> Inr (word_of_nat (clamp_max_order n mx))))"

definition memory_arg :: "pyarg \<Rightarrow> py_error + UInt32" where
  "memory_arg a =
     (case a of
        PyNone \<Rightarrow> Inr (push_bit 20 16)
      | PyOther \<Rightarrow> Inr (word_of_nat (clamp_memory_size (16 * 2 ^ 20)))
      | PyInt i \<Rightarrow> (case PyLong_AsUnsignedLong i of
            None \<Rightarrow> Inl ValueError
          | Some n \<Rightarrow> Inr (word_of_nat (clamp_memory_size n))))"

section \<open>State\<close>

datatype 's ptr = Null | Live 's | Dangling

record 's encoder =
  codec :: "'s ptr"
  inited :: bool
  flushed :: bool

definition encoder_new :: "'s encoder" where
  "encoder_new = \<lparr>codec = Null, inited = False, flushed = False\<rparr>"

type_synonym state7 = "CPpmd7 \<times> CPpmd7z_RangeEnc"
type_synonym state8 = "CPpmd8 \<times> CPpmd8_rc"

text \<open>A call of the symbol encoder with the bytes it passes to \<open>Writer\<close>.\<close>

definition emit7 :: "state7 \<Rightarrow> int \<Rightarrow> (Byte list \<times> state7) option" where
  "emit7 = (\<lambda>(p, rc) ch.
     do { (rc, p) \<leftarrow> Ppmd7_EncodeSymbol p (rc\<lparr>eStream := []\<rparr>) ch;
          Some (eStream rc, p, rc\<lparr>eStream := []\<rparr>) })"

definition emit8 :: "state8 \<Rightarrow> int \<Rightarrow> (Byte list \<times> state8) option" where
  "emit8 = (\<lambda>(p, rc) ch.
     do { (rc, p) \<leftarrow> Ppmd8_EncodeSymbol p (rc\<lparr>rcOut := []\<rparr>) ch;
          Some (rcOut rc, p, rc\<lparr>rcOut := []\<rparr>) })"

definition flush_emit7 :: "state7 \<Rightarrow> Byte list \<times> state7" where
  "flush_emit7 = (\<lambda>(p, rc). let rc = Ppmd7z_RangeEnc_FlushData (rc\<lparr>eStream := []\<rparr>)
                            in (eStream rc, p, rc\<lparr>eStream := []\<rparr>))"

definition flush_emit8 :: "state8 \<Rightarrow> Byte list \<times> state8" where
  "flush_emit8 = (\<lambda>(p, rc). let rc = Ppmd8_RangeEnc_FlushData (rc\<lparr>rcOut := []\<rparr>)
                            in (rcOut rc, p, rc\<lparr>rcOut := []\<rparr>))"

section \<open>\<open>__init__\<close> and \<open>dealloc\<close>\<close>

text \<open>\<open>obj\<close> says which structures \<^verbatim>\<open>PyMem_Malloc\<close> has memory for, \<open>raw\<close> and \<open>rawrc\<close> are what it
  leaves in them, \<open>alloc\<close> is the allocation of the arena.\<close>

definition Ppmd7Encoder_init ::
    "(string \<Rightarrow> bool) \<Rightarrow> CPpmd7 \<Rightarrow> CPpmd7z_RangeEnc \<Rightarrow> (nat \<Rightarrow> arena option) \<Rightarrow> state7 encoder \<Rightarrow>
     pyarg \<Rightarrow> pyarg \<Rightarrow> state7 encoder \<times> (py_error + unit)" where
  "Ppmd7Encoder_init obj raw rawrc alloc self max_order mem_size =
     (if inited self then (self, Inl RuntimeError)
      else let self = self\<lparr>inited := True\<rparr> in
      case order_arg PPMD7_MAX_ORDER max_order of Inl e \<Rightarrow> (self, Inl e) | Inr mo \<Rightarrow>
      case memory_arg mem_size of Inl e \<Rightarrow> (self, Inl e) | Inr ms \<Rightarrow>
      if \<not> obj ''CPpmd7'' then (self, Inl NoException)
      else let (ok, p) = Ppmd7_Alloc (Ppmd7_Construct raw) ms alloc in
           if ok \<and> obj ''CPpmd7z_RangeEnc''
           then (self\<lparr>codec := Live (Ppmd7_Init p mo, Ppmd7z_RangeEnc_Init rawrc)\<rparr>, Inr ())
           else (self\<lparr>codec := Dangling\<rparr>, Inl MemoryError))"

definition Ppmd8Encoder_init ::
    "(string \<Rightarrow> bool) \<Rightarrow> CPpmd8 \<Rightarrow> CPpmd8_rc \<Rightarrow> (nat \<Rightarrow> arena option) \<Rightarrow> state8 encoder \<Rightarrow>
     pyarg \<Rightarrow> pyarg \<Rightarrow> UInt32 \<Rightarrow> state8 encoder \<times> (py_error + unit)" where
  "Ppmd8Encoder_init obj raw rawrc alloc self max_order mem_size restore_method =
     (if inited self then (self, Inl RuntimeError)
      else let self = self\<lparr>inited := True\<rparr> in
      case order_arg PPMD8_MAX_ORDER max_order of Inl e \<Rightarrow> (self, Inl e) | Inr mo \<Rightarrow>
      case memory_arg mem_size of Inl e \<Rightarrow> (self, Inl e) | Inr ms \<Rightarrow>
      if \<not> obj ''CPpmd8'' then (self, Inl NoException)
      else let (ok, p) = Ppmd8_Alloc (Ppmd8_Construct raw) ms alloc in
           if ok
           then (self\<lparr>codec := Live (Ppmd8_Init p mo restore_method, Ppmd8_RangeEnc_Init rawrc)\<rparr>, Inr ())
           else (self\<lparr>codec := Dangling\<rparr>, Inl MemoryError))"

text \<open>\<^verbatim>\<open>Ppmd7_Free(self->cPpmd7, ...)\<close> reads the structure; the second one looks for NULL
  first.\<close>

definition Ppmd7Encoder_dealloc :: "state7 encoder \<Rightarrow> unit option" where
  "Ppmd7Encoder_dealloc self = (case codec self of Live s \<Rightarrow> Some () | _ \<Rightarrow> None)"

definition Ppmd8Encoder_dealloc :: "state8 encoder \<Rightarrow> unit option" where
  "Ppmd8Encoder_dealloc self =
     (case codec self of Null \<Rightarrow> Some () | Live s \<Rightarrow> Some () | Dangling \<Rightarrow> None)"

section \<open>\<open>encode\<close> and \<open>flush\<close>\<close>

text \<open>\<^verbatim>\<open>for (UInt32 i = 0; i < data.len; i++)\<close>, from index \<open>i\<close>.\<close>

partial_function (option) encode_loop ::
    "pyapi \<Rightarrow> ('s \<Rightarrow> int \<Rightarrow> (Byte list \<times> 's) option) \<Rightarrow> Byte list \<Rightarrow> UInt32 \<Rightarrow> 's \<Rightarrow> obuf \<Rightarrow>
     ('s \<times> (ob_error + obuf)) option" where
  "encode_loop api se data i st x =
     (if unat i < length data
      then do { (out, st) \<leftarrow> se st (int (unat (data ! unat i)));
                let x = write_bytes out x;
                if out_size (snd x) = out_pos (snd x)
                then case OutputBuffer_Grow api x of
                       Inl e \<Rightarrow> Some (st, Inl e)
                     | Inr x \<Rightarrow> encode_loop api se data (i + 1) st x
                else encode_loop api se data (i + 1) st x }
      else Some (st, Inr x))"

definition finish_result :: "pyapi \<Rightarrow> obuf \<Rightarrow> py_error + Byte list" where
  "finish_result api x =
     (case OutputBuffer_Finish api x of Inl e \<Rightarrow> Inl MemoryError | Inr r \<Rightarrow> Inr r)"

definition encoder_encode ::
    "pyapi \<Rightarrow> ('s \<Rightarrow> int \<Rightarrow> (Byte list \<times> 's) option) \<Rightarrow> 's encoder \<Rightarrow> Byte list \<Rightarrow>
     ('s encoder \<times> (py_error + Byte list)) option" where
  "encoder_encode api se self data =
     (case OutputBuffer_InitAndGrow api (- 1) of
        Inl e \<Rightarrow> Some (self, Inl ValueError)
      | Inr x \<Rightarrow>
          (case codec self of
             Live st \<Rightarrow>
               do { (st, r) \<leftarrow> encode_loop api se data 0 st x;
                    Some (self\<lparr>codec := Live st\<rparr>,
                          case r of Inl e \<Rightarrow> Inl ValueError | Inr x \<Rightarrow> finish_result api x) }
           | _ \<Rightarrow> None))"

definition Ppmd7Encoder_encode ::
    "pyapi \<Rightarrow> state7 encoder \<Rightarrow> Byte list \<Rightarrow> (state7 encoder \<times> (py_error + Byte list)) option" where
  "Ppmd7Encoder_encode api self data = encoder_encode api emit7 self data"

definition Ppmd8Encoder_encode ::
    "pyapi \<Rightarrow> state8 encoder \<Rightarrow> Byte list \<Rightarrow> (state8 encoder \<times> (py_error + Byte list)) option" where
  "Ppmd8Encoder_encode api self data = encoder_encode api emit8 self data"

definition encoder_flush ::
    "pyapi \<Rightarrow> ('s \<Rightarrow> int \<Rightarrow> (Byte list \<times> 's) option) \<Rightarrow> ('s \<Rightarrow> Byte list \<times> 's) \<Rightarrow> 's encoder \<Rightarrow> bool \<Rightarrow>
     ('s encoder \<times> (py_error + Byte list)) option" where
  "encoder_flush api se fl self endmark =
     (if flushed self then Some (self, Inl ValueError)
      else case OutputBuffer_InitAndGrow api (- 1) of
        Inl e \<Rightarrow> Some (self, Inl ValueError)
      | Inr x \<Rightarrow>
          (case codec self of
             Live st \<Rightarrow>
               do { (out, st) \<leftarrow> (if endmark then se st (- 1) else Some ([], st));
                    let x = write_bytes out x;
                    let (out, st) = fl st;
                    let x = write_bytes out x;
                    Some (self\<lparr>codec := Live st\<rparr>, finish_result api x) }
           | _ \<Rightarrow> None))"

definition Ppmd7Encoder_flush ::
    "pyapi \<Rightarrow> state7 encoder \<Rightarrow> bool option \<Rightarrow> (state7 encoder \<times> (py_error + Byte list)) option" where
  "Ppmd7Encoder_flush api self endmark =
     encoder_flush api emit7 flush_emit7 self (case endmark of None \<Rightarrow> False | Some b \<Rightarrow> b)"

definition Ppmd8Encoder_flush ::
    "pyapi \<Rightarrow> state8 encoder \<Rightarrow> bool option \<Rightarrow> (state8 encoder \<times> (py_error + Byte list)) option" where
  "Ppmd8Encoder_flush api self endmark =
     encoder_flush api emit8 flush_emit8 self (case endmark of None \<Rightarrow> True | Some b \<Rightarrow> b)"

section \<open>What \<open>encode\<close> returns\<close>

text \<open>The emissions of a run of symbols, and what of them gets into the buffer when block \<open>k\<close>
  is being filled and has \<open>fr\<close> bytes left: an emission is cut at the end of its block.\<close>

primrec run_emit :: "('s \<Rightarrow> int \<Rightarrow> (Byte list \<times> 's) option) \<Rightarrow> 's \<Rightarrow> int list \<Rightarrow> (Byte list list \<times> 's) option" where
  "run_emit se st [] = Some ([], st)"
| "run_emit se st (ch # chs) =
     do { (out, st) \<leftarrow> se st ch; (outs, st) \<leftarrow> run_emit se st chs; Some (out # outs, st) }"

definition symbols_of :: "Byte list \<Rightarrow> int list" where
  "symbols_of data = map (\<lambda>b. int (unat b)) data"

primrec deliver :: "nat \<Rightarrow> nat \<Rightarrow> Byte list list \<Rightarrow> Byte list" where
  "deliver k fr [] = []"
| "deliver k fr (out # outs) =
     take fr out @ (if fr \<le> length out then deliver (k + 1) (nat (next_block k)) outs
                    else deliver k (fr - length out) outs)"

primrec fits :: "nat \<Rightarrow> nat \<Rightarrow> Byte list list \<Rightarrow> bool" where
  "fits k fr [] \<longleftrightarrow> True"
| "fits k fr (out # outs) \<longleftrightarrow> length out \<le> fr \<and>
     (if fr = length out then fits (k + 1) (nat (next_block k)) outs else fits k (fr - length out) outs)"

lemma deliver_fits: "fits k fr outs \<Longrightarrow> deliver k fr outs = concat outs"
  by (induction outs arbitrary: k fr) (auto split: if_splits)

lemma fits_small: "length (concat outs) < fr \<Longrightarrow> fits k fr outs"
  by (induction outs arbitrary: k fr) auto

text \<open>Enough memory for every growth.\<close>

definition ample :: "pyapi \<Rightarrow> bool" where
  "ample api \<longleftrightarrow> py_ok api \<and> (\<forall>n. new_bytes api n \<noteq> None) \<and> (\<forall>n. list_room api n)"

lemma encode_loop_deliver:
  assumes api: "ample api" and len: "length data < 2 ^ 32"
    and "ob_inv x" "0 < ob_free x" "max_length (fst x) = - 1" "unat i \<le> length data"
    and "allocated (fst x) \<le> (int (unat i) + 1) * 2 ^ 28"
    and "run_emit se st (symbols_of (drop (unat i) data)) = Some (outs, st')"
  shows "\<exists>y. encode_loop api se data i st x = Some (st', Inr y) \<and> ob_inv y \<and>
    ob_data y = ob_data x @ deliver (length (blocks (fst x))) (ob_free x) outs"
  using assms(3-8)
proof (induction outs arbitrary: i st x)
  case Nil
  then have "drop (unat i) data = []" by (cases "drop (unat i) data") (auto simp: symbols_of_def split: bind_splits)
  then have "\<not> unat i < length data" "st' = st" using Nil.prems(6) by (auto simp: symbols_of_def)
  then show ?case using Nil.prems(1) by (subst encode_loop.simps) simp
next
  case (Cons out outs)
  then have lt: "unat i < length data" by (cases "unat i < length data") (auto simp: symbols_of_def)
  then have d: "drop (unat i) data = data ! unat i # drop (Suc (unat i)) data" by (rule Cons_nth_drop_Suc [symmetric])
  have i1: "unat (i + 1) = Suc (unat i)"
    using lt len by (subst unat_add_le) simp_all
  obtain st1 where e: "se st (int (unat (data ! unat i))) = Some (out, st1)"
    and rest: "run_emit se st1 (symbols_of (drop (unat (i + 1)) data)) = Some (outs, st')"
    using Cons.prems(6) unfolding d i1 by (auto simp: symbols_of_def split: bind_splits)
  define y where "y = write_bytes out x"
  note W = write_bytes_spec [OF Cons.prems(1), of out, folded y_def]
  have full: "out_size (snd y) = out_pos (snd y) \<longleftrightarrow> ob_free y = 0"
    using W by (cases y) (auto simp: ob_inv_def ob_free_def)
  show ?case
  proof (cases "ob_free y = 0")
    case True
    have "(int (unat i) + 1) * 2 ^ 28 \<le> 2 ^ 32 * 2 ^ 28"
      using uint_lt2p [of i] by (intro mult_right_mono) simp_all
    then have al: "allocated (fst y) \<le> 2 ^ 62" using W Cons.prems(5) by simp
    obtain z where z: "OutputBuffer_Grow api y = Inr z"
      using Grow_total [OF _ _ True _ _ al, of api] W Cons.prems(3) api by (auto simp: ample_def)
    note G = Grow_spec [OF _ _ z]
    have gz: "ob_inv z \<and> ob_data z = ob_data y \<and> max_length (fst z) = - 1 \<and> 0 < ob_free z \<and>
        length (blocks (fst z)) = length (blocks (fst x)) + 1 \<and>
        ob_free z = nat (next_block (length (blocks (fst x))))"
      using G W Cons.prems(3) api by (auto simp: ample_def Let_def)
    have "int (ob_free z) \<le> 2 ^ 28"
      using gz next_block_bounds [of "length (blocks (fst x))"] by (simp add: MB_def)
    moreover have "int (length (ob_data z)) + int (ob_free z) = allocated (fst z)"
      "int (length (ob_data y)) + int (ob_free y) = allocated (fst y)"
      using gz W by (blast intro: ob_data_length)+
    ultimately have "allocated (fst z) \<le> allocated (fst x) + 2 ^ 28"
      using gz True W by simp
    then have "allocated (fst z) \<le> (int (unat (i + 1)) + 1) * 2 ^ 28"
      unfolding i1 using Cons.prems(5) by (simp add: algebra_simps)
    from Cons.IH [OF _ _ _ _ this rest] gz lt i1 obtain w where
      "encode_loop api se data (i + 1) st1 z = Some (st', Inr w)" "ob_inv w"
      "ob_data w = ob_data z @ deliver (length (blocks (fst z))) (ob_free z) outs" by auto
    then show ?thesis
      using lt e z full True W gz by (subst encode_loop.simps) (simp add: y_def [symmetric] Let_def)
  next
    case False
    have "allocated (fst y) \<le> (int (unat (i + 1)) + 1) * 2 ^ 28"
      unfolding i1 using Cons.prems(5) W by (simp add: algebra_simps)
    from Cons.IH [OF _ _ _ _ this rest] W False lt i1 Cons.prems(3) obtain w where
      "encode_loop api se data (i + 1) st1 y = Some (st', Inr w)" "ob_inv w"
      "ob_data w = ob_data y @ deliver (length (blocks (fst y))) (ob_free y) outs" by auto
    then show ?thesis
      using lt e full False W by (subst encode_loop.simps) (simp add: y_def [symmetric] Let_def)
  qed
qed

lemma finish_result_ample: "ample api \<Longrightarrow> ob_inv x \<Longrightarrow> finish_result api x = Inr (ob_data x)"
proof -
  assume a: "ample api" and i: "ob_inv x"
  obtain r where "OutputBuffer_Finish api x = Inr r"
    using Finish_total [OF i] a unfolding ample_def by blast
  with Finish_spec [OF _ i this] a show ?thesis by (simp add: finish_result_def ample_def)
qed

lemma InitAndGrow_unbounded:
  assumes "ample api"
  obtains x where "OutputBuffer_InitAndGrow api (- 1) = Inr x" "ob_inv x" "ob_data x = []"
    "max_length (fst x) = - 1" "length (blocks (fst x)) = 1" "ob_free x = 2 ^ 15" "allocated (fst x) = 2 ^ 15"
proof -
  obtain x where x: "OutputBuffer_InitAndGrow api (- 1) = Inr x"
    using InitAndGrow_total [of api "- 1"] assms unfolding ample_def by blast
  have I: "ob_inv x \<and> ob_data x = [] \<and> max_length (fst x) = - 1 \<and> length (blocks (fst x)) = 1 \<and>
    ob_free x = 2 ^ 15"
    using InitAndGrow_spec [OF _ x] assms by (auto simp: ample_def KB_def)
  moreover have "allocated (fst x) = 2 ^ 15" using ob_data_length [of x] I by simp
  ultimately show ?thesis using that x by blast
qed

lemma encode_delivers:
  assumes "ample api" "length data < 2 ^ 32" "codec self = Live st"
    and "run_emit se st (symbols_of data) = Some (outs, st')"
  shows "encoder_encode api se self data = Some (self\<lparr>codec := Live st'\<rparr>, Inr (deliver 1 (2 ^ 15) outs))"
proof -
  obtain x where x: "OutputBuffer_InitAndGrow api (- 1) = Inr x" "ob_inv x" "ob_data x = []"
    "max_length (fst x) = - 1" "length (blocks (fst x)) = 1" "ob_free x = 2 ^ 15" "allocated (fst x) = 2 ^ 15"
    using InitAndGrow_unbounded [OF assms(1)] by blast
  obtain y where "encode_loop api se data 0 st x = Some (st', Inr y)" "ob_inv y"
    "ob_data y = deliver 1 (2 ^ 15) outs"
    using encode_loop_deliver [OF assms(1,2) x(2), of 0 se st outs st'] x assms(4) by auto
  then show ?thesis
    using x assms(1,3) by (simp add: encoder_encode_def finish_result_ample)
qed

lemma flush_delivers:
  assumes "ample api" "codec self = Live st" "\<not> flushed self"
    and "(if endmark then se st (- 1) else Some ([], st)) = Some (out1, st1)" "fl st1 = (out2, st2)"
  shows "encoder_flush api se fl self endmark =
    Some (self\<lparr>codec := Live st2\<rparr>, Inr (take (2 ^ 15) (out1 @ out2)))"
proof -
  obtain x where x: "OutputBuffer_InitAndGrow api (- 1) = Inr x" "ob_inv x" "ob_data x = []"
    "ob_free x = 2 ^ 15"
    using InitAndGrow_unbounded [OF assms(1)] by blast
  have "write_bytes out2 (write_bytes out1 x) = write_bytes (out1 @ out2) x"
    by (simp add: write_bytes_def)
  moreover have "finish_result api (write_bytes (out1 @ out2) x) = Inr (take (2 ^ 15) (out1 @ out2))"
    using finish_result_ample [OF assms(1)] write_bytes_spec [OF x(2), of "out1 @ out2"] x by simp
  ultimately show ?thesis
    using x(1) assms(2-5) by (simp add: encoder_flush_def Let_def)
qed

section \<open>What \<open>__init__\<close> makes\<close>

lemma order_arg_bounds:
  assumes "order_arg mx a = Inr mo" "6 \<le> mx" "mx < 2 ^ 32"
  shows "2 \<le> unat mo \<and> unat mo \<le> mx"
proof -
  have "unat (word_of_nat (clamp_max_order n mx) :: UInt32) = clamp_max_order n mx" for n
    using assms(3) by (simp add: unat_of_nat clamp_max_order_def PPMD7_MIN_ORDER_def)
  then show ?thesis using assms
    by (auto simp: order_arg_def clamp_max_order_def PPMD7_MIN_ORDER_def split: pyarg.splits option.splits)
qed

lemma memory_arg_bounds:
  assumes "memory_arg a = Inr ms"
  shows "2 ^ 11 \<le> unat ms \<and> unat ms \<le> 0xFFFFFFFF - 36"
proof -
  have "unat (word_of_nat (clamp_memory_size n) :: UInt32) = clamp_memory_size n" for n
    by (simp add: unat_of_nat clamp_memory_size_def PPMD7_MIN_MEM_SIZE_def PPMD7_MAX_MEM_SIZE_def)
  moreover have "unat (push_bit 20 16 :: UInt32) = 2 ^ 24" by (simp add: unat_push_bit_mod)
  ultimately show ?thesis using assms
    by (auto simp: memory_arg_def clamp_memory_size_def PPMD7_MIN_MEM_SIZE_def PPMD7_MAX_MEM_SIZE_def
        split: pyarg.splits option.splits)
qed

text \<open>
  C29.  When \<open>__init__\<close> of \<open>Ppmd7Encoder\<close> returns, it was called for the first time, and the object
  holds a model of an order between 2 and 64 and an arena between 2 KiB and 4 GiB, whatever numbers
  it was given, that is well formed (\<open>wf7\<close>), and an empty range encoder.
\<close>

theorem encoder7_init_ok:
  assumes "Ppmd7Encoder_init obj raw rawrc alloc self max_order mem_size = (self', Inr ())"
  shows "\<not> inited self \<and> inited self' \<and> flushed self' = flushed self \<and>
    (\<exists>p mo. codec self' = Live (Ppmd7_Init p mo, Ppmd7z_RangeEnc_Init rawrc) \<and> wf7 (Ppmd7_Init p mo) \<and>
       2 \<le> unat mo \<and> unat mo \<le> 64 \<and> 2 ^ 11 \<le> unat (Size p) \<and> unat (Size p) \<le> 0xFFFFFFFF - 36)"
proof -
  obtain mo ms p where i: "\<not> inited self" and mo: "order_arg PPMD7_MAX_ORDER max_order = Inr mo"
    and ms: "memory_arg mem_size = Inr ms"
    and al: "Ppmd7_Alloc (Ppmd7_Construct raw) ms alloc = (True, p)"
    and s: "self' = self\<lparr>inited := True, codec := Live (Ppmd7_Init p mo, Ppmd7z_RangeEnc_Init rawrc)\<rparr>"
    using assms by (auto simp: Ppmd7Encoder_init_def Let_def split: if_splits sum.splits prod.splits)
  have "2 \<le> unat mo \<and> unat mo \<le> 64"
    using order_arg_bounds [OF mo] by (simp add: PPMD7_MAX_ORDER_def)
  moreover note memory_arg_bounds [OF ms]
  moreover have "wf7 (Ppmd7_Init p mo)"
    using Ppmd7_Init_wf [OF al] memory_arg_bounds [OF ms] by blast
  moreover have "Size p = ms"
    using Ppmd7_Alloc_fresh [OF al] memory_arg_bounds [OF ms] by blast
  ultimately show ?thesis using i by (auto simp: s)
qed

theorem encoder7_init_ok_witness:
  "(\<exists>self'. Ppmd7Encoder_init (\<lambda>_. True) blank7 \<lparr>eLow = 1, eRange = 1, eCache = 1, eCacheSize = 1, eStream = []\<rparr>
      full_alloc encoder_new (PyInt 1000) (PyInt 1) = (self', Inr ()) \<and>
    (\<exists>p mo. codec self' = Live (Ppmd7_Init p mo, \<lparr>eLow = 0, eRange = 0xFFFFFFFF, eCache = 0, eCacheSize = 1, eStream = []\<rparr>)
       \<and> wf7 (Ppmd7_Init p mo)))"
proof -
  let ?rc = "\<lparr>eLow = 1, eRange = 1, eCache = 1, eCacheSize = 1, eStream = []\<rparr>"
  have "order_arg PPMD7_MAX_ORDER (PyInt 1000) = Inr 64" "memory_arg (PyInt 1) = Inr 2048"
    by (simp_all add: order_arg_def memory_arg_def PyLong_AsUnsignedLong_def clamp_max_order_def
        clamp_memory_size_def PPMD7_MAX_ORDER_def PPMD7_MIN_ORDER_def PPMD7_MIN_MEM_SIZE_def)
  then have i: "Ppmd7Encoder_init (\<lambda>_. True) blank7 ?rc full_alloc encoder_new (PyInt 1000) (PyInt 1) =
      (\<lparr>codec = Live (Ppmd7_Init model7_2048 64, Ppmd7z_RangeEnc_Init ?rc), inited = True, flushed = False\<rparr>, Inr ())"
    by (simp add: Ppmd7Encoder_init_def encoder_new_def model7_2048_alloc)
  have "Ppmd7z_RangeEnc_Init ?rc = \<lparr>eLow = 0, eRange = 0xFFFFFFFF, eCache = 0, eCacheSize = 1, eStream = []\<rparr>"
    by (simp add: Ppmd7z_RangeEnc_Init_def)
  then show ?thesis using i encoder7_init_ok [OF i] by metis
qed

text \<open>
  C30.  When \<open>__init__\<close> of \<open>Ppmd8Encoder\<close> returns, it was called for the first time, and the object
  holds a well formed model (\<open>wf8\<close>) with the restore method asked for, of an order between 2 and 16 and
  an arena between 2 KiB and 4 GiB, and an empty range encoder.
\<close>

theorem encoder8_init_ok:
  assumes "Ppmd8Encoder_init obj raw rawrc alloc self max_order mem_size rm = (self', Inr ())"
  shows "\<not> inited self \<and> inited self' \<and> flushed self' = flushed self \<and>
    (\<exists>p mo. codec self' = Live (Ppmd8_Init p mo rm, Ppmd8_RangeEnc_Init rawrc) \<and> wf8 (Ppmd8_Init p mo rm) \<and>
       2 \<le> unat mo \<and> unat mo \<le> 16 \<and> 2 ^ 11 \<le> unat (Size p) \<and> unat (Size p) \<le> 0xFFFFFFFF - 36)"
proof -
  obtain mo ms p where i: "\<not> inited self" and mo: "order_arg PPMD8_MAX_ORDER max_order = Inr mo"
    and ms: "memory_arg mem_size = Inr ms"
    and al: "Ppmd8_Alloc (Ppmd8_Construct raw) ms alloc = (True, p)"
    and s: "self' = self\<lparr>inited := True, codec := Live (Ppmd8_Init p mo rm, Ppmd8_RangeEnc_Init rawrc)\<rparr>"
    using assms by (auto simp: Ppmd8Encoder_init_def Let_def split: if_splits sum.splits prod.splits)
  have "2 \<le> unat mo \<and> unat mo \<le> 16"
    using order_arg_bounds [OF mo] by (simp add: PPMD8_MAX_ORDER_def)
  moreover note memory_arg_bounds [OF ms]
  moreover have "wf8 (Ppmd8_Init p mo rm)"
    using Ppmd8_Init_wf [OF al] memory_arg_bounds [OF ms] by blast
  moreover have "Size p = ms"
    using Ppmd8_Alloc_fresh [OF al] memory_arg_bounds [OF ms] by blast
  ultimately show ?thesis using i by (auto simp: s)
qed

theorem encoder8_init_ok_witness:
  "(\<exists>self'. Ppmd8Encoder_init (\<lambda>_. True) blank8 \<lparr>rcLow = 1, rcRange = 1, rcCode = 1, rcIn = [], rcOut = []\<rparr>
      full_alloc encoder_new (PyInt 1000) (PyInt 1) 1 = (self', Inr ()) \<and>
    (\<exists>p mo. codec self' = Live (Ppmd8_Init p mo 1, \<lparr>rcLow = 0, rcRange = 0xFFFFFFFF, rcCode = 1, rcIn = [], rcOut = []\<rparr>)
       \<and> wf8 (Ppmd8_Init p mo 1)))"
proof -
  let ?rc = "\<lparr>rcLow = 1, rcRange = 1, rcCode = 1, rcIn = [], rcOut = []\<rparr>"
  have "order_arg PPMD8_MAX_ORDER (PyInt 1000) = Inr 16" "memory_arg (PyInt 1) = Inr 2048"
    by (simp_all add: order_arg_def memory_arg_def PyLong_AsUnsignedLong_def clamp_max_order_def
        clamp_memory_size_def PPMD8_MAX_ORDER_def PPMD7_MIN_ORDER_def PPMD7_MIN_MEM_SIZE_def)
  then have i: "Ppmd8Encoder_init (\<lambda>_. True) blank8 ?rc full_alloc encoder_new (PyInt 1000) (PyInt 1) 1 =
      (\<lparr>codec = Live (Ppmd8_Init model8_2048 16 1, Ppmd8_RangeEnc_Init ?rc), inited = True, flushed = False\<rparr>, Inr ())"
    by (simp add: Ppmd8Encoder_init_def encoder_new_def model8_2048_alloc)
  have "Ppmd8_RangeEnc_Init ?rc = \<lparr>rcLow = 0, rcRange = 0xFFFFFFFF, rcCode = 1, rcIn = [], rcOut = []\<rparr>"
    by (simp add: Ppmd8_RangeEnc_Init_def)
  then show ?thesis using i encoder8_init_ok [OF i] by metis
qed

text \<open>
  C33.  A failed \<open>__init__\<close> of \<open>Ppmd7Encoder\<close> cannot be repeated and leaves no usable object: on a new
  object it sets \<open>inited\<close> on every path, so a second call raises RuntimeError and changes
  nothing; and after the failure \<open>encode\<close> and \<open>flush\<close> (when the output buffer can be made) and
  \<open>dealloc\<close> itself follow a NULL pointer or a freed one.
\<close>

theorem encoder7_init_failed:
  assumes "Ppmd7Encoder_init obj raw rawrc alloc encoder_new max_order mem_size = (self, Inl e)"
    and "OutputBuffer_InitAndGrow api (- 1) = Inr x"
  shows "Ppmd7Encoder_init obj' raw' rawrc' alloc' self mo' ms' = (self, Inl RuntimeError) \<and>
    Ppmd7Encoder_dealloc self = None \<and> Ppmd7Encoder_encode api self data = None \<and>
    Ppmd7Encoder_flush api self endmark = None"
proof -
  have "inited self \<and> \<not> flushed self \<and> (codec self = Null \<or> codec self = Dangling)"
    using assms(1)
    by (auto simp: Ppmd7Encoder_init_def encoder_new_def Let_def split: if_splits sum.splits prod.splits)
  then show ?thesis using assms(2)
    by (auto simp: Ppmd7Encoder_init_def Ppmd7Encoder_dealloc_def Ppmd7Encoder_encode_def encoder_encode_def
        Ppmd7Encoder_flush_def encoder_flush_def)
qed

text \<open>A negative order, and no memory for the arena.\<close>

theorem encoder7_init_failed_witness:
  "Ppmd7Encoder_init (\<lambda>_. True) blank7 \<lparr>eLow = 0, eRange = 0, eCache = 0, eCacheSize = 0, eStream = []\<rparr> full_alloc
      \<lparr>codec = Null, inited = True, flushed = False\<rparr> PyNone PyNone =
      (\<lparr>codec = Null, inited = True, flushed = False\<rparr>, Inl RuntimeError) \<and>
    Ppmd7Encoder_dealloc \<lparr>codec = Null, inited = True, flushed = False\<rparr> = None \<and>
    Ppmd7Encoder_dealloc \<lparr>codec = Dangling, inited = True, flushed = False\<rparr> = None"
proof -
  let ?rc = "\<lparr>eLow = 0, eRange = 0, eCache = 0, eCacheSize = 0, eStream = []\<rparr>"
  have i: "Ppmd7Encoder_init (\<lambda>_. True) blank7 ?rc full_alloc encoder_new (PyInt (- 1)) PyNone =
      (\<lparr>codec = Null, inited = True, flushed = False\<rparr>, Inl ValueError)"
    by (simp add: Ppmd7Encoder_init_def encoder_new_def order_arg_def PyLong_AsUnsignedLong_def)
  have j: "Ppmd7Encoder_init (\<lambda>_. True) blank7 ?rc (\<lambda>n. None) encoder_new PyNone PyNone =
      (\<lparr>codec = Dangling, inited = True, flushed = False\<rparr>, Inl MemoryError)"
    by (simp add: Ppmd7Encoder_init_def encoder_new_def order_arg_def memory_arg_def Ppmd7_Alloc_def
        Ppmd7_Construct_def Ppmd7_Free_def Let_def)
  obtain x where x: "OutputBuffer_InitAndGrow good_api (- 1) = Inr x"
    by (rule InitAndGrow_total [OF good_api_ok(2,3)])
  show ?thesis using encoder7_init_failed [OF i x] encoder7_init_failed [OF j x] by simp
qed

end
