(* ===== verification/Decoder_Object.thy ===== *)
theory Decoder_Object
  imports Thread_Decoder Decoder_Stream Encoder_Object
begin

text \<open>
  The decoder objects of the extension module (\<^verbatim>\<open>src/ext/_ppmdmodule.c\<close>): \<^verbatim>\<open>__init__\<close>,
  \<^verbatim>\<open>decode\<close>, \<^verbatim>\<open>unused_data\<close> and \<^verbatim>\<open>dealloc\<close> of \<^verbatim>\<open>Ppmd7Decoder\<close> and \<^verbatim>\<open>Ppmd8Decoder\<close>.  A call of
  \<^verbatim>\<open>T_decode\<close> is the function of \<open>Thread_Decoder\<close>.  The module is taken as built with its assertions;
  \<open>None\<close> is undefined behaviour, a failed assertion or a call that does not return.
\<close>

section \<open>State\<close>

type_synonym dstate7 = "CPpmd7 \<times> CPpmd7z_RangeDec"
type_synonym dstate8 = "CPpmd8 \<times> CPpmd8_rc"

text \<open>\<open>core\<close> stands for \<^verbatim>\<open>cPpmd7\<close> (or 8) with what is reached from it: the codec, the thread and
  the input and output buffers it works on.\<close>

record 's decoder =
  input_buffer :: "Byte list option"
  input_buffer_size :: nat
  in_begin :: nat
  in_end :: nat
  core :: "(worker \<times> 's ppmd_info) ptr"
  unused_data :: "Byte list option"
  needs_input :: bool
  eof :: bool
  dinited :: bool
  dinited2 :: bool

definition decoder_new :: "'s decoder" where
  "decoder_new = \<lparr>input_buffer = None, input_buffer_size = 0, in_begin = 0, in_end = 0, core = Null,
     unused_data = None, needs_input = False, eof = False, dinited = False, dinited2 = False\<rparr>"

text \<open>The symbol decoders and the start of the range decoders, on the input as a list.\<close>

definition decode7 :: "dstate7 symbol_decoder" where
  "decode7 = (\<lambda>(p, rc) bs.
     do { (ch, rc, p) \<leftarrow> Ppmd7_DecodeSymbol p (rc\<lparr>dStream := bs\<rparr>);
          Some (ch, (p, rc\<lparr>dStream := []\<rparr>), dStream rc) })"

definition decode8 :: "dstate8 symbol_decoder" where
  "decode8 = (\<lambda>(p, rc) bs.
     do { (ch, rc, p) \<leftarrow> Ppmd8_DecodeSymbol p (rc\<lparr>rcIn := bs\<rparr>);
          Some (ch, (p, rc\<lparr>rcIn := []\<rparr>), rcIn rc) })"

definition start7 :: "dstate7 \<Rightarrow> Byte list \<Rightarrow> bool \<times> dstate7 \<times> Byte list" where
  "start7 = (\<lambda>(p, rc) bs. let (ok, rc) = Ppmd7z_RangeDec_Init (rc\<lparr>dStream := bs\<rparr>)
                          in (ok, (p, rc\<lparr>dStream := []\<rparr>), dStream rc))"

definition start8 :: "dstate8 \<Rightarrow> Byte list \<Rightarrow> bool \<times> dstate8 \<times> Byte list" where
  "start8 = (\<lambda>(p, rc) bs. let (ok, rc) = Ppmd8_RangeDec_Init (rc\<lparr>rcIn := bs\<rparr>)
                          in (ok, (p, rc\<lparr>rcIn := []\<rparr>), rcIn rc))"

section \<open>\<open>__init__\<close> and \<open>dealloc\<close>\<close>

text \<open>\<open>obj\<close>, \<open>raw\<close> and \<open>alloc\<close> as for the encoders; \<open>raw_info\<close> is what the fresh thread information and its
  buffers hold.\<close>

definition decoder_parts :: "string list" where
  "decoder_parts = [''BufferReader'', ''BlocksOutputBuffer'', ''InBuffer'', ''OutBuffer'', ''ppmd_info'']"

definition Ppmd7Decoder_init ::
    "(string \<Rightarrow> bool) \<Rightarrow> CPpmd7 \<Rightarrow> dstate7 ppmd_info \<Rightarrow> CPpmd7z_RangeDec \<Rightarrow> (nat \<Rightarrow> arena option) \<Rightarrow>
     dstate7 decoder \<Rightarrow> pyarg \<Rightarrow> pyarg \<Rightarrow> dstate7 decoder \<times> (py_error + unit)" where
  "Ppmd7Decoder_init obj raw raw_info rawrd alloc self max_order mem_size =
     (if dinited self then (self, Inl RuntimeError)
      else let self = self\<lparr>dinited := True\<rparr> in
      case order_arg PPMD7_MAX_ORDER max_order of Inl e \<Rightarrow> (self, Inl e) | Inr mo \<Rightarrow>
      case memory_arg mem_size of Inl e \<Rightarrow> (self, Inl e) | Inr ms \<Rightarrow>
      if \<not> list_all obj decoder_parts then (self, Inl MemoryError)
      else if \<not> obj ''CPpmd7'' then (self, Inl NoException)
      else let (ok, p) = Ppmd7_Alloc (Ppmd7_Construct raw) ms alloc in
           if ok \<and> obj ''ppmd_thread_control_t'' \<and> obj ''CPpmd7z_RangeDec''
           then (self\<lparr>eof := False, needs_input := True,
                      core := Live (NoThread, raw_info\<lparr>cPpmd := (Ppmd7_Init p mo, rawrd),
                                                      tempty := False, tfinished := True\<rparr>)\<rparr>, Inr ())
           else (self\<lparr>core := Dangling\<rparr>, Inl MemoryError))"

definition Ppmd8Decoder_init ::
    "(string \<Rightarrow> bool) \<Rightarrow> CPpmd8 \<Rightarrow> dstate8 ppmd_info \<Rightarrow> CPpmd8_rc \<Rightarrow> (nat \<Rightarrow> arena option) \<Rightarrow>
     dstate8 decoder \<Rightarrow> pyarg \<Rightarrow> pyarg \<Rightarrow> UInt32 \<Rightarrow> dstate8 decoder \<times> (py_error + unit)" where
  "Ppmd8Decoder_init obj raw raw_info rawrd alloc self max_order mem_size restore_method =
     (if dinited self then (self, Inl RuntimeError)
      else let self = self\<lparr>dinited := True, needs_input := True\<rparr> in
      case order_arg PPMD8_MAX_ORDER max_order of Inl e \<Rightarrow> (self, Inl e) | Inr mo \<Rightarrow>
      case memory_arg mem_size of Inl e \<Rightarrow> (self, Inl e) | Inr ms \<Rightarrow>
      if \<not> list_all obj decoder_parts then (self, Inl MemoryError)
      else if \<not> obj ''CPpmd8'' then (self, Inl NoException)
      else let (ok, p) = Ppmd8_Alloc (Ppmd8_Construct raw) ms alloc in
           if ok \<and> obj ''ppmd_thread_control_t''
           then (self\<lparr>core := Live (NoThread, raw_info\<lparr>cPpmd := (Ppmd8_Init p mo restore_method, rawrd),
                                                      tempty := False, tfinished := True\<rparr>)\<rparr>, Inr ())
           else (self\<lparr>core := Dangling\<rparr>, Inl MemoryError))"

section \<open>The input buffer\<close>

definition buffer_bytes :: "'s decoder \<Rightarrow> Byte list" where
  "buffer_bytes self = (case input_buffer self of None \<Rightarrow> [] | Some b \<Rightarrow> b)"

text \<open>The three cases of the input: no unconsumed data, the unconsumed data alone, both.  \<open>malloc\<close> is
  \<^verbatim>\<open>PyMem_Malloc\<close>; the result says whether the object's own buffer is used.\<close>

definition prepare_input ::
    "(nat \<Rightarrow> Byte list option) \<Rightarrow> 's decoder \<Rightarrow> Byte list \<Rightarrow> (bool \<times> InBuffer \<times> 's decoder) option" where
  "prepare_input malloc self data =
     (let buf = buffer_bytes self;
          used_now = in_end self - in_begin self;
          unconsumed = take used_now (drop (in_begin self) buf) in
      if in_begin self = in_end self
      then Some (False, \<lparr>src = data, in_size = length data, in_pos = 0\<rparr>, self)
      else if data = []
      then Some (True, \<lparr>src = unconsumed, in_size = used_now, in_pos = 0\<rparr>, self)
      else
        let avail_now = input_buffer_size self - in_end self;
            avail_total = input_buffer_size self - used_now in
        do { self \<leftarrow>
               (if avail_total < length data
                then do { tmp \<leftarrow> malloc (used_now + length data);
                          Some (self\<lparr>input_buffer := Some (unconsumed @ drop used_now tmp),
                                     input_buffer_size := used_now + length data,
                                     in_begin := 0, in_end := used_now\<rparr>) }
                else if avail_now < length data
                then Some (self\<lparr>input_buffer := Some (unconsumed @ drop used_now buf),
                                in_begin := 0, in_end := used_now\<rparr>)
                else Some self);
             let buf = buffer_bytes self;
             let buf = take (in_end self) buf @ data @ drop (in_end self + length data) buf;
             let self = self\<lparr>input_buffer := Some buf, in_end := in_end self + length data\<rparr>;
             Some (True, \<lparr>src = take (used_now + length data) (drop (in_begin self) buf),
                          in_size = used_now + length data, in_pos = 0\<rparr>, self) })"

text \<open>What is left of the input after the call; \<open>None\<close>: no memory.\<close>

definition keep_input ::
    "(nat \<Rightarrow> Byte list option) \<Rightarrow> bool \<Rightarrow> InBuffer \<Rightarrow> 's decoder \<Rightarrow> 's decoder option" where
  "keep_input malloc use_input_buffer inb self =
     (if in_pos inb = in_size inb
      then Some (if use_input_buffer then self\<lparr>in_begin := 0, in_end := 0\<rparr> else self)
      else
        let data_size = in_size inb - in_pos inb;
            self = self\<lparr>needs_input := False\<rparr> in
        if use_input_buffer then Some (self\<lparr>in_begin := in_begin self + in_pos inb\<rparr>)
        else
          let self = (if input_buffer self \<noteq> None \<and> input_buffer_size self < data_size
                      then self\<lparr>input_buffer := None, input_buffer_size := 0\<rparr> else self)
          in do { self \<leftarrow> (case input_buffer self of
                     None \<Rightarrow> do { b \<leftarrow> malloc data_size;
                                  Some (self\<lparr>input_buffer := Some b, input_buffer_size := data_size\<rparr>) }
                   | Some b \<Rightarrow> Some self);
                  let buf = buffer_bytes self;
                  Some (self\<lparr>input_buffer := Some (take data_size (drop (in_pos inb) (src inb)) @ drop data_size buf),
                             in_begin := 0, in_end := data_size\<rparr>) })"

text \<open>The object keeps the unconsumed input: \<open>pending\<close>.\<close>

definition input_inv :: "'s decoder \<Rightarrow> bool" where
  "input_inv self \<longleftrightarrow> in_begin self \<le> in_end self \<and> in_end self \<le> input_buffer_size self \<and>
     input_buffer_size self = length (buffer_bytes self)"

definition pending :: "'s decoder \<Rightarrow> Byte list" where
  "pending self = take (in_end self - in_begin self) (drop (in_begin self) (buffer_bytes self))"

definition malloc_ok :: "(nat \<Rightarrow> Byte list option) \<Rightarrow> bool" where
  "malloc_ok malloc \<longleftrightarrow> (\<forall>n b. malloc n = Some b \<longrightarrow> length b = n)"

definition other_fields ::
    "'s decoder \<Rightarrow> (worker \<times> 's ppmd_info) ptr \<times> Byte list option \<times> bool \<times> bool \<times> bool" where
  "other_fields self = (core self, unused_data self, eof self, dinited self, dinited2 self)"

lemma length_pending: "input_inv self \<Longrightarrow> length (pending self) = in_end self - in_begin self"
  by (auto simp: pending_def input_inv_def min_def)

lemma prepare_input_spec:
  assumes "input_inv self" "malloc_ok malloc" "prepare_input malloc self data = Some (use, inb, self')"
  shows "tin_ok inb \<and> in_pos inb = 0 \<and> src inb = pending self @ data \<and> input_inv self' \<and>
    (use \<longrightarrow> pending self' = src inb \<and> pending self \<noteq> []) \<and>
    (\<not> use \<longrightarrow> pending self' = [] \<and> self' = self) \<and>
    other_fields self' = other_fields self \<and> needs_input self' = needs_input self"
proof -
  let ?u = "in_end self - in_begin self"
  let ?buf = "buffer_bytes self"
  let ?un = "take ?u (drop (in_begin self) ?buf)"
  have inv: "in_begin self \<le> in_end self" "in_end self \<le> length ?buf" "input_buffer_size self = length ?buf"
    using assms(1) by (simp_all add: input_inv_def)
  have un: "length ?un = ?u" using inv by simp
  note P = assms(3) [unfolded prepare_input_def Let_def]
  consider (none) "in_begin self = in_end self" | (old) "in_begin self \<noteq> in_end self" "data = []"
    | (both) "in_begin self \<noteq> in_end self" "data \<noteq> []" by blast
  then show ?thesis
  proof cases
    case none
    then show ?thesis using P inv by (auto simp: tin_ok_def pending_def input_inv_def)
  next
    case old
    then show ?thesis using P inv un by (auto simp: tin_ok_def pending_def input_inv_def)
  next
    case both
    then obtain s1 where s1: "(if input_buffer_size self - ?u < length data
          then Option.bind (malloc (?u + length data)) (\<lambda>tmp. Some (self\<lparr>input_buffer := Some (?un @ drop ?u tmp),
                   input_buffer_size := ?u + length data, in_begin := 0, in_end := ?u\<rparr>))
          else if input_buffer_size self - in_end self < length data
          then Some (self\<lparr>input_buffer := Some (?un @ drop ?u ?buf), in_begin := 0, in_end := ?u\<rparr>)
          else Some self) = Some s1"
      and r: "use = True" "self' = s1\<lparr>input_buffer := Some (take (in_end s1) (buffer_bytes s1) @ data @
                 drop (in_end s1 + length data) (buffer_bytes s1)), in_end := in_end s1 + length data\<rparr>"
        "inb = \<lparr>src = take (?u + length data) (drop (in_begin s1) (take (in_end s1) (buffer_bytes s1) @ data @
                 drop (in_end s1 + length data) (buffer_bytes s1))), in_size = ?u + length data, in_pos = 0\<rparr>"
      using P by (auto split: bind_splits)
    have s: "in_begin s1 \<le> in_end s1" "in_end s1 + length data \<le> length (buffer_bytes s1)"
      "input_buffer_size s1 = length (buffer_bytes s1)" "in_end s1 - in_begin s1 = ?u"
      "take ?u (drop (in_begin s1) (buffer_bytes s1)) = ?un"
      "other_fields s1 = other_fields self" "needs_input s1 = needs_input self"
      using s1 inv un assms(2) by (auto simp: malloc_ok_def buffer_bytes_def other_fields_def split: if_splits bind_splits)
    have e: "in_end s1 = in_begin s1 + ?u" using s(1,4) by linarith
    have t: "take (?u + length data) (drop (in_begin s1) (take (in_end s1) (buffer_bytes s1) @ data @ x)) = ?un @ data" for x
    proof -
      have "length (take (in_end s1) (buffer_bytes s1)) = in_end s1" using s(2) by simp
      moreover have "drop (in_begin s1) (take (in_end s1) (buffer_bytes s1)) = ?un"
        using s(4,5) by (simp add: drop_take)
      ultimately have "drop (in_begin s1) (take (in_end s1) (buffer_bytes s1) @ data @ x) = ?un @ data @ x"
        using s(1) by (simp only: drop_append) simp
      then show ?thesis using un by simp
    qed
    have "src inb = ?un @ data" unfolding r InBuffer.select_convs by (rule t)
    moreover have "pending self' = ?un @ data"
    proof -
      have "in_end self' - in_begin self' = ?u + length data" "in_begin self' = in_begin s1"
        "buffer_bytes self' = take (in_end s1) (buffer_bytes s1) @ data @ drop (in_end s1 + length data) (buffer_bytes s1)"
        using s(1,4) by (simp_all add: r buffer_bytes_def)
      then show ?thesis unfolding pending_def by (simp only: t)
    qed
    moreover have "input_inv self'" using s by (simp add: input_inv_def r buffer_bytes_def)
    moreover have "?un \<noteq> []"
    proof -
      have "?u \<noteq> 0" using both(1) inv(1) by simp
      then have "length ?un \<noteq> 0" using un by argo
      then show ?thesis unfolding length_0_conv .
    qed
    moreover have "pending self = ?un" by (simp add: pending_def)
    moreover have "other_fields self' = other_fields self" "needs_input self' = needs_input self"
      using s(6,7) by (simp_all add: r(2) other_fields_def)
    moreover have "tin_ok inb" "in_pos inb = 0"
    proof -
      have "length (src inb) = ?u + length data" using calculation(1) un by (simp only: length_append)
      moreover have "in_size inb = ?u + length data" "in_pos inb = 0"
        unfolding r(3) InBuffer.select_convs by (rule refl)+
      ultimately show "tin_ok inb" "in_pos inb = 0" unfolding tin_ok_def by presburger+
    qed
    ultimately show ?thesis using r(1) by argo
  qed
qed

lemma keep_input_spec:
  assumes "input_inv self" "malloc_ok malloc" "tin_ok inb"
    and "use \<Longrightarrow> pending self = src inb" "\<not> use \<Longrightarrow> pending self = []"
    and "keep_input malloc use inb self = Some self'"
  shows "input_inv self' \<and> pending self' = avail inb \<and>
    other_fields self' = other_fields self \<and>
    (needs_input self' \<longleftrightarrow> needs_input self \<and> avail inb = [])"
proof -
  have tin: "in_pos inb \<le> in_size inb" "in_size inb = length (src inb)" using assms(3) by (simp_all add: tin_ok_def)
  have av: "avail inb = drop (in_pos inb) (src inb)" using tin by (simp add: avail_def)
  have inv: "in_begin self \<le> in_end self" "in_end self \<le> length (buffer_bytes self)"
    "input_buffer_size self = length (buffer_bytes self)" using assms(1) by (simp_all add: input_inv_def)
  note K = assms(6) [unfolded keep_input_def Let_def]
  show ?thesis
  proof (cases "in_pos inb = in_size inb")
    case True
    then show ?thesis using K inv assms(1,4,5) av tin
      by (cases use) (auto simp: input_inv_def pending_def buffer_bytes_def other_fields_def)
  next
    case False
    then have ne: "avail inb \<noteq> []" using av tin by auto
    show ?thesis
    proof (cases use)
      case True
      then have len: "in_end self - in_begin self = in_size inb" using assms(4) length_pending [OF assms(1)] tin by simp
      have self': "self' = self\<lparr>needs_input := False, in_begin := in_begin self + in_pos inb\<rparr>"
        using K False True by simp
      have "pending self' = drop (in_pos inb) (pending self)"
        by (simp add: self' pending_def buffer_bytes_def drop_take add.commute)
      moreover have "input_inv self'" using inv tin len by (simp add: self' input_inv_def buffer_bytes_def)
      ultimately show ?thesis using assms(4) True av ne by (simp add: self' other_fields_def)
    next
      case nouse: False
      let ?d = "in_size inb - in_pos inb"
      define s1 where "s1 = (if input_buffer (self\<lparr>needs_input := False\<rparr>) \<noteq> None \<and>
            input_buffer_size (self\<lparr>needs_input := False\<rparr>) < ?d
          then self\<lparr>needs_input := False, input_buffer := None, input_buffer_size := 0\<rparr>
          else self\<lparr>needs_input := False\<rparr>)"
      obtain s2 where s2: "(case input_buffer s1 of
             None \<Rightarrow> Option.bind (malloc ?d) (\<lambda>b. Some (s1\<lparr>input_buffer := Some b, input_buffer_size := ?d\<rparr>))
           | Some b \<Rightarrow> Some s1) = Some s2"
        and self': "self' = s2\<lparr>input_buffer := Some (take ?d (drop (in_pos inb) (src inb)) @ drop ?d (buffer_bytes s2)),
             in_begin := 0, in_end := ?d\<rparr>"
      proof -
        have "Option.bind (case input_buffer s1 of
             None \<Rightarrow> Option.bind (malloc ?d) (\<lambda>b. Some (s1\<lparr>input_buffer := Some b, input_buffer_size := ?d\<rparr>))
           | Some b \<Rightarrow> Some s1)
          (\<lambda>self. Some (self\<lparr>input_buffer := Some (take ?d (drop (in_pos inb) (src inb)) @ drop ?d (buffer_bytes self)),
             in_begin := 0, in_end := ?d\<rparr>)) = Some self'"
          using K False nouse unfolding s1_def [symmetric] by (simp only: if_False)
        then show thesis using that by (auto split: Option.bind_splits simp del: option.case_eq_if)
      qed
      have b: "input_buffer_size s2 = length (buffer_bytes s2)" "?d \<le> length (buffer_bytes s2)"
        "\<not> needs_input s2" "other_fields s2 = other_fields self"
        using s2 inv assms(2) unfolding s1_def
        by (auto simp: buffer_bytes_def malloc_ok_def other_fields_def split: if_splits option.splits bind_splits)
      have tk: "take ?d (drop (in_pos inb) (src inb)) = avail inb" using tin av by simp
      have "length (avail inb) = ?d" using length_avail [OF assms(3)] .
      then have "input_inv self' \<and> pending self' = avail inb"
        using b tk by (simp add: self' input_inv_def pending_def buffer_bytes_def)
      then show ?thesis using b(3,4) ne by (simp add: self' other_fields_def)
    qed
  qed
qed

section \<open>\<open>decode\<close>\<close>

text \<open>The loop of calls of \<^verbatim>\<open>T_decode\<close>; the result is that of the last one, \<open>None\<close> for a failed
  \<^verbatim>\<open>OutputBuffer_Grow\<close>.\<close>

partial_function (option) decode_loop ::
    "pyapi \<Rightarrow> 's symbol_decoder \<Rightarrow> int \<Rightarrow> worker \<Rightarrow> 's ppmd_info \<Rightarrow> (int option \<times> worker \<times> 's ppmd_info) option" where
  "decode_loop api dec remains w s =
     do { (result, w, s) \<leftarrow> T_decode dec remains w s;
          if result < 0 then Some (Some result, w, s)
          else let remains = remains - result in
            if result = 0 \<or> remains = 0 then Some (Some result, w, s)
            else if out_size (snd (tout s)) = out_pos (snd (tout s))
            then case OutputBuffer_Grow api (tout s) of
                   Inl AssertFails \<Rightarrow> None
                 | Inl NoMemory \<Rightarrow> Some (None, w, s)
                 | Inr x \<Rightarrow> decode_loop api dec remains w (s\<lparr>tout := x\<rparr>)
            else decode_loop api dec remains w s }"

definition INT_MAX :: int where "INT_MAX = 2 ^ 31 - 1"

text \<open>The label \<^verbatim>\<open>error\<close>.\<close>

definition decode_error :: "'s decoder \<Rightarrow> 's decoder" where
  "decode_error self = self\<lparr>eof := True, needs_input := False, in_begin := 0, in_end := 0\<rparr>"

text \<open>\<^verbatim>\<open>RangeDec_Init\<close> on the input buffer, in the calling thread.  Where it would want more than there is,
  it waits for itself.\<close>

definition start_decoder ::
    "('s \<Rightarrow> Byte list \<Rightarrow> bool \<times> 's \<times> Byte list) \<Rightarrow> 's ppmd_info \<Rightarrow> (bool \<times> 's ppmd_info) option" where
  "start_decoder start s =
     (let (ok, st, l) = start (cPpmd s) (avail (tin s) @ [0]) in
      if l = [] then None
      else Some (ok, s\<lparr>cPpmd := st, tin := (tin s)\<lparr>in_pos := in_pos (tin s) + (length (avail (tin s)) - (length l - 1))\<rparr>\<rparr>))"

text \<open>What the two decoders share, first the part behind the loop.  \<open>finished\<close> is the test that sets
  \<^verbatim>\<open>eof\<close> after the output is put together, \<open>set_needs\<close> says whether \<^verbatim>\<open>needs_input\<close> is set anew
  when the input is used up (\<open>Ppmd7\<close> only).\<close>

definition decode_finish ::
    "pyapi \<Rightarrow> (nat \<Rightarrow> Byte list option) \<Rightarrow> (worker \<Rightarrow> 's ppmd_info \<Rightarrow> bool) \<Rightarrow> bool \<Rightarrow> bool \<Rightarrow> 's decoder \<Rightarrow>
     int option \<Rightarrow> worker \<Rightarrow> 's ppmd_info \<Rightarrow> 's decoder \<times> (py_error + Byte list)" where
  "decode_finish api malloc finished set_needs use_input_buffer self result w s =
     (let self = self\<lparr>core := Live (w, s)\<rparr> in
      case result of
        None \<Rightarrow> (decode_error self, Inl ValueError)
      | Some result \<Rightarrow>
          let self = (if result = 0 then self\<lparr>needs_input := True\<rparr> else self);
              self = (if result = PPMD_RESULT_EOF then self\<lparr>eof := True, needs_input := False\<rparr> else self) in
          if result = PPMD_RESULT_ERROR then (decode_error self, Inl ValueError)
          else
            let ret = finish_result api (tout s);
                self = (if finished w s then self\<lparr>eof := True\<rparr> else self);
                self = (if set_needs \<and> in_pos (tin s) = in_size (tin s)
                        then self\<lparr>needs_input := \<not> eof self\<rparr> else self)
            in case keep_input malloc use_input_buffer (tin s) self of
                 None \<Rightarrow> (decode_error (self\<lparr>input_buffer := None, input_buffer_size := 0\<rparr>), Inl MemoryError)
               | Some self \<Rightarrow> (self, ret))"

definition decoder_decode ::
    "pyapi \<Rightarrow> (nat \<Rightarrow> Byte list option) \<Rightarrow> 's symbol_decoder \<Rightarrow> ('s \<Rightarrow> Byte list \<Rightarrow> bool \<times> 's \<times> Byte list) \<Rightarrow>
     (worker \<Rightarrow> 's ppmd_info \<Rightarrow> bool) \<Rightarrow> bool \<Rightarrow> 's decoder \<Rightarrow> Byte list \<Rightarrow> int \<Rightarrow>
     ('s decoder \<times> (py_error + Byte list)) option" where
  "decoder_decode api malloc dec start finished set_needs self data len =
     (if \<not> dinited2 self \<and> length data < 5 then Some (self, Inl ValueError)
      else case core self of
        Live (w, s) \<Rightarrow>
          (case prepare_input malloc self data of
             None \<Rightarrow> Some (self, Inl MemoryError)
           | Some (use_input_buffer, inb, self) \<Rightarrow>
               let s = s\<lparr>tin := inb\<rparr> in
               (case OutputBuffer_InitAndGrow api len of
                  Inl e \<Rightarrow> Some (self\<lparr>core := Live (w, s)\<rparr>, Inl ValueError)
                | Inr x \<Rightarrow>
                    let s = s\<lparr>tout := x\<rparr> in
                    do { (ok, s) \<leftarrow> (if dinited2 self then Some (True, s)
                                       else if use_input_buffer then None else start_decoder start s);
                         if \<not> ok then Some (self\<lparr>core := Live (w, s)\<rparr>, Inl NoException)
                         else do {
                           let self = self\<lparr>dinited2 := True\<rparr>;
                           (result, w, s) \<leftarrow> decode_loop api dec (if 0 \<le> len then len else INT_MAX) w s;
                           Some (decode_finish api malloc finished set_needs use_input_buffer self result w s) } }))
      | _ \<Rightarrow> None)"

text \<open>\<^verbatim>\<open>Ppmd7z_RangeDec_IsFinishedOK\<close> at the end of \<open>Ppmd7Decoder.decode\<close>.  When the worker waits in the middle of a
  symbol, the range decoder is caught between two of its steps; what its Code is then is
  an argument (\<open>mid\<close>).\<close>

definition finished7 :: "(dstate7 \<Rightarrow> Byte list \<Rightarrow> bool) \<Rightarrow> worker \<Rightarrow> dstate7 ppmd_info \<Rightarrow> bool" where
  "finished7 mid w s = (case w of
     Waiting i m got \<Rightarrow> mid (cPpmd s) got
   | _ \<Rightarrow> Ppmd7z_RangeDec_IsFinishedOK (snd (cPpmd s)))"

definition Ppmd7Decoder_decode ::
    "pyapi \<Rightarrow> (nat \<Rightarrow> Byte list option) \<Rightarrow> (dstate7 \<Rightarrow> Byte list \<Rightarrow> bool) \<Rightarrow> dstate7 decoder \<Rightarrow> Byte list \<Rightarrow> int \<Rightarrow>
     (dstate7 decoder \<times> (py_error + Byte list)) option" where
  "Ppmd7Decoder_decode api malloc mid = decoder_decode api malloc decode7 start7 (finished7 mid) True"

definition Ppmd8Decoder_decode ::
    "pyapi \<Rightarrow> (nat \<Rightarrow> Byte list option) \<Rightarrow> dstate8 decoder \<Rightarrow> Byte list \<Rightarrow> int option \<Rightarrow>
     (dstate8 decoder \<times> (py_error + Byte list)) option" where
  "Ppmd8Decoder_decode api malloc self data len =
     decoder_decode api malloc decode8 start8 (\<lambda>w s. False) False self data (case len of None \<Rightarrow> - 1 | Some n \<Rightarrow> n)"

text \<open>The attribute \<open>unused_data\<close>, which is computed once.\<close>

definition unused_data_get :: "pyapi \<Rightarrow> 's decoder \<Rightarrow> 's decoder \<times> Byte list option" where
  "unused_data_get api self =
     (if \<not> eof self then (self, Some [])
      else case unused_data self of
        Some b \<Rightarrow> (self, Some b)
      | None \<Rightarrow> (let r = map_option (\<lambda>_. pending self) (new_bytes api (in_end self - in_begin self))
                 in (self\<lparr>unused_data := r\<rparr>, r)))"

text \<open>\<^verbatim>\<open>dealloc\<close>: a pointer that is not NULL is followed; \<^verbatim>\<open>T_Free\<close> returns when the worker has ended or
  its cancellation comes \<open>in_time\<close> (see \<open>free_races_with_worker\<close>).\<close>

definition decoder_dealloc :: "bool \<Rightarrow> 's decoder \<Rightarrow> unit option" where
  "decoder_dealloc in_time self =
     (case core self of
        Null \<Rightarrow> Some ()
      | Dangling \<Rightarrow> None
      | Live (w, s) \<Rightarrow> if tfinished s \<or> in_time then Some () else None)"

end
