(* ===== verification/Decoder_Run.thy ===== *)
theory Decoder_Run
  imports Decoder_Object
begin

text \<open>
  What a call of \<^verbatim>\<open>decode\<close> decodes.  The locale \<open>stream_decoder\<close> is the contract the thread and the
  decoder objects rely on: a symbol decoder takes its input from the front, and what it does does
  not depend on what it leaves.  Both decoders interpret it (by the laws of \<open>Decoder_Stream\<close>).
  In it, \<open>dec_run\<close> is the reference: symbol after symbol from one list of bytes.
\<close>

section \<open>The contract\<close>

primrec dec_run :: "'s symbol_decoder \<Rightarrow> nat \<Rightarrow> 's \<Rightarrow> Byte list \<Rightarrow> (int list \<times> 's \<times> Byte list) option" where
  "dec_run dec 0 st bs = Some ([], st, bs)"
| "dec_run dec (Suc n) st bs =
     do { (c, st, bs) \<leftarrow> dec st bs; (cs, st, bs) \<leftarrow> dec_run dec n st bs; Some (c # cs, st, bs) }"

lemma dec_run_add:
  "dec_run dec (k + n) st bs =
     do { (cs, st, bs) \<leftarrow> dec_run dec k st bs; (cs', st, bs) \<leftarrow> dec_run dec n st bs; Some (cs @ cs', st, bs) }"
  by (induction k arbitrary: st bs) (auto split: bind_splits)

lemma dec_run_length: "dec_run dec n st bs = Some (cs, st', l) \<Longrightarrow> length cs = n"
  by (induction n arbitrary: st bs cs) (auto split: bind_splits)

text \<open>The input is left where the reference leaves it.\<close>

lemma avail_tail:
  assumes "tin_ok inb" "suffix l (avail inb @ [0])" "l \<noteq> []"
  defines "inb' \<equiv> inb\<lparr>in_pos := in_pos inb + (length (avail inb) - (length l - 1))\<rparr>"
  shows "avail inb' @ [0] = l" "tin_ok inb'" "src inb' = src inb" "in_size inb' = in_size inb"
proof -
  have len: "length (avail inb) = in_size inb - in_pos inb" by (rule length_avail [OF assms(1)])
  obtain u where u: "avail inb @ [0] = u @ l" using assms(2) by (auto simp: suffix_def)
  obtain l1 where l: "l = l1 @ [0]" using u assms(3) by (metis append_is_Nil_conv butlast_snoc last_appendR last_snoc append_butlast_last_id)
  then have a: "avail inb = u @ l1" using u by simp
  then have k: "length (avail inb) - (length l - 1) = length u" by (simp add: l)
  have b: "inb' = inb\<lparr>in_pos := in_pos inb + length u\<rparr>" by (simp only: inb'_def k)
  have "drop (length u) (avail inb) = l1" by (simp add: a)
  then have "avail inb' = l1" by (simp add: avail_def b add.commute)
  then show "avail inb' @ [0] = l" by (simp add: l)
  have "length u \<le> in_size inb - in_pos inb" using len a by simp
  then show "tin_ok inb'" using assms(1) by (auto simp: tin_ok_def b)
  show "src inb' = src inb" "in_size inb' = in_size inb" by (simp_all add: b)
qed

text \<open>The output buffer has room for \<open>n\<close> more bytes, growing.\<close>

definition roomy :: "nat \<Rightarrow> obuf \<Rightarrow> bool" where
  "roomy n x \<longleftrightarrow> ob_inv x \<and> allocated (fst x) + (int n + 1) * 2 ^ 28 \<le> 2 ^ 62 \<and>
     (0 \<le> max_length (fst x) \<longrightarrow> int n \<le> max_length (fst x) - allocated (fst x) + int (ob_free x))"

lemma roomy_grow:
  assumes api: "ample api" and n: "roomy n x" "ob_free x \<le> n" "0 < ob_free x" "max_length (fst x) < 0 \<or> ob_free x < n"
    and x1: "ob_inv x1" "ob_free x1 = 0" "max_length (fst x1) = max_length (fst x)" "allocated (fst x1) = allocated (fst x)"
  obtains y where "OutputBuffer_Grow api x1 = Inr y" "roomy (n - ob_free x) y" "0 < ob_free y"
    "ob_data y = ob_data x1" "max_length (fst y) = max_length (fst x)"
proof -
  let ?k = "ob_free x"
  have nk: "int (n - ?k) = int n - int ?k" using n(2) by simp
  have k: "1 \<le> int ?k" using n(3) by simp
  have al: "allocated (fst x) + (int n + 1) * 2 ^ 28 \<le> 2 ^ 62"
    and rest: "0 \<le> max_length (fst x) \<longrightarrow> int n \<le> max_length (fst x) - allocated (fst x) + int ?k"
    using n(1) by (simp_all add: roomy_def)
  have room: "0 \<le> max_length (fst x1) \<Longrightarrow> allocated (fst x1) < max_length (fst x1)"
    using rest n(4) x1(3,4) by auto
  have "0 \<le> (int n + 1) * 2 ^ 28" by simp
  then have "allocated (fst x1) \<le> 2 ^ 62" using al x1(4) by linarith
  then obtain y where y: "OutputBuffer_Grow api x1 = Inr y"
    using Grow_total [of api x1] api x1(1,2) room unfolding ample_def by blast
  define f where "f = int (ob_free y)"
  have G: "ob_inv y" "ob_data y = ob_data x1" "max_length (fst y) = max_length (fst x)" "0 < ob_free y"
    and f: "f = (let n = next_block (length (blocks (fst x1))); rest = max_length (fst x1) - allocated (fst x1)
                 in if 0 \<le> max_length (fst x1) then min n rest else n)"
    using Grow_spec [OF _ x1(1) y] api x1(3) by (simp_all add: ample_def f_def)
  have "f \<le> 2 ^ 28"
    using next_block_bounds(2) [of "length (blocks (fst x1))"] by (auto simp: f Let_def MB_def min_def)
  have "int (length (ob_data y)) + f = allocated (fst y)" "int (length (ob_data x1)) + 0 = allocated (fst x1)"
    using ob_data_length [OF G(1)] ob_data_length [OF x1(1)] x1(2) by (simp_all add: f_def)
  then have ay: "allocated (fst y) = allocated (fst x) + f" using G(2) x1(4) by simp
  have "allocated (fst y) + (int (n - ?k) + 1) * 2 ^ 28 \<le> 2 ^ 62"
  proof -
    have "(int (n - ?k) + 2) * 2 ^ 28 \<le> (int n + 1) * 2 ^ 28"
      using nk k by (intro mult_right_mono) simp_all
    then show ?thesis using ay al \<open>f \<le> 2 ^ 28\<close> by simp
  qed
  moreover have "int (n - ?k) \<le> max_length (fst y) - allocated (fst y) + f" if "0 \<le> max_length (fst y)"
    using that rest nk G(3) ay by simp
  ultimately have "roomy (n - ?k) y" using G(1) by (simp add: roomy_def f_def)
  then show thesis using that y G by blast
qed

text \<open>A worker runs to its limit or to the end of the block, whichever comes first.\<close>

definition run_to :: "'s ppmd_info \<Rightarrow> int list \<Rightarrow> 's \<Rightarrow> Byte list \<Rightarrow> 's ppmd_info \<Rightarrow> bool" where
  "run_to s cs st l s' \<longleftrightarrow> cPpmd s' = st \<and> tout s' = write_bytes (map word_of_int cs) (tout s) \<and>
     avail (tin s') @ [0] = l \<and> tin_ok (tin s') \<and> src (tin s') = src (tin s) \<and> in_size (tin s') = in_size (tin s) \<and>
     tempty s' = tempty s"

definition decoded :: "'s ppmd_info \<Rightarrow> int list \<Rightarrow> 's \<Rightarrow> Byte list \<Rightarrow> 's ppmd_info \<Rightarrow> bool" where
  "decoded s cs st l s' \<longleftrightarrow> cPpmd s' = st \<and> ob_inv (tout s') \<and>
     ob_data (tout s') = ob_data (tout s) @ map word_of_int cs \<and>
     avail (tin s') @ [0] = l \<and> tin_ok (tin s') \<and> src (tin s') = src (tin s) \<and> in_size (tin s') = in_size (tin s) \<and>
     tfinished s'"

locale stream_decoder =
  fixes dec :: "'s symbol_decoder"
  assumes dec_suffix: "dec st bs = Some (c, st', l) \<Longrightarrow> suffix l bs"
    and dec_local: "dec st (u @ l) = Some (c, st', l) \<Longrightarrow> l \<noteq> [] \<Longrightarrow> dec st (u @ l') = Some (c, st', l')"
begin

lemma dec_run_suffix: "dec_run dec n st bs = Some (cs, st', l) \<Longrightarrow> suffix l bs"
proof (induction n arbitrary: st bs cs)
  case (Suc n)
  then obtain c st1 bs1 cs1 where 1: "dec st bs = Some (c, st1, bs1)"
    and 2: "dec_run dec n st1 bs1 = Some (cs1, st', l)" by (auto split: bind_splits)
  from dec_suffix [OF 1] Suc.IH [OF 2] show ?case by (rule suffix_order.trans [rotated])
qed simp

lemma work_step_ahead:
  assumes "ahead dec s got = Some (c, st, l)" "suffix l (avail (tin s) @ [0])" "l \<noteq> []" "0 \<le> c"
    and "tin_ok (tin s)" "ob_inv (tout s)" "\<not> out_full (tout s)"
  obtains s1 where "work dec m i got s = loop dec m (i + 1) s1" "run_to s [c] st l s1" "tfinished s1 = tfinished s"
proof -
  let ?inb = "(tin s)\<lparr>in_pos := in_pos (tin s) + (length (avail (tin s)) - (length l - 1))\<rparr>"
  let ?s1 = "s\<lparr>cPpmd := st, tin := ?inb, tout := Writer (tout s) (word_of_int c)\<rparr>"
  have c: "c \<noteq> PPMD_RESULT_EOF" "c \<noteq> PPMD_RESULT_ERROR"
    using assms(4) by (auto simp: PPMD_RESULT_EOF_def PPMD_RESULT_ERROR_def)
  have free: "ob_free (tout s) \<noteq> 0" using assms(6,7) out_full_free by blast
  then have "store_byte (tout s) (word_of_int c) = Some (Writer (tout s) (word_of_int c))"
    using assms(6) by (cases "tout s") (auto simp: store_byte_def Writer_def ob_free_def)
  then have "work dec m i got s = loop dec m (i + 1) ?s1"
    using assms(1,3) c by (subst work.simps) (simp add: Let_def loop_def)
  moreover have "run_to s [c] st l ?s1"
    using avail_tail [OF assms(5,2,3)] by (simp add: run_to_def write_bytes_def)
  ultimately show thesis by (rule that) simp
qed

lemma work_step:
  assumes "dec (cPpmd s) (avail (tin s) @ [0]) = Some (c, st, l)" "l \<noteq> []" "0 \<le> c"
    and "tin_ok (tin s)" "ob_inv (tout s)" "\<not> out_full (tout s)"
  obtains s1 where "work dec m i [] s = loop dec m (i + 1) s1" "run_to s [c] st l s1" "tfinished s1 = tfinished s"
  using work_step_ahead [of s "[]" c st l m i] dec_suffix [OF assms(1)] assms by (auto simp: ahead_def)

lemma run_to_trans:
  assumes "run_to s cs st l s1" "run_to s1 cs' st' l' s2"
  shows "run_to s (cs @ cs') st' l' s2"
  using assms by (simp add: run_to_def write_bytes_def)

lemma loop_run:
  assumes "dec_run dec k (cPpmd s) (avail (tin s) @ [0]) = Some (cs, st, l)" "l \<noteq> []" "\<And>c. c \<in> set cs \<Longrightarrow> 0 \<le> c"
    and "tin_ok (tin s)" "ob_inv (tout s)" "k \<le> nat (m - i)" "k \<le> ob_free (tout s)"
  shows "\<exists>s1. loop dec m i s = loop dec m (i + int k) s1 \<and> run_to s cs st l s1 \<and> tfinished s1 = tfinished s"
  using assms
proof (induction k arbitrary: s cs i)
  case 0
  then show ?case by (intro exI [of _ s]) (simp add: run_to_def write_bytes_def)
next
  case (Suc k)
  then obtain c st1 l1 cs1 where 1: "dec (cPpmd s) (avail (tin s) @ [0]) = Some (c, st1, l1)"
    and 2: "dec_run dec k st1 l1 = Some (cs1, st, l)" and cs: "cs = c # cs1" by (auto split: bind_splits)
  have l1: "l1 \<noteq> []" using dec_run_suffix [OF 2] Suc.prems(2) by auto
  have nf: "\<not> out_full (tout s)" using Suc.prems(5,7) out_full_free by auto
  have im: "i < m" using Suc.prems(6) by simp
  obtain s1 where s1: "work dec m i [] s = loop dec m (i + 1) s1" "run_to s [c] st1 l1 s1" "tfinished s1 = tfinished s"
    using work_step [OF 1 l1 _ Suc.prems(4,5) nf] Suc.prems(3) cs by auto
  have w: "tout s1 = Writer (tout s) (word_of_int c)" using s1(2) by (simp add: run_to_def write_bytes_def)
  have "ob_inv (tout s1)" "k \<le> ob_free (tout s1)"
    using Writer_spec [OF Suc.prems(5), of "word_of_int c"] Suc.prems(7) by (auto simp: w)
  moreover have "dec_run dec k (cPpmd s1) (avail (tin s1) @ [0]) = Some (cs1, st, l)" "tin_ok (tin s1)"
    using s1(2) 2 by (simp_all add: run_to_def)
  moreover have "k \<le> nat (m - (i + 1))" using Suc.prems(6) by simp
  moreover have "0 \<le> c'" if "c' \<in> set cs1" for c' using that Suc.prems(3) cs by simp
  ultimately obtain s2 where s2: "loop dec m (i + 1) s1 = loop dec m (i + 1 + int k) s2" "run_to s1 cs1 st l s2"
      "tfinished s2 = tfinished s1"
    using Suc.IH [of s1 cs1 "i + 1"] Suc.prems(2) by blast
  have e: "i + int (Suc k) = i + 1 + int k" by simp
  have "loop dec m i s = loop dec m (i + int (Suc k)) s2"
    unfolding e s2(1) [symmetric] s1(1) [symmetric] using im nf by (simp add: loop_def)
  then show ?case using run_to_trans [OF s1(2) s2(2)] s1(3) s2(3) cs by auto
qed

text \<open>A call of \<open>T_decode\<close> that starts a worker, while there is input: up to \<open>k\<close> symbols.\<close>

lemma T_decode_segment:
  assumes "dec_run dec k (cPpmd s) (avail (tin s) @ [0]) = Some (cs, st, l)" "l \<noteq> []" "\<And>c. c \<in> set cs \<Longrightarrow> 0 \<le> c"
    and "tin_ok (tin s)" "ob_inv (tout s)" "int k \<le> m" "k \<le> ob_free (tout s)" "tfinished s"
  obtains s1 where "T_decode dec m w s = leave (loop dec m (int k) s1)" "run_to s cs st l s1"
proof -
  let ?s = "s\<lparr>tmax := m, tresult := 0, tfinished := False\<rparr>"
  have "k \<le> nat (m - 0)" using assms(6) by simp
  then obtain s1 where "loop dec m 0 ?s = loop dec m (0 + int k) s1" "run_to ?s cs st l s1"
    using loop_run [of k ?s cs st l m 0] assms(1-5,7) by auto
  then show thesis using that [of s1] assms(8) by (simp add: T_decode_def run_to_def)
qed

lemma run_to_out:
  assumes "run_to s cs st l s1" "ob_inv (tout s)" "length cs \<le> ob_free (tout s)"
  shows "ob_inv (tout s1)" "ob_data (tout s1) = ob_data (tout s) @ map word_of_int cs"
    "ob_free (tout s1) = ob_free (tout s) - length cs"
    "max_length (fst (tout s1)) = max_length (fst (tout s))" "allocated (fst (tout s1)) = allocated (fst (tout s))"
  using write_bytes_spec [OF assms(2), of "map word_of_int cs"] assms(1,3) by (simp_all add: run_to_def)

text \<open>A call of \<open>decode\<close> for exactly the symbols there are.\<close>

lemma decode_loop_exact:
  assumes "ample api"
    and "dec_run dec n (cPpmd s) (avail (tin s) @ [0]) = Some (cs, st, l)" "l \<noteq> []" "\<And>c. c \<in> set cs \<Longrightarrow> 0 \<le> c"
    and "tin_ok (tin s)" "roomy n (tout s)" "0 < n" "0 < ob_free (tout s)" "tfinished s"
  shows "\<exists>r s'. decode_loop api dec (int n) w s = Some (Some r, NoThread, s') \<and> 0 < r \<and> decoded s cs st l s'"
  using assms(2-)
proof (induction n arbitrary: s cs w rule: less_induct)
  case (less n)
  define k where "k = min n (ob_free (tout s))"
  have k: "k \<le> n" "k \<le> ob_free (tout s)" "0 < k" "n = k + (n - k)" using less.prems by (auto simp: k_def)
  have inv: "ob_inv (tout s)" using less.prems(5) by (simp add: roomy_def)
  obtain cs1 st1 l1 cs2 where 1: "dec_run dec k (cPpmd s) (avail (tin s) @ [0]) = Some (cs1, st1, l1)"
    and 2: "dec_run dec (n - k) st1 l1 = Some (cs2, st, l)" and cs: "cs = cs1 @ cs2"
    using less.prems(1) by (subst (asm) k(4), unfold dec_run_add) (auto split: bind_splits)
  have l1: "l1 \<noteq> []" using dec_run_suffix [OF 2] less.prems(2) by auto
  have pos: "0 \<le> c" if "c \<in> set cs1" for c using that less.prems(3) cs by simp
  have len: "length cs1 = k" by (rule dec_run_length [OF 1])
  have "int k \<le> int n" using k(1) by simp
  from T_decode_segment [OF 1 l1 pos less.prems(4) inv this k(2) less.prems(8)]
  obtain s1 where T: "T_decode dec (int n) w s = leave (loop dec (int n) (int k) s1)" and R: "run_to s cs1 st1 l1 s1" .
  note O = run_to_out [OF R inv, unfolded len, OF k(2)]
  have D: "decoded s cs1 st1 l1 (s1\<lparr>tresult := int k, tfinished := True\<rparr>)"
    using R O by (simp add: decoded_def run_to_def)
  show ?case
  proof (cases "k = n")
    case True
    then have "T_decode dec (int n) w s = Some (int k, NoThread, s1\<lparr>tresult := int k, tfinished := True\<rparr>)"
      using T by (simp add: loop_def ends_def leave_def)
    moreover have "cs = cs1" "st = st1" "l = l1" using 2 cs True by simp_all
    ultimately show ?thesis using True k(3) D by (subst decode_loop.simps) auto
  next
    case False
    let ?s1 = "s1\<lparr>tresult := int k, tfinished := True\<rparr>"
    have kf: "k = ob_free (tout s)" "k < n" using False by (auto simp: k_def min_def split: if_splits)
    then have fr: "ob_free (tout s1) = 0" using O(3) by simp
    then have full: "out_full (tout s1)" using out_full_free [OF O(1)] by simp
    then have Tk: "T_decode dec (int n) w s = Some (int k, NoThread, ?s1)"
      using T by (simp add: loop_def ends_def leave_def)
    have h: "k \<le> n" "0 < k" "max_length (fst (tout s)) < 0 \<or> k < n" using kf k by auto
    obtain y where y: "OutputBuffer_Grow api (tout s1) = Inr y" "roomy (n - k) y" "0 < ob_free y"
        "ob_data y = ob_data (tout s1)"
      using roomy_grow [OF assms(1) less.prems(5) h [unfolded kf(1)] O(1) fr O(4,5), folded kf(1)] by blast
    let ?s2 = "?s1\<lparr>tout := y\<rparr>"
    have "\<exists>r s'. decode_loop api dec (int (n - k)) NoThread ?s2 = Some (Some r, NoThread, s') \<and> 0 < r \<and> decoded ?s2 cs2 st l s'"
      using less.IH [of "n - k" ?s2 cs2 NoThread] 2 less.prems(2,3) D y(2,3) kf k(3) cs
      by (simp add: decoded_def)
    then obtain r s' where r: "decode_loop api dec (int (n - k)) NoThread ?s2 = Some (Some r, NoThread, s')" "0 < r"
      "decoded ?s2 cs2 st l s'" by blast
    have "decoded s cs st l s'" using r(3) D y(4) cs by (simp add: decoded_def)
    moreover have "decode_loop api dec (int n) w s = decode_loop api dec (int (n - k)) NoThread ?s2"
      using Tk full y(1) kf k(3) by (subst decode_loop.simps) (simp add: out_full_def of_nat_diff)
    ultimately show ?thesis using r by auto
  qed
qed

text \<open>A call of \<open>decode\<close> without a length, for symbols that end with the end mark.\<close>

lemma decode_loop_eof:
  assumes "ample api"
    and "dec_run dec n (cPpmd s) (avail (tin s) @ [0]) = Some (cs, st, l)" "\<And>c. c \<in> set cs \<Longrightarrow> 0 \<le> c"
    and "dec st l = Some (- 1, st', l')" "l' \<noteq> []" "int n < m"
    and "tin_ok (tin s)" "roomy n (tout s)" "max_length (fst (tout s)) < 0" "0 < ob_free (tout s)" "tfinished s"
  shows "\<exists>s'. decode_loop api dec m w s = Some (Some (- 1), NoThread, s') \<and> decoded s cs st' l' s'"
  using assms(2-)
proof (induction n arbitrary: s cs w m rule: less_induct)
  case (less n)
  define k where "k = min n (ob_free (tout s))"
  have k: "k \<le> n" "k \<le> ob_free (tout s)" "n = k + (n - k)" by (auto simp: k_def)
  have inv: "ob_inv (tout s)" using less.prems(7) by (simp add: roomy_def)
  obtain cs1 st1 l1 cs2 where 1: "dec_run dec k (cPpmd s) (avail (tin s) @ [0]) = Some (cs1, st1, l1)"
    and 2: "dec_run dec (n - k) st1 l1 = Some (cs2, st, l)" and cs: "cs = cs1 @ cs2"
    using less.prems(1) by (subst (asm) k(3), unfold dec_run_add) (auto split: bind_splits)
  have l: "l \<noteq> []" using dec_suffix [OF less.prems(3)] less.prems(4) by auto
  then have l1: "l1 \<noteq> []" using dec_run_suffix [OF 2] by auto
  have pos: "0 \<le> c" if "c \<in> set cs1" for c using that less.prems(2) cs by simp
  have len: "length cs1 = k" by (rule dec_run_length [OF 1])
  have "int k \<le> m" using k(1) less.prems(5) by simp
  from T_decode_segment [OF 1 l1 pos less.prems(6) inv this k(2) less.prems(10)]
  obtain s1 where T: "T_decode dec m w s = leave (loop dec m (int k) s1)" and R: "run_to s cs1 st1 l1 s1" .
  note O = run_to_out [OF R inv, unfolded len, OF k(2)]
  show ?case
  proof (cases "k < ob_free (tout s)")
    case True
    then have "k = n" by (auto simp: k_def)
    then have e: "cs = cs1" "st1 = st" "l1 = l" using 2 cs by simp_all
    have nf: "\<not> out_full (tout s1)" using O(1,3) True out_full_free by auto
    let ?inb = "(tin s1)\<lparr>in_pos := in_pos (tin s1) + (length (avail (tin s1)) - (length l' - 1))\<rparr>"
    let ?s2 = "s1\<lparr>cPpmd := st', tin := ?inb, tresult := - 1, tfinished := True\<rparr>"
    have d: "dec (cPpmd s1) (avail (tin s1) @ [0]) = Some (- 1, st', l')" "tin_ok (tin s1)"
      using R e less.prems(3) by (simp_all add: run_to_def)
    have "loop dec m (int k) s1 = Some (Exited, ?s2)"
      using nf d(1) less.prems(4,5) \<open>k = n\<close>
      by (simp add: loop_def work.simps ahead_def Let_def PPMD_RESULT_EOF_def ends_def)
    then have "T_decode dec m w s = Some (- 1, NoThread, ?s2)" using T by (simp add: leave_def)
    moreover have "decoded s cs st' l' ?s2"
      using R O e avail_tail [OF d(2) dec_suffix [OF d(1)] less.prems(4)] by (simp add: decoded_def run_to_def)
    ultimately show ?thesis by (subst decode_loop.simps) auto
  next
    case False
    let ?s1 = "s1\<lparr>tresult := int k, tfinished := True\<rparr>"
    have kf: "k = ob_free (tout s)" "0 < k" using False k(2) less.prems(9) by auto
    then have fr: "ob_free (tout s1) = 0" using O(3) by simp
    then have full: "out_full (tout s1)" using out_full_free [OF O(1)] by simp
    then have Tk: "T_decode dec m w s = Some (int k, NoThread, ?s1)"
      using T by (simp add: loop_def ends_def leave_def)
    have h: "k \<le> n" "0 < k" "max_length (fst (tout s)) < 0 \<or> k < n" using kf k less.prems(8) by auto
    obtain y where y: "OutputBuffer_Grow api (tout s1) = Inr y" "roomy (n - k) y" "0 < ob_free y"
        "ob_data y = ob_data (tout s1)" "max_length (fst y) = max_length (fst (tout s))"
      using roomy_grow [OF assms(1) less.prems(7) h [unfolded kf(1)] O(1) fr O(4,5), folded kf(1)] by blast
    let ?s2 = "?s1\<lparr>tout := y\<rparr>"
    have D: "decoded s cs1 st1 l1 ?s1" using R O by (simp add: decoded_def run_to_def)
    have "\<exists>s'. decode_loop api dec (m - int k) NoThread ?s2 = Some (Some (- 1), NoThread, s') \<and> decoded ?s2 cs2 st' l' s'"
      using less.IH [of "n - k" ?s2 cs2 "m - int k" NoThread] 2 less.prems(2-5,8) D y(2,3,5) kf k(1) cs
      by (simp add: decoded_def of_nat_diff)
    then obtain s' where r: "decode_loop api dec (m - int k) NoThread ?s2 = Some (Some (- 1), NoThread, s')"
      "decoded ?s2 cs2 st' l' s'" by blast
    have "decoded s cs st' l' s'" using r(2) D y(4) cs by (simp add: decoded_def)
    moreover have "decode_loop api dec m w s = decode_loop api dec (m - int k) NoThread ?s2"
      using Tk full y(1) kf k(1) less.prems(5) by (subst decode_loop.simps) (auto simp: out_full_def)
    ultimately show ?thesis using r by auto
  qed
qed

end

section \<open>The two decoders\<close>

interpretation sd7: stream_decoder decode7
proof
  fix st bs c st' l
  assume "decode7 st bs = Some (c, st', l)"
  then show "suffix l bs"
    by (cases st) (auto simp: decode7_def split: bind_splits dest!: DecodeSymbol7_suffix)
next
  fix st u l c st' l'
  assume d: "decode7 st (u @ l) = Some (c, st', l)" and l: "l \<noteq> []"
  obtain p rc where st: "st = (p, rc)" by (cases st)
  obtain rc' p' where r: "Ppmd7_DecodeSymbol p (rc\<lparr>dStream := u @ l\<rparr>) = Some (c, rc', p')"
    and o: "st' = (p', rc'\<lparr>dStream := []\<rparr>)" "dStream rc' = l"
    using d by (auto simp: decode7_def st split: bind_splits)
  have "Ppmd7_DecodeSymbol p (swap7 (length l) l' (rc\<lparr>dStream := u @ l\<rparr>)) = Some (c, swap7 (length l) l' rc', p')"
    using l o by (intro DecodeSymbol7_swap [OF r]) (simp_all add: left7_def)
  then show "decode7 st (u @ l') = Some (c, st', l')" by (simp add: decode7_def st swap7_def o)
qed

interpretation sd8: stream_decoder decode8
proof
  fix st bs c st' l
  assume "decode8 st bs = Some (c, st', l)"
  then show "suffix l bs"
    by (cases st) (auto simp: decode8_def split: bind_splits dest!: DecodeSymbol8_suffix)
next
  fix st u l c st' l'
  assume d: "decode8 st (u @ l) = Some (c, st', l)" and l: "l \<noteq> []"
  obtain p rc where st: "st = (p, rc)" by (cases st)
  obtain rc' p' where r: "Ppmd8_DecodeSymbol p (rc\<lparr>rcIn := u @ l\<rparr>) = Some (c, rc', p')"
    and o: "st' = (p', rc'\<lparr>rcIn := []\<rparr>)" "rcIn rc' = l"
    using d by (auto simp: decode8_def st split: bind_splits)
  have "Ppmd8_DecodeSymbol p (swap8 (length l) l' (rc\<lparr>rcIn := u @ l\<rparr>)) = Some (c, swap8 (length l) l' rc', p')"
    using l o by (intro DecodeSymbol8_swap [OF r]) (simp_all add: left8_def)
  then show "decode8 st (u @ l') = Some (c, st', l')" by (simp add: decode8_def st swap8_def o)
qed

lemma run_decode7:
  "run_decode Ppmd7_DecodeSymbol n p d = Some (chs, d', p') \<Longrightarrow>
     dec_run decode7 n (p, d\<lparr>dStream := []\<rparr>) (dStream d) = Some (chs, (p', d'\<lparr>dStream := []\<rparr>), dStream d')"
proof (induction n arbitrary: p d chs)
  case (Suc n)
  then obtain ch d1 p1 chs1 where "Ppmd7_DecodeSymbol p d = Some (ch, d1, p1)"
    and 2: "run_decode Ppmd7_DecodeSymbol n p1 d1 = Some (chs1, d', p')" and "chs = ch # chs1"
    by (auto split: bind_splits)
  then show ?case using Suc.IH [OF 2] by (simp add: decode7_def)
qed simp

lemma run_decode8:
  "run_decode Ppmd8_DecodeSymbol n p d = Some (chs, d', p') \<Longrightarrow>
     dec_run decode8 n (p, d\<lparr>rcIn := []\<rparr>) (rcIn d) = Some (chs, (p', d'\<lparr>rcIn := []\<rparr>), rcIn d')"
proof (induction n arbitrary: p d chs)
  case (Suc n)
  then obtain ch d1 p1 chs1 where "Ppmd8_DecodeSymbol p d = Some (ch, d1, p1)"
    and 2: "run_decode Ppmd8_DecodeSymbol n p1 d1 = Some (chs1, d', p')" and "chs = ch # chs1"
    by (auto split: bind_splits)
  then show ?case using Suc.IH [OF 2] by (simp add: decode8_def)
qed simp

end
