(* ===== verification/Encoder_Stream.thy ===== *)
theory Encoder_Stream
  imports Encoder_Object
begin

text \<open>
  The encoders only append to their output stream: a run that starts with the bytes \<open>s\<close> already
  written does the same as one that starts with none and puts \<open>s\<close> before its output.  This is
  what makes a call of the symbol encoder its state change and the bytes it emits, and it lets
  the message theorems of the codecs (one stream) speak of the encoder objects (one output
  buffer per call).
\<close>

section \<open>The 7z coder\<close>

definition pre7 :: "Byte list \<Rightarrow> CPpmd7z_RangeEnc \<Rightarrow> CPpmd7z_RangeEnc" where
  "pre7 s e = e\<lparr>eStream := s @ eStream e\<rparr>"

lemma pre7_sel [simp]:
  "eLow (pre7 s e) = eLow e" "eRange (pre7 s e) = eRange e" "eCache (pre7 s e) = eCache e"
  "eCacheSize (pre7 s e) = eCacheSize e" "eStream (pre7 s e) = s @ eStream e"
  by (simp_all add: pre7_def)

lemma pre7_upd:
  "pre7 s (e\<lparr>eLow := l\<rparr>) = (pre7 s e)\<lparr>eLow := l\<rparr>" "pre7 s (e\<lparr>eRange := r\<rparr>) = (pre7 s e)\<lparr>eRange := r\<rparr>"
  by (simp_all add: pre7_def)

lemma ShiftLow_write_pre: "ShiftLow_write temp carry cs (s @ out) = s @ ShiftLow_write temp carry cs out"
proof (induction temp carry cs out rule: ShiftLow_write.induct)
  case (1 temp carry cs out)
  then show ?case
    by (subst (1 2) ShiftLow_write.simps) (simp add: IByteOut_Write_def Let_def)
qed

lemma ShiftLow_pre: "RangeEnc_ShiftLow (pre7 s e) = pre7 s (RangeEnc_ShiftLow e)"
  by (simp add: RangeEnc_ShiftLow_def Let_def ShiftLow_write_pre pre7_def)

lemmas RangeEnc_loop_induct = RangeEnc_loop.raw_induct [rotated, consumes 1, case_names step]

lemma RangeEnc_loop_pre_Some: "RangeEnc_loop e = Some e' \<Longrightarrow> RangeEnc_loop (pre7 s e) = Some (pre7 s e')"
proof (induction e e' rule: RangeEnc_loop_induct)
  case (step rec e e')
  show ?case
  proof (cases "eRange e < kTopValue")
    case True
    then have "RangeEnc_loop (pre7 s (RangeEnc_ShiftLow (e\<lparr>eRange := push_bit 8 (eRange e)\<rparr>))) = Some (pre7 s e')"
      using step by auto
    then show ?thesis
      using True by (subst RangeEnc_loop.simps) (simp add: ShiftLow_pre [symmetric] pre7_upd)
  qed (use step in \<open>auto simp: RangeEnc_loop.simps\<close>)
qed

lemma RangeEnc_loop_pre_back: "RangeEnc_loop x = Some x' \<Longrightarrow> x = pre7 s e \<Longrightarrow> RangeEnc_loop e \<noteq> None"
proof (induction x x' arbitrary: e rule: RangeEnc_loop_induct)
  case (step rec x x')
  show ?case
  proof (cases "eRange e < kTopValue")
    case True
    have "RangeEnc_loop (RangeEnc_ShiftLow (e\<lparr>eRange := push_bit 8 (eRange e)\<rparr>)) \<noteq> None"
      using step(2) True step.prems
      by (intro step(1) [of "pre7 s (RangeEnc_ShiftLow (e\<lparr>eRange := push_bit 8 (eRange e)\<rparr>))" x'])
        (simp_all add: ShiftLow_pre [symmetric] pre7_upd)
    then show ?thesis using True by (subst RangeEnc_loop.simps) simp
  qed (simp add: RangeEnc_loop.simps)
qed

lemma RangeEnc_loop_pre: "RangeEnc_loop (pre7 s e) = map_option (pre7 s) (RangeEnc_loop e)"
  by (cases "RangeEnc_loop e"; cases "RangeEnc_loop (pre7 s e)")
    (auto dest: RangeEnc_loop_pre_Some [of _ _ s] RangeEnc_loop_pre_back)

lemma enc7_pre: "enc7 (pre7 s e) x = map_option (pre7 s) (enc7 e x)"
  by (cases x)
    (simp_all add: RangeEnc_Encode_def RangeEnc_EncodeBit_0_def RangeEnc_EncodeBit_1_def Let_def
      pre7_upd [symmetric] RangeEnc_loop_pre)

lemma flush7_pre: "Ppmd7z_RangeEnc_FlushData (pre7 s e) = pre7 s (Ppmd7z_RangeEnc_FlushData e)"
proof -
  have "(RangeEnc_ShiftLow ^^ n) (pre7 s e) = pre7 s ((RangeEnc_ShiftLow ^^ n) e)" for n
    by (induction n) (simp_all add: ShiftLow_pre)
  then show ?thesis by (simp add: Ppmd7z_RangeEnc_FlushData_def)
qed

section \<open>The carryless coder\<close>

definition pre8 :: "Byte list \<Rightarrow> CPpmd8_rc \<Rightarrow> CPpmd8_rc" where
  "pre8 s e = e\<lparr>rcOut := s @ rcOut e\<rparr>"

lemma pre8_sel [simp]:
  "rcLow (pre8 s e) = rcLow e" "rcRange (pre8 s e) = rcRange e" "rcOut (pre8 s e) = s @ rcOut e"
  by (simp_all add: pre8_def)

lemma pre8_upd:
  "pre8 s (e\<lparr>rcLow := l\<rparr>) = (pre8 s e)\<lparr>rcLow := l\<rparr>" "pre8 s (e\<lparr>rcRange := r\<rparr>) = (pre8 s e)\<lparr>rcRange := r\<rparr>"
  "pre8 s (e\<lparr>rcOut := b\<rparr>) = (pre8 s e)\<lparr>rcOut := s @ b\<rparr>"
  by (simp_all add: pre8_def)

lemmas RangeEnc_Normalize8_induct = RangeEnc_Normalize8.raw_induct [rotated, consumes 1, case_names step]

lemma Normalize8_pre_Some:
  "RangeEnc_Normalize8 e = Some e' \<Longrightarrow> RangeEnc_Normalize8 (pre8 s e) = Some (pre8 s e')"
proof (induction e e' rule: RangeEnc_Normalize8_induct)
  case (step rec e e')
  show ?case
  proof (cases "norm_cond8 (rcLow e) (rcRange e)")
    case (Some r)
    define e1 where "e1 = e\<lparr>rcLow := push_bit 8 (rcLow e), rcRange := push_bit 8 r,
             rcOut := IByteOut_Write (rcOut e) (ucast (drop_bit 24 (rcLow e)))\<rparr>"
    have "RangeEnc_Normalize8 (pre8 s e1) = Some (pre8 s e')"
      using step Some by (auto simp: e1_def)
    then show ?thesis
      using Some by (subst RangeEnc_Normalize8.simps) (simp add: e1_def pre8_upd IByteOut_Write_def)
  qed (use step in \<open>auto simp: RangeEnc_Normalize8.simps\<close>)
qed

lemma Normalize8_pre_back: "RangeEnc_Normalize8 x = Some x' \<Longrightarrow> x = pre8 s e \<Longrightarrow> RangeEnc_Normalize8 e \<noteq> None"
proof (induction x x' arbitrary: e rule: RangeEnc_Normalize8_induct)
  case (step rec x x')
  show ?case
  proof (cases "norm_cond8 (rcLow e) (rcRange e)")
    case (Some r)
    define e1 where "e1 = e\<lparr>rcLow := push_bit 8 (rcLow e), rcRange := push_bit 8 r,
             rcOut := IByteOut_Write (rcOut e) (ucast (drop_bit 24 (rcLow e)))\<rparr>"
    have "RangeEnc_Normalize8 e1 \<noteq> None"
      using step(2) Some step.prems
      by (intro step(1) [of "pre8 s e1" x']) (simp_all add: e1_def pre8_upd IByteOut_Write_def)
    then show ?thesis using Some by (subst RangeEnc_Normalize8.simps) (simp add: e1_def)
  qed (simp add: RangeEnc_Normalize8.simps)
qed

lemma Normalize8_pre: "RangeEnc_Normalize8 (pre8 s e) = map_option (pre8 s) (RangeEnc_Normalize8 e)"
  by (cases "RangeEnc_Normalize8 e"; cases "RangeEnc_Normalize8 (pre8 s e)")
    (auto dest: Normalize8_pre_Some [of _ _ s] Normalize8_pre_back)

lemma enc8_pre: "enc8 (pre8 s e) x = map_option (pre8 s) (enc8 e x)"
  by (cases x)
    (simp_all add: RangeEnc_Encode8_def RangeEnc_EncodeBit8_0_def RangeEnc_EncodeBit8_1_def Let_def
      pre8_upd [symmetric] Normalize8_pre)

lemma flush8_pre: "Ppmd8_RangeEnc_FlushData (pre8 s e) = pre8 s (Ppmd8_RangeEnc_FlushData e)"
proof -
  have "Flush_byte8 (pre8 s e) = pre8 s (Flush_byte8 e)" for e
    by (simp add: Flush_byte8_def pre8_upd IByteOut_Write_def)
  then have "(Flush_byte8 ^^ n) (pre8 s e) = pre8 s ((Flush_byte8 ^^ n) e)" for n
    by (induction n) simp_all
  then show ?thesis by (simp add: Ppmd8_RangeEnc_FlushData_def)
qed

end
