(* ===== verification/Encoder_Roundtrip.thy ===== *)
theory Encoder_Roundtrip
  imports Encoder_Stream
begin

text \<open>
  From the message theorems of the codecs to the encoder objects.  The locale \<open>emitting_codec\<close>
  extends the contract of a symbol codec by the laws of \<open>Encoder_Stream\<close>: it says what the calls
  of \<open>encode\<close> and \<open>flush\<close> on one object emit together.  Both codecs interpret it.  The bytes the
  object returns are these emissions as far as they fit their block (\<open>fits\<close>); where an emission
  runs over the end of a block, its rest is lost (\<open>encode_drops_bytes\<close>).
\<close>

section \<open>Sessions\<close>

primrec run_emits ::
    "('s \<Rightarrow> int \<Rightarrow> (Byte list \<times> 's) option) \<Rightarrow> 's \<Rightarrow> int list list \<Rightarrow> (Byte list list list \<times> 's) option" where
  "run_emits se st [] = Some ([], st)"
| "run_emits se st (chs # chss) =
     do { (outs, st) \<leftarrow> run_emit se st chs; (outss, st) \<leftarrow> run_emits se st chss; Some (outs # outss, st) }"

definition flush_emits ::
    "('s \<Rightarrow> int \<Rightarrow> (Byte list \<times> 's) option) \<Rightarrow> ('s \<Rightarrow> Byte list \<times> 's) \<Rightarrow> bool \<Rightarrow> 's \<Rightarrow> Byte list option" where
  "flush_emits se fl mark st =
     do { (outs, st) \<leftarrow> run_emit se st (if mark then [- 1] else []); Some (concat outs @ fst (fl st)) }"

text \<open>Calls of \<open>encode\<close> one after the other, and what they return together.\<close>

primrec encode_session ::
    "('o \<Rightarrow> Byte list \<Rightarrow> ('o \<times> (py_error + Byte list)) option) \<Rightarrow> 'o \<Rightarrow> Byte list list \<Rightarrow>
     ('o \<times> Byte list) option" where
  "encode_session f self [] = Some (self, [])"
| "encode_session f self (data # datas) =
     do { (self, r) \<leftarrow> f self data;
          case r of Inl e \<Rightarrow> None
          | Inr b \<Rightarrow> do { (self, bs) \<leftarrow> encode_session f self datas; Some (self, b @ bs) } }"

lemma run_emit_append:
  "run_emit se st (xs @ ys) =
     do { (outs, st) \<leftarrow> run_emit se st xs; (outs', st) \<leftarrow> run_emit se st ys; Some (outs @ outs', st) }"
  by (induction xs arbitrary: st) (auto split: bind_splits)

lemma concat_map_concat: "concat (map concat xss) = concat (concat xss)"
  by (induction xss) simp_all

lemma run_emits_concat:
  "run_emits se st chss = Some (outss, st') \<Longrightarrow> run_emit se st (concat chss) = Some (concat outss, st')"
  by (induction chss arbitrary: st outss) (auto simp: run_emit_append split: bind_splits)

lemma session_delivers:
  assumes "ample api" "\<And>data. data \<in> set datas \<Longrightarrow> length data < 2 ^ 32" "codec self = Live st"
    and "run_emits se st (map symbols_of datas) = Some (outss, st')"
  shows "encode_session (encoder_encode api se) self datas =
    Some (self\<lparr>codec := Live st'\<rparr>, concat (map (deliver 1 (2 ^ 15)) outss))"
  using assms(2-4)
proof (induction datas arbitrary: self st outss)
  case (Cons data datas)
  then obtain outs st1 outss' where 1: "run_emit se st (symbols_of data) = Some (outs, st1)"
    and 2: "run_emits se st1 (map symbols_of datas) = Some (outss', st')" and o: "outss = outs # outss'"
    by (auto split: bind_splits)
  have "encoder_encode api se self data = Some (self\<lparr>codec := Live st1\<rparr>, Inr (deliver 1 (2 ^ 15) outs))"
    using Cons.prems 1 by (intro encode_delivers [OF assms(1)]) auto
  moreover have "encode_session (encoder_encode api se) (self\<lparr>codec := Live st1\<rparr>) datas =
      Some (self\<lparr>codec := Live st1\<rparr>\<lparr>codec := Live st'\<rparr>, concat (map (deliver 1 (2 ^ 15)) outss'))"
    using Cons.prems(1) 2 by (intro Cons.IH [of _ st1]) auto
  ultimately show ?case by (simp add: o)
qed simp

lemma flush_returns:
  assumes "ample api" "codec self = Live st" "\<not> flushed self"
    and "flush_emits se fl mark st = Some out"
  shows "\<exists>self'. encoder_flush api se fl self mark = Some (self', Inr (take (2 ^ 15) out))"
proof -
  obtain out1 st1 where 1: "(if mark then se st (- 1) else Some ([], st)) = Some (out1, st1)"
    and out: "out = out1 @ fst (fl st1)"
    using assms(4) by (auto simp: flush_emits_def split: if_splits bind_splits)
  then show ?thesis
    using flush_delivers [where endmark = mark and se = se and fl = fl, OF assms(1-3) 1 prod.collapse [symmetric]]
    by auto
qed

section \<open>The contract\<close>

locale emitting_codec = symbol_codec enc dec good ok room contains sync flush tr encode decode wfm
  for enc :: "'e \<Rightarrow> decision \<Rightarrow> 'e option"
    and dec :: "'d \<Rightarrow> decision \<Rightarrow> 'd option"
    and good :: "'e \<Rightarrow> bool"
    and ok :: "decision \<Rightarrow> bool"
    and room :: "nat \<Rightarrow> 'e \<Rightarrow> bool"
    and contains :: "Byte list \<Rightarrow> 'e \<Rightarrow> bool"
    and sync :: "Byte list \<Rightarrow> 'e \<Rightarrow> 'd \<Rightarrow> bool"
    and flush :: "'e \<Rightarrow> Byte list"
    and tr :: "'m \<Rightarrow> int \<Rightarrow> (decision list \<times> 'm) option"
    and encode :: "'m \<Rightarrow> 'e \<Rightarrow> int \<Rightarrow> ('e \<times> 'm) option"
    and decode :: "'m \<Rightarrow> 'd \<Rightarrow> (int \<times> 'd \<times> 'm) option"
    and wfm :: "'m \<Rightarrow> bool" +
  fixes out :: "'e \<Rightarrow> Byte list"
    and reset :: "'e \<Rightarrow> 'e"
    and pre :: "Byte list \<Rightarrow> 'e \<Rightarrow> 'e"
    and se :: "'m \<times> 'e \<Rightarrow> int \<Rightarrow> (Byte list \<times> 'm \<times> 'e) option"
    and fl :: "'m \<times> 'e \<Rightarrow> Byte list \<times> 'm \<times> 'e"
  assumes enc_pre: "enc (pre s e) x = map_option (pre s) (enc e x)"
    and pre_reset: "pre (out e) (reset e) = e"
    and out_pre: "out (pre s e) = s @ out e"
    and reset_pre: "reset (pre s e) = reset e"
    and out_reset: "out (reset e) = []"
    and emit_call: "se (p, e) ch = map_option (\<lambda>(e', p'). (out e', p', reset e')) (encode p (reset e) ch)"
    and flush_pre: "flush (pre s e) = s @ flush e"
    and flush_call: "fst (fl (p, e)) = flush (reset e)"
begin

lemma steps_pre: "steps enc (pre s e) ds = map_option (pre s) (steps enc e ds)"
  by (induction ds arbitrary: e) (auto simp: enc_pre bind_map_option comp_def map_option_bind)

text \<open>A run over one stream and the same run, emission by emission.\<close>

lemma emit_follows:
  assumes "run_trace tr p chs = Some (ds, p')" "run_emit se (p, e) chs = Some (outs, p2, e2)"
  shows "\<exists>e'. steps enc (reset e) ds = Some e' \<and> p2 = p' \<and> reset e2 = reset e' \<and> concat outs = out e'"
  using assms
proof (induction chs arbitrary: p e ds outs)
  case Nil
  have "reset (reset e) = reset e" using reset_pre [of "out e" "reset e"] by (simp add: pre_reset)
  then show ?case using Nil by (simp add: out_reset)
next
  case (Cons ch chs)
  then obtain ds1 p1 ds2 where 1: "tr p ch = Some (ds1, p1)"
    and 2: "run_trace tr p1 chs = Some (ds2, p')" and ds: "ds = ds1 @ ds2"
    by (auto split: bind_splits)
  obtain e1 where e1: "steps enc (reset e) ds1 = Some e1"
    and rest: "do { (outs, st) \<leftarrow> run_emit se (p1, reset e1) chs; Some (out e1 # outs, st) } = Some (outs, p2, e2)"
    using Cons.prems(2) encode_trace [OF 1, of "reset e"]
    by (cases "steps enc (reset e) ds1") (auto simp: emit_call)
  then obtain outs' where 3: "run_emit se (p1, reset e1) chs = Some (outs', p2, e2)" and o: "outs = out e1 # outs'"
    by (auto split: bind_splits)
  from Cons.IH [OF 2 3] obtain e' where e': "steps enc (reset (reset e1)) ds2 = Some e'" "p2 = p'"
    "reset e2 = reset e'" "concat outs' = out e'" by blast
  have "reset (reset e1) = reset e1" using reset_pre [of "out e1" "reset e1"] by (simp add: pre_reset)
  then have "steps enc e1 ds2 = Some (pre (out e1) e')"
    using steps_pre [of "out e1" "reset e1" ds2] e'(1) by (simp add: pre_reset)
  then show ?case using e1 e' by (simp add: ds o steps_append out_pre reset_pre)
qed

text \<open>What the calls of a session and the flush emit is the coder's output, which decodes to the
  message.\<close>

lemma session_decodes:
  fixes e mark chss
  defines "chs \<equiv> concat chss @ (if mark then [- 1] else [])"
  assumes trace: "run_trace tr p chs = Some (ds, p')" "run_wf tr wfm p chs"
    and good: "good (reset e)" "room (length ds) (reset e)"
    and start: "\<And>B. contains B (reset e) \<Longrightarrow> sync B (reset e) (init B)"
    and emits: "run_emits se (p, e) chss = Some (outss, st)" "flush_emits se fl mark st = Some out2"
    and fits: "list_all (fits 1 (2 ^ 15)) outss"
  defines "B \<equiv> concat (map (deliver 1 (2 ^ 15)) outss) @ out2"
  shows "\<exists>e' d'. run_decode decode (length chs) p (init B) = Some (chs, d', p') \<and> B = flush e' \<and>
    good e' \<and> room 0 e' \<and> sync B e' d' \<and> contains B (reset e)"
proof -
  obtain outs2 p2 e2 where 2: "run_emit se st (if mark then [- 1] else []) = Some (outs2, p2, e2)"
    and out2: "out2 = concat outs2 @ fst (fl (p2, e2))"
    using emits(2) by (auto simp: flush_emits_def split: bind_splits)
  have "run_emit se (p, e) chs = Some (concat outss @ outs2, p2, e2)"
    using run_emits_concat [OF emits(1)] 2 by (simp add: chs_def run_emit_append)
  from emit_follows [OF trace(1) this] obtain e'
    where e': "steps enc (reset e) ds = Some e'" "p2 = p'" "reset e2 = reset e'"
      and o: "concat (concat outss @ outs2) = out e'" by blast
  have "concat (map (deliver 1 (2 ^ 15)) outss) = concat (map concat outss)"
    using fits by (intro arg_cong [where f = concat] map_cong) (auto simp: list_all_iff intro: deliver_fits)
  moreover have "flush e' = out e' @ flush (reset e')"
    using flush_pre [of "out e'" "reset e'"] by (simp add: pre_reset)
  ultimately have B: "B = flush e'"
    using o e'(3) by (simp add: B_def out2 flush_call concat_map_concat)
  obtain e'' d' where m: "run_encode encode p (reset e) chs = Some (e'', p')" "good e''" "room 0 e''"
    "run_decode decode (length chs) p (init (flush e'')) = Some (chs, d', p')"
    "sync (flush e'') e'' d'" "contains (flush e'') (reset e)"
    using message_roundtrip [OF trace good, of init] start by blast
  have "e'' = e'" using m(1) run_encode_trace [OF trace(1), of "reset e"] e'(1) by simp
  then show ?thesis using m B by auto
qed

end

section \<open>The two encoders\<close>

interpretation em7: emitting_codec enc7 dec7 good7 ok7 enc7_room contains7 "sync7 rest" flush7
  trace7 Ppmd7_EncodeSymbol Ppmd7_DecodeSymbol wf7
  eStream "\<lambda>e. e\<lparr>eStream := []\<rparr>" pre7 emit7 flush_emit7 for rest
proof unfold_locales
  fix s x and e :: CPpmd7z_RangeEnc
  show "enc7 (pre7 s e) x = map_option (pre7 s) (enc7 e x)" by (rule enc7_pre)
  show "flush7 (pre7 s e) = s @ flush7 e" by (simp add: flush7_def flush7_pre)
next
  fix p e ch
  show "emit7 (p, e) ch = map_option (\<lambda>(e', p'). (eStream e', p', e'\<lparr>eStream := []\<rparr>))
      (Ppmd7_EncodeSymbol p (e\<lparr>eStream := []\<rparr>) ch)"
    by (cases "Ppmd7_EncodeSymbol p (e\<lparr>eStream := []\<rparr>) ch") (auto simp: emit7_def)
qed (simp_all add: pre7_def flush_emit7_def flush7_def Let_def)

interpretation em8: emitting_codec enc8 dec8 good8 ok8 "\<lambda>n e. True" contains8 "sync8 rest" flush8
  trace8 Ppmd8_EncodeSymbol Ppmd8_DecodeSymbol wf8
  rcOut "\<lambda>e. e\<lparr>rcOut := []\<rparr>" pre8 emit8 flush_emit8 for rest
proof unfold_locales
  fix s x and e :: CPpmd8_rc
  show "enc8 (pre8 s e) x = map_option (pre8 s) (enc8 e x)" by (rule enc8_pre)
  show "flush8 (pre8 s e) = s @ flush8 e" by (simp add: flush8_def flush8_pre)
next
  fix p e ch
  show "emit8 (p, e) ch = map_option (\<lambda>(e', p'). (rcOut e', p', e'\<lparr>rcOut := []\<rparr>))
      (Ppmd8_EncodeSymbol p (e\<lparr>rcOut := []\<rparr>) ch)"
    by (cases "Ppmd8_EncodeSymbol p (e\<lparr>rcOut := []\<rparr>) ch") (auto simp: emit8_def)
qed (simp_all add: pre8_def flush_emit8_def flush8_def Let_def)

lemma encoder7_session:
  assumes obj: "ample api" "codec self = Live (p, Ppmd7z_RangeEnc_Init rc)" "\<not> flushed self"
    and len: "\<forall>data\<in>set datas. length data < 2 ^ 32"
    and mark: "mark = (case endmark of None \<Rightarrow> False | Some b \<Rightarrow> b)"
    and chs: "chs = concat (map symbols_of datas) @ (if mark then [- 1] else [])"
    and model: "run_trace trace7 p chs = Some (ds, p')" "run_wf trace7 wf7 p chs" "2 * length ds + 9 < 2 ^ 64"
    and emits: "run_emits emit7 (p, Ppmd7z_RangeEnc_Init rc) (map symbols_of datas) = Some (outss, st)"
      "flush_emits emit7 flush_emit7 mark st = Some out2"
    and fits: "list_all (fits 1 (2 ^ 15)) outss" "length out2 \<le> 2 ^ 15"
  shows "\<exists>self1 self2 out1 d d'.
    encode_session (Ppmd7Encoder_encode api) self datas = Some (self1, out1) \<and>
    Ppmd7Encoder_flush api self1 endmark = Some (self2, Inr out2) \<and>
    Ppmd7z_RangeDec_Init (pd\<lparr>dStream := out1 @ out2 @ rest\<rparr>) = (True, d) \<and>
    run_decode Ppmd7_DecodeSymbol (length chs) p d = Some (chs, d', p') \<and>
    dStream d' = rest \<and> Ppmd7z_RangeDec_IsFinishedOK d'"
proof -
  let ?e = "Ppmd7z_RangeEnc_Init rc" and ?out1 = "concat (map (deliver 1 (2 ^ 15)) outss)"
  let ?init = "\<lambda>B. snd (Ppmd7z_RangeDec_Init (pd\<lparr>dStream := B @ rest\<rparr>))"
  have room: "enc7_room (length ds) (?e\<lparr>eStream := []\<rparr>)"
    using model(3) by (simp add: enc7_room_def Ppmd7z_RangeEnc_Init_def)
  obtain e' d' where e': "run_decode Ppmd7_DecodeSymbol (length chs) p (?init (?out1 @ out2)) = Some (chs, d', p')"
    "?out1 @ out2 = flush7 e'" "good7 e'" "enc7_room 0 e'" "sync7 rest (?out1 @ out2) e' d'"
    "contains7 (?out1 @ out2) (?e\<lparr>eStream := []\<rparr>)"
    using em7.session_decodes [OF model(1,2) [unfolded chs] good7_init room _ emits fits(1), where init = ?init]
      Init_sync7(2) unfolding chs by blast
  have "encode_session (Ppmd7Encoder_encode api) self datas = Some (self\<lparr>codec := Live st\<rparr>, ?out1)"
    using session_delivers [OF obj(1) _ obj(2) emits(1)] len by (simp add: Ppmd7Encoder_encode_def [abs_def])
  moreover obtain self2 where "Ppmd7Encoder_flush api (self\<lparr>codec := Live st\<rparr>) endmark = Some (self2, Inr out2)"
    using flush_returns [OF obj(1) _ _ emits(2), of "self\<lparr>codec := Live st\<rparr>"] obj(3) fits(2)
    by (auto simp: Ppmd7Encoder_flush_def mark)
  moreover have "dStream d' = rest" "dCode d' = 0"
    using e'(2,5) flush7_correct [OF e'(3,4)] by (simp_all add: sync7_def unat_eq_zero)
  moreover have "fst (Ppmd7z_RangeDec_Init (pd\<lparr>dStream := (?out1 @ out2) @ rest\<rparr>))"
    by (rule Init_sync7(1) [OF e'(6)])
  ultimately show ?thesis
    using e'(1) by (intro exI conjI) (auto simp: Ppmd7z_RangeDec_IsFinishedOK_def prod_eq_iff)
qed


text \<open>One byte through an object over the 2048-byte arena: the call returns the byte 0, the flush
  five bytes 0.\<close>

lemma first_emit7:
  obtains q' where
    "emit7 (Ppmd7_Init model7_2048 6, Ppmd7z_RangeEnc_Init \<lparr>eLow = 0, eRange = 0, eCache = 0, eCacheSize = 0, eStream = []\<rparr>) 0
      = Some ([0], q', \<lparr>eLow = 0, eRange = 0xFF00FF00, eCache = 0, eCacheSize = 1, eStream = []\<rparr>)"
    "run_trace trace7 (Ppmd7_Init model7_2048 6) [0] = Some ([Interval 0 1 257], q')"
    "run_wf trace7 wf7 (Ppmd7_Init model7_2048 6) [0]"
proof -
  let ?q = "Ppmd7_Init model7_2048 6"
  let ?e = "\<lparr>eLow = 0, eRange = 0xFFFFFFFF, eCache = 0, eCacheSize = 1, eStream = []\<rparr>"
  obtain q' where tr: "trace7 ?q 0 = Some ([Interval 0 1 257], q')" and wf: "wf7 ?q"
    by (rule first_run7)
  have "enc7 ?e (Interval 0 1 257) =
      Some \<lparr>eLow = 0, eRange = 0xFF00FF00, eCache = 0, eCacheSize = 1, eStream = [0]\<rparr>"
    by (simp add: RangeEnc_Encode_def Let_def RangeEnc_loop.simps kTopValue_def RangeEnc_ShiftLow_def
        ShiftLow_write.simps IByteOut_Write_def)
  then have "Ppmd7_EncodeSymbol ?q ?e 0 =
      Some (\<lparr>eLow = 0, eRange = 0xFF00FF00, eCache = 0, eCacheSize = 1, eStream = [0]\<rparr>, q')"
    using sc7.encode_trace [OF tr, of ?e] by simp
  then show thesis
    using that [of q'] tr wf by (simp add: emit7_def Ppmd7z_RangeEnc_Init_def)
qed

lemma first_flush7:
  "flush_emits emit7 flush_emit7 False (q, \<lparr>eLow = 0, eRange = r, eCache = 0, eCacheSize = 1, eStream = []\<rparr>) = Some [0, 0, 0, 0, 0]"
proof -
  have "(RangeEnc_ShiftLow ^^ 5) e = RangeEnc_ShiftLow (RangeEnc_ShiftLow (RangeEnc_ShiftLow
      (RangeEnc_ShiftLow (RangeEnc_ShiftLow e))))" for e
    by (simp add: eval_nat_numeral)
  moreover have "RangeEnc_ShiftLow \<lparr>eLow = 0, eRange = r, eCache = 0, eCacheSize = 1, eStream = s\<rparr> =
      \<lparr>eLow = 0, eRange = r, eCache = 0, eCacheSize = 1, eStream = s @ [0]\<rparr>" for r s
    by (simp add: RangeEnc_ShiftLow_def ShiftLow_write.simps IByteOut_Write_def Let_def)
  ultimately show ?thesis by (simp add: flush_emits_def flush_emit7_def Let_def Ppmd7z_RangeEnc_FlushData_def)
qed

lemma good_api_ample: "ample good_api"
  using good_api_ok by (simp add: ample_def)


lemma encoder8_session:
  assumes obj: "ample api" "codec self = Live (p, Ppmd8_RangeEnc_Init rc)" "\<not> flushed self"
    and len: "\<forall>data\<in>set datas. length data < 2 ^ 32"
    and mark: "mark = (case endmark of None \<Rightarrow> True | Some b \<Rightarrow> b)"
    and chs: "chs = concat (map symbols_of datas) @ (if mark then [- 1] else [])"
    and model: "run_trace trace8 p chs = Some (ds, p')" "run_wf trace8 wf8 p chs"
    and emits: "run_emits emit8 (p, Ppmd8_RangeEnc_Init rc) (map symbols_of datas) = Some (outss, st)"
      "flush_emits emit8 flush_emit8 mark st = Some out2"
    and fits: "list_all (fits 1 (2 ^ 15)) outss" "length out2 \<le> 2 ^ 15"
  shows "\<exists>self1 self2 out1 d d'.
    encode_session (Ppmd8Encoder_encode api) self datas = Some (self1, out1) \<and>
    Ppmd8Encoder_flush api self1 endmark = Some (self2, Inr out2) \<and>
    Ppmd8_RangeDec_Init (pd\<lparr>rcIn := out1 @ out2 @ rest\<rparr>) = (True, d) \<and>
    run_decode Ppmd8_DecodeSymbol (length chs) p d = Some (chs, d', p') \<and>
    rcIn d' = rest \<and> Ppmd8_RangeDec_IsFinishedOK d'"
proof -
  let ?e = "Ppmd8_RangeEnc_Init rc" and ?out1 = "concat (map (deliver 1 (2 ^ 15)) outss)"
  let ?init = "\<lambda>B. snd (Ppmd8_RangeDec_Init (pd\<lparr>rcIn := B @ rest\<rparr>))"
  obtain e' d' where e': "run_decode Ppmd8_DecodeSymbol (length chs) p (?init (?out1 @ out2)) = Some (chs, d', p')"
    "?out1 @ out2 = flush8 e'" "sync8 rest (?out1 @ out2) e' d'" "contains8 (?out1 @ out2) (?e\<lparr>rcOut := []\<rparr>)"
    using em8.session_decodes [OF model [unfolded chs] good8_init TrueI _ emits fits(1), where init = ?init]
      Init_sync8(2) unfolding chs by blast
  have "encode_session (Ppmd8Encoder_encode api) self datas = Some (self\<lparr>codec := Live st\<rparr>, ?out1)"
    using session_delivers [OF obj(1) _ obj(2) emits(1)] len by (simp add: Ppmd8Encoder_encode_def [abs_def])
  moreover obtain self2 where "Ppmd8Encoder_flush api (self\<lparr>codec := Live st\<rparr>) endmark = Some (self2, Inr out2)"
    using flush_returns [OF obj(1) _ _ emits(2), of "self\<lparr>codec := Live st\<rparr>"] obj(3) fits(2)
    by (auto simp: Ppmd8Encoder_flush_def mark)
  moreover have "rcIn d' = rest" "rcCode d' = 0"
    using e'(2,3) by (simp_all add: sync8_def flush8_val unat_eq_zero)
  moreover have "fst (Ppmd8_RangeDec_Init (pd\<lparr>rcIn := (?out1 @ out2) @ rest\<rparr>))"
    by (rule Init_sync8(1) [OF e'(4)])
  ultimately show ?thesis
    using e'(1) by (intro exI conjI) (auto simp: Ppmd8_RangeDec_IsFinishedOK_def prod_eq_iff)
qed


text \<open>One byte, flushed without the end mark.\<close>

lemma first_emit8:
  obtains q' where
    "emit8 (Ppmd8_Init model8_2048 6 0, Ppmd8_RangeEnc_Init \<lparr>rcLow = 0, rcRange = 0, rcCode = 0, rcIn = [], rcOut = []\<rparr>) 0
      = Some ([0], q', \<lparr>rcLow = 0, rcRange = 0xFF00FF00, rcCode = 0, rcIn = [], rcOut = []\<rparr>)"
    "run_trace trace8 (Ppmd8_Init model8_2048 6 0) [0] = Some ([Interval 0 1 257], q')"
    "run_wf trace8 wf8 (Ppmd8_Init model8_2048 6 0) [0]"
proof -
  let ?q = "Ppmd8_Init model8_2048 6 0"
  let ?e = "\<lparr>rcLow = 0, rcRange = 0xFFFFFFFF, rcCode = 0, rcIn = [], rcOut = []\<rparr>"
  obtain q' where tr: "trace8 ?q 0 = Some ([Interval 0 1 257], q')" and wf: "wf8 ?q"
    by (rule first_run8)
  have "enc8 ?e (Interval 0 1 257) =
      Some \<lparr>rcLow = 0, rcRange = 0xFF00FF00, rcCode = 0, rcIn = [], rcOut = [0]\<rparr>"
    by (simp add: RangeEnc_Encode8_def Let_def RangeEnc_Normalize8.simps norm_cond8_def kTop_def kBot_def
        IByteOut_Write_def)
  then have "Ppmd8_EncodeSymbol ?q ?e 0 =
      Some (\<lparr>rcLow = 0, rcRange = 0xFF00FF00, rcCode = 0, rcIn = [], rcOut = [0]\<rparr>, q')"
    using sc8.encode_trace [OF tr, of ?e] by simp
  then show thesis
    using that [of q'] tr wf by (simp add: emit8_def Ppmd8_RangeEnc_Init_def)
qed

lemma first_flush8:
  "flush_emits emit8 flush_emit8 False (q, \<lparr>rcLow = 0, rcRange = r, rcCode = 0, rcIn = [], rcOut = []\<rparr>) = Some [0, 0, 0, 0]"
proof -
  have "(Flush_byte8 ^^ 4) e = Flush_byte8 (Flush_byte8 (Flush_byte8 (Flush_byte8 e)))" for e
    by (simp add: eval_nat_numeral)
  then show ?thesis
    by (simp add: flush_emits_def flush_emit8_def Let_def Ppmd8_RangeEnc_FlushData_def Flush_byte8_def IByteOut_Write_def)
qed


section \<open>The bytes of a full block\<close>

text \<open>
  C37.  A byte at a block boundary is lost.  When the symbols of a call of \<open>encode\<close> have filled the first
  block of the output but one byte, and the next symbol emits two bytes or more, the call succeeds, but
  it returns the first 32768 bytes only: the rest of the last emission is dropped, and the stream has a gap
  before whatever later calls return.  It holds for every symbol encoder, the two of the library
  included.
\<close>

theorem encode_drops_bytes:
  assumes "ample api" "length data < 2 ^ 32" "codec self = Live st"
    and "run_emit se st (symbols_of data) = Some (outs @ [out], st')"
    and "length (concat outs) = 2 ^ 15 - 1" "2 \<le> length out"
  shows "encoder_encode api se self data = Some (self\<lparr>codec := Live st'\<rparr>, Inr (concat outs @ [hd out])) \<and>
    concat outs @ [hd out] \<noteq> concat (outs @ [out])"
proof -
  have "deliver k fr (outs @ [out]) = concat outs @ take (fr - length (concat outs)) out"
    if "length (concat outs) < fr" for k fr
    using that by (induction outs arbitrary: fr) auto
  then have "deliver 1 (2 ^ 15) (outs @ [out]) = concat outs @ take 1 out" using assms(5) by simp
  moreover have "take 1 out = [hd out]" "out \<noteq> [hd out]" using assms(6) by (cases out; auto)+
  ultimately show ?thesis using encode_delivers [OF assms(1-4)] by simp
qed

text \<open>A symbol encoder that emits one byte for 0 and two for 1.\<close>

definition toy_emit :: "unit \<Rightarrow> int \<Rightarrow> (Byte list \<times> unit) option" where
  "toy_emit = (\<lambda>_ ch. Some (if ch = 0 then [5] else [6, 7], ()))"

theorem encode_drops_bytes_witness:
  "encoder_encode good_api toy_emit \<lparr>codec = Live (), inited = True, flushed = False\<rparr> (replicate (2 ^ 15 - 1) 0 @ [1]) =
    Some (\<lparr>codec = Live (), inited = True, flushed = False\<rparr>, Inr (replicate (2 ^ 15 - 1) 5 @ [6]))"
proof -
  have run: "run_emit toy_emit () (replicate n 0 @ [1]) = Some (replicate n [5] @ [[6, 7]], ())" for n
    by (induction n) (simp_all add: toy_emit_def)
  have sy: "symbols_of (replicate n 0 @ [1]) = replicate n 0 @ [1]" for n by (simp add: symbols_of_def)
  have cc: "concat (replicate n [5]) = replicate n 5" for n :: nat by (induction n) simp_all
  have "length (replicate (2 ^ 15 - 1) 0 @ [1 :: Byte]) < 2 ^ 32" by simp
  moreover have "length (concat (replicate (2 ^ 15 - 1) [5 :: Byte])) = 2 ^ 15 - 1" by (simp add: cc)
  ultimately show ?thesis
    using encode_drops_bytes [OF good_api_ample _ _ run [folded sy], of "2 ^ 15 - 1"
        "\<lparr>codec = Live (), inited = True, flushed = False\<rparr>"]
    by (simp add: cc)
qed

end
