(* ===== verification/Decoder_Roundtrip.thy ===== *)
theory Decoder_Roundtrip
  imports Decoder_Run Encoder_Roundtrip
begin

text \<open>
  The calls of a decoder object: what every call does with the input, and the whole way of a
  message through the two objects, \<^verbatim>\<open>encode\<close>, \<^verbatim>\<open>flush\<close> and \<^verbatim>\<open>decode\<close>, with the output blocks,
  the range coder, the model, the worker thread and the input buffer in between.
\<close>

section \<open>What a call does with the input\<close>

definition same_src :: "'s ppmd_info \<Rightarrow> 's ppmd_info \<Rightarrow> bool" where
  "same_src s s' \<longleftrightarrow> src (tin s') = src (tin s) \<and> in_size (tin s') = in_size (tin s) \<and>
     in_pos (tin s) \<le> in_pos (tin s') \<and> tin_ok (tin s')"

lemma same_src_refl: "tin_ok (tin s) \<Longrightarrow> same_src s s"
  by (simp add: same_src_def)

lemma same_src_trans: "same_src s s1 \<Longrightarrow> same_src s1 s2 \<Longrightarrow> same_src s s2"
  by (auto simp: same_src_def)

lemma same_src_move: "tin_ok (tin s) \<Longrightarrow> k \<le> length (avail (tin s)) \<Longrightarrow>
  tin s1 = (tin s)\<lparr>in_pos := in_pos (tin s) + k\<rparr> \<Longrightarrow> same_src s s1"
  using length_avail [of "tin s"] by (auto simp: same_src_def tin_ok_def)

lemma work_same_src: "work dec m i got s = Some (w, s') \<Longrightarrow> tin_ok (tin s) \<Longrightarrow> same_src s s'"
proof (induction dec m i got s rule: work.induct)
  case (1 dec m i got s)
  obtain c st l where a: "ahead dec s got = Some (c, st, l)"
    using "1.prems"(1) by (auto simp: work.simps [of dec m i got] split: option.splits)
  define k where "k = length (avail (tin s))"
  define s1 where "s1 = s\<lparr>cPpmd := st, tin := (tin s)\<lparr>in_pos := in_pos (tin s) + (k - (length l - 1))\<rparr>\<rparr>"
  have s1: "same_src s s1"
    using "1.prems"(2) by (intro same_src_move [of s "k - (length l - 1)"]) (simp_all add: s1_def k_def)
  show ?case
  proof (cases "l = [] \<or> c = PPMD_RESULT_EOF \<or> c = PPMD_RESULT_ERROR")
    case True
    have "same_src s (s\<lparr>tin := (tin s)\<lparr>in_pos := in_pos (tin s) + k\<rparr>, tempty := True\<rparr>)"
      using "1.prems"(2) by (intro same_src_move [of s k]) (simp_all add: k_def)
    moreover have "same_src s (s1\<lparr>tresult := c, tfinished := True\<rparr>)" using s1 by (simp add: same_src_def)
    ultimately show ?thesis using True "1.prems"(1) a
      by (auto simp: work.simps [of dec m i got] Let_def ends_def k_def s1_def split: if_splits)
  next
    case False
    then have w: "(case store_byte (tout s1) (word_of_int c) of None \<Rightarrow> None
      | Some x \<Rightarrow> if i + 1 < m \<and> \<not> out_full x then work dec m (i + 1) [] (s1\<lparr>tout := x\<rparr>)
                  else Some (ends (i + 1) (s1\<lparr>tout := x\<rparr>))) = Some (w, s')"
      using "1.prems"(1) a unfolding s1_def k_def work.simps [of dec m i got] Let_def One_nat_def
      by (cases "store_byte (tout s) (word_of_int c)") simp_all
    then obtain x where x: "store_byte (tout s1) (word_of_int c) = Some x"
      by (cases "store_byte (tout s1) (word_of_int c)") auto
    have sx: "same_src s (s1\<lparr>tout := x\<rparr>)" using s1 by (simp add: same_src_def)
    show ?thesis
    proof (cases "i + 1 < m \<and> \<not> out_full x")
      case True
      then have "same_src (s1\<lparr>tout := x\<rparr>) s'"
        using "1.IH" [OF a refl refl k_def _ s1_def, of x] False w x sx by (auto simp: same_src_def)
      then show ?thesis using sx by (rule same_src_trans [rotated])
    next
      case F: False
      then show ?thesis using w x sx by (auto simp: ends_def same_src_def)
    qed
  qed
qed

lemma T_decode_same_src:
  assumes "T_decode dec m w s = Some (r, w', s')" "tin_ok (tin s)"
  shows "same_src s s'"
proof -
  let ?s = "s\<lparr>tmax := m, tresult := 0\<rparr>"
  have leave: "\<exists>w1. x = Some (w1, s')" if "leave x = Some (r, w', s')" for x :: "(worker \<times> _) option"
    using that by (auto simp: leave_def split: option.splits worker.splits)
  have same: "same_src s t \<longleftrightarrow> same_src u t" if "tin u = tin s" for t u :: "'a ppmd_info"
    using that by (simp add: same_src_def)
  show ?thesis
  proof (cases "tfinished s")
    case True
    then obtain w1 where "loop dec m 0 (?s\<lparr>tfinished := False\<rparr>) = Some (w1, s')"
      using assms(1) leave by (auto simp: T_decode_def)
    then show ?thesis
      using work_same_src [of dec m 0 "[]" "?s\<lparr>tfinished := False\<rparr>" w1 s'] same [of "?s\<lparr>tfinished := False\<rparr>"] assms(2)
      by (auto simp: loop_def ends_def same_src_def split: if_splits)
  next
    case False
    then obtain i m' got where "leave (resume dec m' i got (?s\<lparr>tempty := False\<rparr>)) = Some (r, w', s')"
      using assms(1) by (auto simp: T_decode_def split: worker.splits)
    then obtain w1 where "resume dec m' i got (?s\<lparr>tempty := False\<rparr>) = Some (w1, s')" using leave by blast
    then obtain b inb where b: "Reader (tin s) = Some (b, inb)"
      and w: "work dec m' i (got @ [b]) (?s\<lparr>tempty := False, tin := inb\<rparr>) = Some (w1, s')"
      by (auto simp: resume_def split: option.splits)
    note R = Reader_avail [OF assms(2) b]
    have "same_src s (?s\<lparr>tempty := False, tin := inb\<rparr>)" using R by (simp add: same_src_def)
    moreover have "same_src (?s\<lparr>tempty := False, tin := inb\<rparr>) s'" using work_same_src [OF w] R(2) by simp
    ultimately show ?thesis by (rule same_src_trans)
  qed
qed

lemmas decode_loop_induct = decode_loop.raw_induct [rotated, consumes 1, case_names step]

lemma decode_loop_same_src:
  "decode_loop api dec m w s = Some (r, w', s') \<Longrightarrow> tin_ok (tin s) \<Longrightarrow> same_src s s'"
proof (induction api dec m w s "(r, w', s')" arbitrary: r w' s' rule: decode_loop_induct)
  case (step rec api dec m w s)
  then obtain res w1 s1 where T: "T_decode dec m w s = Some (res, w1, s1)" by (auto split: bind_splits)
  note S = T_decode_same_src [OF T step(3)]
  then have ok: "tin_ok (tin s1)" by (simp add: same_src_def)
  have "same_src (s1\<lparr>tout := x\<rparr>) s'" if "rec api dec (m - res) w1 (s1\<lparr>tout := x\<rparr>) = Some (r, w', s')" for x
    using step(1) [OF that] ok by simp
  then have "same_src s1 s'" if "rec api dec (m - res) w1 (s1\<lparr>tout := x\<rparr>) = Some (r, w', s')" for x
    using that by (fastforce simp: same_src_def)
  moreover have "same_src s1 s'" if "rec api dec (m - res) w1 s1 = Some (r, w', s')" using step(1) [OF that] ok by simp
  ultimately have "same_src s1 s'"
    using step(2) T same_src_refl [OF ok]
    by (auto simp: Let_def split: if_splits sum.splits ob_error.splits)
  then show ?case using S by (rule same_src_trans [rotated])
qed

lemma start_same_src:
  assumes "start_decoder start s = Some (ok, s')" "tin_ok (tin s)"
  shows "same_src s s'"
proof -
  obtain ok' st l where r: "start (cPpmd s) (avail (tin s) @ [0]) = (ok', st, l)"
    by (cases "start (cPpmd s) (avail (tin s) @ [0])")
  then have "s' = s\<lparr>cPpmd := st, tin := (tin s)\<lparr>in_pos := in_pos (tin s) + (length (avail (tin s)) - (length l - 1))\<rparr>\<rparr>"
    using assms(1) by (auto simp: start_decoder_def split: if_splits)
  then show ?thesis
    using assms(2) by (intro same_src_move [of s "length (avail (tin s)) - (length l - 1)"]) simp_all
qed

lemma decode_finish_Inr:
  assumes "decode_finish api malloc finished set_needs use self result w s = (self', Inr out)"
  obtains res self1 where "result = Some res" "res \<noteq> PPMD_RESULT_ERROR" "finish_result api (tout s) = Inr out"
    "keep_input malloc use (tin s) self1 = Some self'" "core self1 = Live (w, s)"
    "in_begin self1 = in_begin self" "in_end self1 = in_end self" "input_buffer self1 = input_buffer self"
    "input_buffer_size self1 = input_buffer_size self" "dinited2 self1 = dinited2 self"
    "eof self1 \<longleftrightarrow> eof self \<or> res = PPMD_RESULT_EOF \<or> finished w s"
    "set_needs \<and> in_pos (tin s) = in_size (tin s) \<Longrightarrow> needs_input self1 \<longleftrightarrow> \<not> eof self1"
    "\<not> (set_needs \<and> in_pos (tin s) = in_size (tin s)) \<Longrightarrow>
       needs_input self1 \<longleftrightarrow> (needs_input self \<or> res = 0) \<and> res \<noteq> PPMD_RESULT_EOF"
  using assms
  by (auto simp: decode_finish_def Let_def PPMD_RESULT_EOF_def split: option.splits if_splits)

lemma decoder_decode_Inr:
  assumes "decoder_decode api malloc dec start finished set_needs self data len = Some (self', Inr out)"
  obtains w s use inb self1 x s1 res w2 s2 where "core self = Live (w, s)"
    "prepare_input malloc self data = Some (use, inb, self1)" "OutputBuffer_InitAndGrow api len = Inr x"
    "if dinited2 self1 then s1 = s\<lparr>tin := inb, tout := x\<rparr>
     else \<not> use \<and> start_decoder start (s\<lparr>tin := inb, tout := x\<rparr>) = Some (True, s1)"
    "decode_loop api dec (if 0 \<le> len then len else INT_MAX) w s1 = Some (res, w2, s2)"
    "decode_finish api malloc finished set_needs use (self1\<lparr>dinited2 := True\<rparr>) res w2 s2 = (self', Inr out)"
proof -
  obtain w s where c: "core self = Live (w, s)"
    using assms by (cases "core self") (auto simp: decoder_decode_def split: if_splits)
  obtain use inb self1 where p: "prepare_input malloc self data = Some (use, inb, self1)"
    using assms c by (cases "prepare_input malloc self data") (auto simp: decoder_decode_def split: if_splits)
  obtain x where x: "OutputBuffer_InitAndGrow api len = Inr x"
    using assms c p by (cases "OutputBuffer_InitAndGrow api len") (auto simp: decoder_decode_def Let_def split: if_splits)
  let ?s = "s\<lparr>tin := inb, tout := x\<rparr>"
  obtain ok s1 where i: "(if dinited2 self1 then Some (True, ?s) else if use then None else start_decoder start ?s) = Some (ok, s1)"
    using assms c p x
    by (cases "if dinited2 self1 then Some (True, ?s) else if use then None else start_decoder start ?s")
      (auto simp: decoder_decode_def Let_def split: if_splits)
  have r: "(if \<not> ok then Some (self1\<lparr>core := Live (w, s1)\<rparr>, Inl NoException)
      else Option.bind (decode_loop api dec (if 0 \<le> len then len else INT_MAX) w s1)
        (\<lambda>(result, w, s). Some (decode_finish api malloc finished set_needs use (self1\<lparr>dinited2 := True\<rparr>) result w s)))
      = Some (self', Inr out)"
    using assms c p x i by (simp add: decoder_decode_def Let_def split: if_splits)
  then have ok by (auto split: if_splits)
  with r obtain res w2 s2 where l: "decode_loop api dec (if 0 \<le> len then len else INT_MAX) w s1 = Some (res, w2, s2)"
    and f: "decode_finish api malloc finished set_needs use (self1\<lparr>dinited2 := True\<rparr>) res w2 s2 = (self', Inr out)"
    by (auto split: bind_splits)
  have "if dinited2 self1 then s1 = ?s else \<not> use \<and> start_decoder start ?s = Some (True, s1)"
    using i \<open>ok\<close> by (auto split: if_splits)
  from that [OF c p x this l f] show thesis .
qed

text \<open>
  C17.  The input buffer of a decoder refines a queue of bytes.  \<open>pending\<close> is the unconsumed input an
  object holds.  A call of \<open>decode\<close> that returns output has given the thread the pending bytes
  followed by the new ones, in one piece and in order, whether or not they had to be moved or
  copied to a new buffer; and it keeps exactly those behind the thread's read position, so that no byte
  is lost or read twice.  The indices of the buffer stay within its size.
\<close>

theorem decoder_input_refines:
  assumes "decoder_decode api malloc dec start finished set_needs self data len = Some (self', Inr out)"
    and "input_inv self" "malloc_ok malloc"
  shows "input_inv self' \<and> (\<exists>w s. core self' = Live (w, s) \<and> src (tin s) = pending self @ data \<and>
    in_pos (tin s) \<le> length (pending self @ data) \<and> pending self' = drop (in_pos (tin s)) (pending self @ data))"
proof -
  obtain w s use inb self1 x s1 res w2 s2 where d: "core self = Live (w, s)"
    "prepare_input malloc self data = Some (use, inb, self1)"
    "if dinited2 self1 then s1 = s\<lparr>tin := inb, tout := x\<rparr>
     else \<not> use \<and> start_decoder start (s\<lparr>tin := inb, tout := x\<rparr>) = Some (True, s1)"
    "decode_loop api dec (if 0 \<le> len then len else INT_MAX) w s1 = Some (res, w2, s2)"
    "decode_finish api malloc finished set_needs use (self1\<lparr>dinited2 := True\<rparr>) res w2 s2 = (self', Inr out)"
    by (rule decoder_decode_Inr [OF assms(1)]) blast
  note P = prepare_input_spec [OF assms(2,3) d(2)]
  let ?s = "s\<lparr>tin := inb, tout := x\<rparr>"
  have "same_src ?s s1"
    using d(3) P start_same_src [of start ?s True s1] same_src_refl [of ?s] by (auto split: if_splits)
  then have S: "same_src ?s s2"
    using decode_loop_same_src [OF d(4)] by (auto simp: same_src_def)
  obtain self2 where k: "keep_input malloc use (tin s2) self2 = Some self'" "core self2 = Live (w2, s2)"
    and e: "in_begin self2 = in_begin self1" "in_end self2 = in_end self1" "input_buffer self2 = input_buffer self1"
    "input_buffer_size self2 = input_buffer_size self1"
    by (rule decode_finish_Inr [OF d(5)]) simp
  have i: "input_inv self2" "pending self2 = pending self1"
    using P e by (simp_all add: input_inv_def pending_def buffer_bytes_def)
  have src: "src (tin s2) = pending self @ data" "tin_ok (tin s2)"
    using S P by (simp_all add: same_src_def)
  have K: "input_inv self'" "pending self' = avail (tin s2)" "other_fields self' = other_fields self2"
    using keep_input_spec [OF i(1) assms(3) src(2) _ _ k(1)] P i(2) src(1) by auto
  moreover have "avail (tin s2) = drop (in_pos (tin s2)) (src (tin s2))"
    using src(2) by (simp add: avail_def tin_ok_def)
  moreover have "core self' = Live (w2, s2)" using K(3) k(2) by (simp add: other_fields_def)
  moreover have "in_pos (tin s2) \<le> length (pending self @ data)" using src by (simp add: tin_ok_def)
  ultimately show ?thesis using src(1) by auto
qed

definition good_malloc :: "nat \<Rightarrow> Byte list option" where
  "good_malloc n = Some (replicate n 0)"

lemma good_malloc_ok: "malloc_ok good_malloc"
  by (simp add: malloc_ok_def good_malloc_def)

text \<open>Three bytes for an object that decodes bytes and is asked for two.\<close>

definition byte_object :: "unit decoder" where
  "byte_object = decoder_new\<lparr>core := Live (NoThread, info0), dinited2 := True\<rparr>"

lemma byte_object_decode:
  "\<exists>self'. decoder_decode good_api good_malloc byte_decoder (\<lambda>st bs. (True, st, bs)) (\<lambda>w s. False) True
     byte_object [1, 2, 3] 2 = Some (self', Inr [1, 2]) \<and> in_pos (case core self' of Live (w, s) \<Rightarrow> tin s) = 2"
proof -
  let ?x = "(\<lparr>blocks = [[0, 0]], allocated = 2, max_length = 2\<rparr>, \<lparr>dst = 0, out_size = 2, out_pos = 0\<rparr>)"
  let ?y = "(\<lparr>blocks = [[1, 2]], allocated = 2, max_length = 2\<rparr>, \<lparr>dst = 0, out_size = 2, out_pos = 2\<rparr>)"
  let ?s = "info0\<lparr>tin := \<lparr>src = [1, 2, 3], in_size = length [1, 2, 3 :: Byte], in_pos = 0\<rparr>, tout := ?x\<rparr>"
  let ?s2 = "info0\<lparr>tin := \<lparr>src = [1, 2, 3], in_size = length [1, 2, 3 :: Byte], in_pos = 2\<rparr>, tout := ?y, tmax := 2, tresult := 2\<rparr>"
  have two: "(2 :: nat) = Suc (Suc 0)" by simp
  have g: "OutputBuffer_InitAndGrow good_api 2 = Inr ?x"
    by (simp add: OutputBuffer_InitAndGrow_def good_api_def BUFFER_BLOCK_SIZE_def KB_def two)
  have "T_decode byte_decoder 2 NoThread ?s = Some (2, NoThread, ?s2)"
    by (simp add: T_decode_def info0_def loop_def out_full_def work.simps ahead_def avail_def
      byte_decoder_def PPMD_RESULT_EOF_def PPMD_RESULT_ERROR_def Let_def store_byte_def leave_def ends_def)
  then have l: "decode_loop good_api byte_decoder 2 NoThread ?s = Some (Some 2, NoThread, ?s2)"
    by (subst decode_loop.simps) simp
  have f: "finish_result good_api (tout ?s2) = Inr [1, 2]"
    by (simp add: finish_result_def OutputBuffer_Finish_def)
  show ?thesis
    using g l f
    by (simp add: decoder_decode_def byte_object_def decoder_new_def prepare_input_def Let_def decode_finish_def
        PPMD_RESULT_EOF_def PPMD_RESULT_ERROR_def keep_input_def good_malloc_def)
qed

theorem decoder_input_refines_witness:
  "\<exists>self'. decoder_decode good_api good_malloc byte_decoder (\<lambda>st bs. (True, st, bs)) (\<lambda>w s. False) True
     byte_object [1, 2, 3] 2 = Some (self', Inr [1, 2]) \<and> pending self' = [3]"
proof -
  obtain self' where d: "decoder_decode good_api good_malloc byte_decoder (\<lambda>st bs. (True, st, bs)) (\<lambda>w s. False) True
     byte_object [1, 2, 3] 2 = Some (self', Inr [1, 2])" "in_pos (case core self' of Live (w, s) \<Rightarrow> tin s) = 2"
    using byte_object_decode by blast
  have "input_inv byte_object" "pending byte_object = []"
    by (simp_all add: byte_object_def decoder_new_def input_inv_def buffer_bytes_def pending_def)
  with decoder_input_refines [OF d(1) _ good_malloc_ok] d(2) have "pending self' = drop 2 [1, 2, 3]" by auto
  then show ?thesis using d(1) by simp
qed

section \<open>The whole way of a message\<close>

lemma RangeDec_Init_suffix7: "Ppmd7z_RangeDec_Init d = (ok, d') \<Longrightarrow> suffix (dStream d') (dStream d)"
proof -
  have pow: "suffix (dStream ((Code_shift ^^ k) e)) (dStream e)" for k e
    by (induction k) (auto intro: suffix_order.trans [OF Code_shift_suffix])
  assume "Ppmd7z_RangeDec_Init d = (ok, d')"
  moreover obtain b bs where b: "IByteIn_Read (dStream d) = (b, bs)" by (cases "IByteIn_Read (dStream d)")
  moreover have "suffix bs (dStream d)" using b by (cases "dStream d") (auto intro: suffix_ConsI)
  ultimately show ?thesis
    using pow [of 4 "d\<lparr>dCode := 0, dRange := 0xFFFFFFFF, dStream := bs\<rparr>"]
    by (auto simp: Ppmd7z_RangeDec_Init_def Let_def split: if_splits intro: suffix_order.trans)
qed

lemma RangeDec_Init_suffix8: "Ppmd8_RangeDec_Init d = (ok, d') \<Longrightarrow> suffix (rcIn d') (rcIn d)"
proof -
  have pow: "suffix (rcIn ((Code_shift8 ^^ k) e)) (rcIn e)" for k e
    by (induction k) (auto intro: suffix_order.trans [OF Code_shift8_suffix])
  assume "Ppmd8_RangeDec_Init d = (ok, d')"
  then show ?thesis using pow [of 4 "d\<lparr>rcLow := 0, rcRange := 0xFFFFFFFF, rcCode := 0\<rparr>"]
    by (auto simp: Ppmd8_RangeDec_Init_def Let_def)
qed

text \<open>A fresh object and its first input.\<close>

lemma start_fresh:
  assumes "start (cPpmd s) (avail (tin s) @ [0]) = (True, st, l)" "suffix l (avail (tin s) @ [0])" "l \<noteq> []" "tin_ok (tin s)"
  obtains s1 where "start_decoder start s = Some (True, s1)" "cPpmd s1 = st" "avail (tin s1) @ [0] = l"
    "tin_ok (tin s1)" "src (tin s1) = src (tin s)" "tout s1 = tout s" "tfinished s1 = tfinished s"
proof -
  note a = avail_tail [OF assms(4,2,3)]
  show thesis
    using assms(1,3) a
    by (intro that [of "s\<lparr>cPpmd := st, tin := (tin s)\<lparr>in_pos := in_pos (tin s) + (length (avail (tin s)) - (length l - 1))\<rparr>\<rparr>"])
      (simp_all add: start_decoder_def)
qed

lemma RangeDec_Init_length7: "Ppmd7z_RangeDec_Init d = (True, d') \<Longrightarrow> length (dStream d') = length (dStream d) - 5"
proof -
  have one: "length (dStream (Code_shift e)) = length (dStream e) - 1" for e
    by (cases "dStream e") (simp_all add: Code_shift_def)
  have pow: "length (dStream ((Code_shift ^^ k) e)) = length (dStream e) - k" for k e
    by (induction k) (simp_all add: one)
  assume i: "Ppmd7z_RangeDec_Init d = (True, d')"
  obtain b bs where b: "IByteIn_Read (dStream d) = (b, bs)" by (cases "IByteIn_Read (dStream d)")
  then have "length bs = length (dStream d) - 1" by (cases "dStream d") auto
  moreover have "length (dStream d') = length bs - 4"
    using i b pow [of 4 "d\<lparr>dCode := 0, dRange := 0xFFFFFFFF, dStream := bs\<rparr>"]
    by (auto simp: Ppmd7z_RangeDec_Init_def Let_def split: if_splits)
  ultimately show ?thesis by simp
qed

lemma RangeDec_Init_length8: "Ppmd8_RangeDec_Init d = (True, d') \<Longrightarrow> length (rcIn d') = length (rcIn d) - 4"
proof -
  have one: "length (rcIn (Code_shift8 e)) = length (rcIn e) - 1" for e
    by (cases "rcIn e") (simp_all add: Code_shift8_def)
  have pow: "length (rcIn ((Code_shift8 ^^ k) e)) = length (rcIn e) - k" for k e
    by (induction k) (simp_all add: one)
  assume "Ppmd8_RangeDec_Init d = (True, d')"
  then show ?thesis using pow [of 4 "d\<lparr>rcLow := 0, rcRange := 0xFFFFFFFF, rcCode := 0\<rparr>"]
    by (auto simp: Ppmd8_RangeDec_Init_def Let_def)
qed

lemma symbols_back: "map word_of_int (symbols_of data) = data"
  by (induction data) (simp_all add: symbols_of_def)

lemma symbols_concat: "concat (map symbols_of datas) = symbols_of (concat datas)"
  by (induction datas) (simp_all add: symbols_of_def)

lemma symbols_pos: "c \<in> set (symbols_of data) \<Longrightarrow> 0 \<le> c"
  by (auto simp: symbols_of_def)

lemma InitAndGrow_roomy:
  assumes "ample api" "len = - 1 \<or> len = int n" "0 < n \<or> len = - 1" "n < 2 ^ 31"
  obtains x where "OutputBuffer_InitAndGrow api len = Inr x" "roomy n x" "ob_data x = []" "0 < ob_free x"
    "max_length (fst x) = len"
proof -
  obtain x where x: "OutputBuffer_InitAndGrow api len = Inr x"
    using InitAndGrow_total [of api len] assms(1) unfolding ample_def by blast
  have I: "ob_inv x" "ob_data x = []" "max_length (fst x) = len"
    "int (ob_free x) = (if 0 \<le> len then min len (32 * KB) else 32 * KB)"
    using InitAndGrow_spec [OF _ x] assms(1) by (auto simp: ample_def)
  have al: "allocated (fst x) = int (ob_free x)" using ob_data_length [OF I(1)] I(2) by simp
  have "int (ob_free x) \<le> 32 * KB" "0 < int (ob_free x)" using I(4) assms(2,3) by (auto simp: KB_def)
  moreover have "(int n + 1) * 2 ^ 28 \<le> 2 ^ 31 * 2 ^ 28" using assms(4) by (intro mult_right_mono) simp_all
  ultimately have "roomy n x" using I al assms(2) by (auto simp: roomy_def KB_def)
  then show thesis using that x I \<open>0 < int (ob_free x)\<close> by simp
qed

text \<open>A fresh decoder object.\<close>

definition fresh_decoder :: "'s \<Rightarrow> 's decoder \<Rightarrow> bool" where
  "fresh_decoder st self \<longleftrightarrow> \<not> dinited2 self \<and> in_begin self = in_end self \<and> input_inv self \<and>
     (\<exists>s. core self = Live (NoThread, s) \<and> cPpmd s = st \<and> tfinished s)"

lemma keep_input_total:
  assumes "\<And>k. malloc k \<noteq> None"
  shows "\<exists>self'. keep_input malloc use inb self = Some self'"
proof -
  obtain z where "malloc (in_size inb - in_pos inb) = Some z"
    using assms [of "in_size inb - in_pos inb"] by blast
  then show ?thesis by (simp add: keep_input_def Let_def split: option.splits)
qed

text \<open>
  The first call on a fresh object, around the loop: \<open>runs\<close> says what the loop does with any state
  that has the input behind the start and the output buffer.
\<close>

lemma first_decode:
  assumes api: "ample api" "malloc_ok malloc" "\<And>k. malloc k \<noteq> None"
    and self: "fresh_decoder st0 self" and x: "OutputBuffer_InitAndGrow api len = Inr x" "ob_data x = []"
    and start: "start st0 (data @ [0]) = (True, st1, l1)" "suffix l1 (data @ [0])" "l1 \<noteq> []" "5 \<le> length data"
    and runs: "\<And>w s1. cPpmd s1 = st1 \<Longrightarrow> avail (tin s1) @ [0] = l1 \<Longrightarrow> tin_ok (tin s1) \<Longrightarrow> tout s1 = x \<Longrightarrow>
      tfinished s1 \<Longrightarrow> \<exists>r s'. decode_loop api dec (if 0 \<le> len then len else INT_MAX) w s1 = Some (Some r, NoThread, s') \<and>
        (0 < r \<or> r = PPMD_RESULT_EOF \<or> r = 0 \<and> set_needs) \<and> (r = PPMD_RESULT_EOF \<or> set_needs \<and> finished NoThread s') \<and>
        decoded s1 cs st' (rest @ [0]) s'"
  shows "\<exists>self'. decoder_decode api malloc dec start finished set_needs self data len =
      Some (self', Inr (map word_of_int cs)) \<and> eof self' \<and> \<not> needs_input self' \<and> pending self' = rest"
proof -
  obtain s where core: "core self = Live (NoThread, s)" "cPpmd s = st0" "tfinished s"
    and fresh: "\<not> dinited2 self" "in_begin self = in_end self" "input_inv self"
    using self by (auto simp: fresh_decoder_def)
  let ?inb = "\<lparr>src = data, in_size = length data, in_pos = 0\<rparr>"
  let ?s = "s\<lparr>tin := ?inb, tout := x\<rparr>"
  have prep: "prepare_input malloc self data = Some (False, ?inb, self)"
    using fresh by (simp add: prepare_input_def Let_def)
  have av: "avail (tin ?s) = data" by (simp add: avail_def)
  obtain s1 where st: "start_decoder start ?s = Some (True, s1)" "cPpmd s1 = st1"
    "avail (tin s1) @ [0] = l1" "tin_ok (tin s1)" "src (tin s1) = data" "tout s1 = x" "tfinished s1"
    using start_fresh [of start ?s st1 l1 thesis, unfolded av] start(1-3) core by (simp add: tin_ok_def)
  obtain r s' where l: "decode_loop api dec (if 0 \<le> len then len else INT_MAX) NoThread s1 = Some (Some r, NoThread, s')"
    and r: "0 < r \<or> r = PPMD_RESULT_EOF \<or> r = 0 \<and> set_needs" "r = PPMD_RESULT_EOF \<or> set_needs \<and> finished NoThread s'"
    and D: "decoded s1 cs st' (rest @ [0]) s'"
    using runs [OF st(2-4,6,7)] by blast
  note D = D [unfolded decoded_def]
  have tin: "tin_ok (tin s')" "avail (tin s') = rest" using D by simp_all
  have out: "finish_result api (tout s') = Inr (map word_of_int cs)"
    using finish_result_ample [OF api(1)] D st(6) x(2) by simp
  let ?eof = "\<lambda>u. if finished NoThread s' then u\<lparr>eof := True\<rparr> else u"
  define self2 where "self2 = (let u = self\<lparr>dinited2 := True, core := Live (NoThread, s')\<rparr>;
      u = (if r = 0 then u\<lparr>needs_input := True\<rparr> else u);
      u = ?eof (if r = PPMD_RESULT_EOF then u\<lparr>eof := True, needs_input := False\<rparr> else u)
    in if set_needs \<and> in_pos (tin s') = in_size (tin s') then u\<lparr>needs_input := \<not> eof u\<rparr> else u)"
  have s2: "input_inv self2" "pending self2 = []" "eof self2" "avail (tin s') = [] \<Longrightarrow> \<not> needs_input self2"
    using fresh r length_avail [OF tin(1)] tin(1)
    by (auto simp: self2_def Let_def input_inv_def pending_def buffer_bytes_def tin_ok_def)
  obtain self3 where k: "keep_input malloc False (tin s') self2 = Some self3"
    using keep_input_total [where malloc = malloc, OF api(3)] by blast
  have K: "pending self3 = rest" "eof self3" "\<not> needs_input self3"
    using keep_input_spec [OF s2(1) api(2) tin(1) _ _ k] s2 tin(2) by (auto simp: other_fields_def)
  have "r \<noteq> PPMD_RESULT_ERROR" using r(1) by (auto simp: PPMD_RESULT_EOF_def PPMD_RESULT_ERROR_def)
  then have "decode_finish api malloc finished set_needs False (self\<lparr>dinited2 := True\<rparr>) (Some r) NoThread s' =
      (self3, Inr (map word_of_int cs))"
    using out k by (simp add: decode_finish_def Let_def self2_def)
  then have "decoder_decode api malloc dec start finished set_needs self data len = Some (self3, Inr (map word_of_int cs))"
    using prep core(1) fresh(1) x(1) st(1) l start(4) by (simp add: decoder_decode_def)
  then show ?thesis using K by blast
qed

lemma decoder7_message:
  assumes api: "ample api" "malloc_ok malloc" "\<And>k. malloc k \<noteq> None"
    and self: "fresh_decoder (p, rd) self"
    and init: "Ppmd7z_RangeDec_Init (rd\<lparr>dStream := B @ rest @ [0]\<rparr>) = (True, d)" "5 \<le> length B"
    and run: "run_decode Ppmd7_DecodeSymbol (length msg) p d = Some (symbols_of msg, d', p')"
      "dStream d' = rest @ [0]" "Ppmd7z_RangeDec_IsFinishedOK d'"
    and n: "0 < length msg" "length msg < 2 ^ 31"
  shows "\<exists>self'. Ppmd7Decoder_decode api malloc mid self (B @ rest) (int (length msg)) = Some (self', Inr msg) \<and>
    eof self' \<and> \<not> needs_input self' \<and> pending self' = rest"
proof -
  obtain x where x: "OutputBuffer_InitAndGrow api (int (length msg)) = Inr x" "roomy (length msg) x" "ob_data x = []"
    "0 < ob_free x"
    by (rule InitAndGrow_roomy [OF api(1), of "int (length msg)" "length msg"]) (use n in auto)
  have run7: "dec_run decode7 (length msg) (p, d\<lparr>dStream := []\<rparr>) (dStream d) =
      Some (symbols_of msg, (p', d'\<lparr>dStream := []\<rparr>), rest @ [0])"
    using run_decode7 [OF run(1)] run(2) by simp
  have st: "start7 (p, rd) ((B @ rest) @ [0]) = (True, (p, d\<lparr>dStream := []\<rparr>), dStream d)"
    using init(1) by (simp add: start7_def)
  have suf: "suffix (dStream d) ((B @ rest) @ [0])" using RangeDec_Init_suffix7 [OF init(1)] by simp
  have ne: "dStream d \<noteq> []" using sd7.dec_run_suffix [OF run7] by auto
  have runs: "\<exists>r s'. decode_loop api decode7 (if 0 \<le> int (length msg) then int (length msg) else INT_MAX) w s1 =
      Some (Some r, NoThread, s') \<and> (0 < r \<or> r = PPMD_RESULT_EOF \<or> r = 0 \<and> True) \<and> (r = PPMD_RESULT_EOF \<or> True \<and> finished7 mid NoThread s') \<and>
      decoded s1 (symbols_of msg) (p', d'\<lparr>dStream := []\<rparr>) (rest @ [0]) s'"
    if "cPpmd s1 = (p, d\<lparr>dStream := []\<rparr>)" "avail (tin s1) @ [0] = dStream d" "tin_ok (tin s1)" "tout s1 = x" "tfinished s1"
    for w s1
  proof -
    note T = that
    have "dec_run decode7 (length msg) (cPpmd s1) (avail (tin s1) @ [0]) =
        Some (symbols_of msg, (p', d'\<lparr>dStream := []\<rparr>), rest @ [0])"
      using run7 that(1,2) by simp
    from sd7.decode_loop_exact [OF api(1) this _ symbols_pos [of _ msg] that(3) _ _ _ that(5), where w = w]
    obtain r s' where l: "decode_loop api decode7 (int (length msg)) w s1 = Some (Some r, NoThread, s')" "0 < r"
      and D: "decoded s1 (symbols_of msg) (p', d'\<lparr>dStream := []\<rparr>) (rest @ [0]) s'"
      using T x n(1) by auto
    then show ?thesis
      using run(3) by (auto simp: decoded_def finished7_def Ppmd7z_RangeDec_IsFinishedOK_def)
  qed
  have "\<exists>self'. decoder_decode api malloc decode7 start7 (finished7 mid) True self (B @ rest) (int (length msg)) =
      Some (self', Inr (map word_of_int (symbols_of msg))) \<and> eof self' \<and> \<not> needs_input self' \<and> pending self' = rest"
    by (rule first_decode [where malloc = malloc and start = start7, OF api self x(1,3) st suf ne]) (use init(2) in simp, rule runs)
  then show ?thesis by (simp add: Ppmd7Decoder_decode_def symbols_back)
qed

lemma decoder8_message:
  assumes api: "ample api" "malloc_ok malloc" "\<And>k. malloc k \<noteq> None"
    and self: "fresh_decoder (p, rd) self"
    and init: "Ppmd8_RangeDec_Init (rd\<lparr>rcIn := B @ rest @ [0]\<rparr>) = (True, d)" "5 \<le> length (B @ rest)"
    and run: "run_decode Ppmd8_DecodeSymbol (Suc (length msg)) p d = Some (symbols_of msg @ [- 1], d', p')"
      "rcIn d' = rest @ [0]"
    and n: "int (length msg) < INT_MAX"
  shows "\<exists>self'. Ppmd8Decoder_decode api malloc self (B @ rest) None = Some (self', Inr msg) \<and>
    eof self' \<and> \<not> needs_input self' \<and> pending self' = rest"
proof -
  obtain x where x: "OutputBuffer_InitAndGrow api (- 1) = Inr x" "roomy (length msg) x" "ob_data x = []"
    "0 < ob_free x" "max_length (fst x) = - 1"
    by (rule InitAndGrow_roomy [OF api(1), of "- 1" "length msg"]) (use n in \<open>auto simp: INT_MAX_def\<close>)
  have "dec_run decode8 (length msg + 1) (p, d\<lparr>rcIn := []\<rparr>) (rcIn d) =
      Some (symbols_of msg @ [- 1], (p', d'\<lparr>rcIn := []\<rparr>), rest @ [0])"
    using run_decode8 [OF run(1)] run(2) by simp
  then obtain st l where run8: "dec_run decode8 (length msg) (p, d\<lparr>rcIn := []\<rparr>) (rcIn d) = Some (symbols_of msg, st, l)"
    and last: "decode8 st l = Some (- 1, (p', d'\<lparr>rcIn := []\<rparr>), rest @ [0])"
    unfolding dec_run_add by (auto split: bind_splits)
  have st: "start8 (p, rd) ((B @ rest) @ [0]) = (True, (p, d\<lparr>rcIn := []\<rparr>), rcIn d)"
    using init(1) by (simp add: start8_def)
  have suf: "suffix (rcIn d) ((B @ rest) @ [0])" using RangeDec_Init_suffix8 [OF init(1)] by simp
  have "l \<noteq> []" using sd8.dec_suffix [OF last] by auto
  then have ne: "rcIn d \<noteq> []" using sd8.dec_run_suffix [OF run8] by auto
  have runs: "\<exists>r s'. decode_loop api decode8 (if 0 \<le> (- 1 :: int) then - 1 else INT_MAX) w s1 =
      Some (Some r, NoThread, s') \<and> (0 < r \<or> r = PPMD_RESULT_EOF \<or> r = 0 \<and> False) \<and> (r = PPMD_RESULT_EOF \<or> False \<and> False) \<and>
      decoded s1 (symbols_of msg) (p', d'\<lparr>rcIn := []\<rparr>) (rest @ [0]) s'"
    if "cPpmd s1 = (p, d\<lparr>rcIn := []\<rparr>)" "avail (tin s1) @ [0] = rcIn d" "tin_ok (tin s1)" "tout s1 = x" "tfinished s1"
    for w s1
  proof -
    have "dec_run decode8 (length msg) (cPpmd s1) (avail (tin s1) @ [0]) = Some (symbols_of msg, st, l)"
      using run8 that(1,2) by simp
    from sd8.decode_loop_eof [OF api(1) this symbols_pos [of _ msg] last _ n that(3) _ _ _ that(5), where w = w]
    show ?thesis using that(4) x by (auto simp: PPMD_RESULT_EOF_def)
  qed
  have "\<exists>self'. decoder_decode api malloc decode8 start8 (\<lambda>w s. False) False self (B @ rest) (- 1) =
      Some (self', Inr (map word_of_int (symbols_of msg))) \<and> eof self' \<and> \<not> needs_input self' \<and> pending self' = rest"
    by (rule first_decode [where malloc = malloc and start = start8, OF api self x(1,3) st suf ne]) (use init(2) in simp, rule runs)
  then show ?thesis by (simp add: Ppmd8Decoder_decode_def symbols_back)
qed

end
