(* ===== verification/Message_Roundtrip.thy ===== *)
theory Message_Roundtrip
  imports Decoder_Roundtrip
begin

text \<open>
  The composition: a message through an encoder object (calls of \<^verbatim>\<open>encode\<close>, then \<^verbatim>\<open>flush\<close>) and
  through a decoder object.  The first section has the one input a witness needs that the other
  theories do not have: the end mark as the first symbol of a PPMd8 stream.
\<close>

section \<open>The end mark in the order-0 context\<close>

lemma Scan_enc_end_mark:
  assumes "\<And>i. i < 256 \<Longrightarrow> sFreq m (s + 6 * i) = 1"
  shows "k + n < 256 \<Longrightarrow> Scan_enc n m (s + 6 * k) (word_of_nat (k + 1)) (- 1) = Inr (s + 6 * (k + n), word_of_nat (k + n + 1))"
proof (induction n arbitrary: k)
  case (Suc n)
  have f: "sFreq m (s + 6 * (k + 1)) = 1" using assms [of "k + 1"] Suc.prems by simp
  have e: "s + 6 * k + 6 = s + 6 * (k + 1)" "word_of_nat (k + 1) + ucast (1 :: Byte) = (word_of_nat (k + 1 + 1) :: UInt32)"
    by simp_all
  have "Scan_enc n m (s + 6 * (k + 1)) (word_of_nat (k + 1 + 1)) (- 1) = Inr (s + 6 * (k + 1 + n), word_of_nat (k + 1 + n + 1))"
    using Suc.IH [of "k + 1"] Suc.prems by simp
  moreover have "int (unat x) \<noteq> - 1" for x :: Byte by linarith
  ultimately show ?case
    by (simp only: Scan_enc.simps Let_def e f if_False) (simp add: ac_simps)
qed simp

lemma end_mark8:
  assumes ok: "arena_fits p"
  shows "\<exists>q'. trace8 (Ppmd8_Init p mo rm) (- 1) = Some ([Interval 256 1 257], q')"
proof -
  define q where "q = Ppmd8_Init p mo rm"
  let ?p = "p\<lparr>MaxOrder := mo, RestoreMethod := rm\<rparr>"
  have ok': "arena_fits ?p" using ok by (simp add: arena_fits_def)
  note q = Ppmd8_Init_fields [OF q_def] RestartModel8_fields
  define m c s where mcs: "m = mem q" "c = start_ctx ?p" "s = start_units ?p"
  note R = RestartModel8_root [OF ok', folded q(1) mcs]
  have mq: "mem q = m" "MinContext q = c" by (simp_all add: mcs q)
  have "Scan_enc 255 m s 1 (- 1) = Inr (s + 1530, 256)"
    using Scan_enc_end_mark [of m s 0 255, OF R(9)] by simp
  moreover have "Climb8 k (q\<lparr>PrevSuccess := 0\<rparr>) = Some (False, q\<lparr>PrevSuccess := 0, OrderFall := OrderFall q + 1\<rparr>)" for k
    using R(3) by (subst Climb8.simps) (simp add: Let_def mq)
  moreover have "sFreq m s = 1" using R(9) [of 0] by simp
  moreover have "int (unat (sSymbol m s)) \<noteq> - 1" by linarith
  ultimately show ?thesis
    unfolding q_def [symmetric]
    using R(1-4) mq by (simp add: trace8_def Encode8_def Let_def log_decision_def Enc_escape8.simps
        del: Mask_down.simps of_nat_unat)
qed

section \<open>From object to object\<close>


text \<open>An object as \<^verbatim>\<open>__init__\<close> leaves it, with an empty input.\<close>

definition idle_decoder :: "'s \<Rightarrow> 's decoder" where
  "idle_decoder st = decoder_new\<lparr>core := Live (NoThread, \<lparr>cPpmd = st, tin = \<lparr>src = [], in_size = 0, in_pos = 0\<rparr>,
     tout = (\<lparr>blocks = [], allocated = 0, max_length = 0\<rparr>, \<lparr>dst = 0, out_size = 0, out_pos = 0\<rparr>),
     tmax = 0, tresult = 0, tempty = False, tfinished = True\<rparr>)\<rparr>"

lemma fresh_idle: "fresh_decoder st (idle_decoder st)"
  by (simp add: idle_decoder_def fresh_decoder_def decoder_new_def input_inv_def buffer_bytes_def)



text \<open>The empty message: the stream is the end mark, five bytes.\<close>

lemma first_mark8:
  obtains q' where
    "flush_emits emit8 flush_emit8 True (Ppmd8_Init model8_2048 6 0, Ppmd8_RangeEnc_Init
       \<lparr>rcLow = 0, rcRange = 0, rcCode = 0, rcIn = [], rcOut = []\<rparr>) = Some [255, 0, 255, 0, 0]"
    "run_trace trace8 (Ppmd8_Init model8_2048 6 0) [- 1] = Some ([Interval 256 1 257], q')"
    "run_wf trace8 wf8 (Ppmd8_Init model8_2048 6 0) [- 1]"
proof -
  let ?q = "Ppmd8_Init model8_2048 6 0"
  let ?e = "\<lparr>rcLow = 0, rcRange = 0xFFFFFFFF, rcCode = 0, rcIn = [], rcOut = []\<rparr>"
  let ?e1 = "\<lparr>rcLow = 0x00FF0000, rcRange = 0xFF00FF00, rcCode = 0, rcIn = [], rcOut = [255]\<rparr>"
  have "arena_fits model8_2048" using Ppmd8_Alloc_fresh [OF model8_2048_alloc] by simp
  then obtain q' where tr: "trace8 ?q (- 1) = Some ([Interval 256 1 257], q')" using end_mark8 by blast
  have wf: "wf8 ?q" using first_run8 by blast
  have "enc8 ?e (Interval 256 1 257) = Some ?e1"
    by (simp add: RangeEnc_Encode8_def Let_def RangeEnc_Normalize8.simps norm_cond8_def kTop_def kBot_def
        IByteOut_Write_def)
  then have "Ppmd8_EncodeSymbol ?q ?e (- 1) = Some (?e1, q')"
    using sc8.encode_trace [OF tr, of ?e] by simp
  then have "emit8 (?q, ?e) (- 1) = Some ([255], q', ?e1\<lparr>rcOut := []\<rparr>)"
    by (simp add: emit8_def)
  moreover have "fst (flush_emit8 (q', ?e1\<lparr>rcOut := []\<rparr>)) = [0, 255, 0, 0]"
  proof -
    have "(Flush_byte8 ^^ 4) e = Flush_byte8 (Flush_byte8 (Flush_byte8 (Flush_byte8 e)))" for e
      by (simp add: eval_nat_numeral)
    then show ?thesis
      by (simp add: flush_emit8_def Let_def Ppmd8_RangeEnc_FlushData_def Flush_byte8_def IByteOut_Write_def)
  qed
  ultimately have "flush_emits emit8 flush_emit8 True (?q, ?e) = Some [255, 0, 255, 0, 0]"
    by (simp add: flush_emits_def)
  then show thesis using that [of q'] tr wf by (simp add: Ppmd8_RangeEnc_Init_def)
qed


section \<open>The end reported too early\<close>



end
