(* ===== verification/Decoder_Chunks.thy ===== *)
theory Decoder_Chunks
  imports Decoder_Roundtrip
begin

text \<open>
  Input in pieces.  A call of \<^verbatim>\<open>T_decode\<close> that runs out of input leaves its worker in the middle of a
  symbol; the next call, with the next piece, goes on there.  In the locale of the symbol decoders: the
  two calls decode what one call decodes from the two pieces put together.
\<close>

section \<open>A run over two pieces\<close>

lemma Reader_takes:
  assumes "tin_ok b" "avail b = x # bs"
  shows "\<exists>b'. Reader b = Some (x, b') \<and> avail b' = bs \<and> tin_ok b'"
proof -
  have "in_pos b < length (src b)" using assms length_avail [OF assms(1)] by (auto simp: tin_ok_def)
  then obtain y b' where "Reader b = Some (y, b')" by (auto simp: Reader_def)
  then show ?thesis using Reader_avail [OF assms(1)] assms(2) by auto
qed

context stream_decoder begin

lemma dec_run_local:
  "dec_run dec n st (u @ l) = Some (cs, st', l) \<Longrightarrow> l \<noteq> [] \<Longrightarrow> dec_run dec n st (u @ l') = Some (cs, st', l')"
proof (induction n arbitrary: st u cs)
  case (Suc n)
  then obtain c st1 l1 cs1 where 1: "dec st (u @ l) = Some (c, st1, l1)"
    and 2: "dec_run dec n st1 l1 = Some (cs1, st', l)" and cs: "cs = c # cs1" by (auto split: bind_splits)
  obtain v where v: "l1 = v @ l" using dec_run_suffix [OF 2] by (auto simp: suffix_def)
  obtain w where "u @ l = w @ l1" using dec_suffix [OF 1] by (auto simp: suffix_def)
  then have u: "u = w @ v" by (simp add: v)
  have "dec st (w @ v @ l') = Some (c, st1, v @ l')"
    using dec_local [of st w "v @ l" c st1 "v @ l'"] 1 Suc.prems(2) by (simp add: u v)
  moreover have "dec_run dec n st1 (v @ l') = Some (cs1, st', l')" using Suc.IH [OF 2 [unfolded v] Suc.prems(2)] .
  ultimately show ?case by (simp add: u cs)
qed simp

text \<open>A run over the pieces \<open>a\<close> and \<open>b\<close> stays in the first, or has a symbol that begins in it and ends in
  the second one: then the decoder wants more, where it has the first only.\<close>

definition crosses :: "'s \<Rightarrow> Byte list \<Rightarrow> nat \<Rightarrow> nat \<Rightarrow> int list \<Rightarrow> 's \<Rightarrow> Byte list \<Rightarrow> bool" where
  "crosses st a n i cs1 st1 r \<longleftrightarrow> i < n \<and>
     dec_run dec i st (a @ [0]) = Some (cs1, st1, r @ [0]) \<and>
     (\<forall>c st2 l2. dec st1 (r @ [0]) = Some (c, st2, l2) \<longrightarrow> l2 = [])"

lemma dec_run_pieces:
  assumes "dec_run dec n st (a @ b @ [0]) = Some (cs, st', l)" "l \<noteq> []"
  shows "(\<exists>r. l = r @ b @ [0] \<and> dec_run dec n st (a @ [0]) = Some (cs, st', r @ [0])) \<or>
    (\<exists>i cs1 st1 r c cs2 st2 l2. crosses st a n i cs1 st1 r \<and> cs = cs1 @ c # cs2 \<and>
       dec st1 (r @ b @ [0]) = Some (c, st2, l2) \<and> length l2 \<le> length b \<and>
       dec_run dec (n - i - 1) st2 l2 = Some (cs2, st', l))"
  using assms
proof (induction n arbitrary: st a cs)
  case 0
  then show ?case by simp
next
  case (Suc n)
  then obtain c st1 l1 cs1 where 1: "dec st (a @ b @ [0]) = Some (c, st1, l1)"
    and 2: "dec_run dec n st1 l1 = Some (cs1, st', l)" and cs: "cs = c # cs1" by (auto split: bind_splits)
  obtain w where w: "a @ b @ [0] = w @ l1" using dec_suffix [OF 1] by (auto simp: suffix_def)
  show ?case
  proof (cases "length l1 \<le> length b")
    case True
    have "l2 = []" if d: "dec st (a @ [0]) = Some (c', st2, l2)" for c' st2 l2
    proof (rule ccontr)
      assume l2: "l2 \<noteq> []"
      obtain u where u: "a @ [0] = u @ l2" using dec_suffix [OF d] by (auto simp: suffix_def)
      then obtain v where v: "l2 = v @ [0]" "a = u @ v"
        using l2 by (metis append_assoc append_butlast_last_id butlast_append butlast_snoc last_appendR last_snoc)
      have "dec st (u @ v @ b @ [0]) = Some (c', st2, v @ b @ [0])"
        using dec_local [of st u l2 c' st2 "v @ b @ [0]"] d l2 u by simp
      then show False using 1 True v by auto
    qed
    then have "crosses st a (Suc n) 0 [] st a" by (auto simp: crosses_def)
    then show ?thesis using 1 2 cs True by (intro disjI2 exI [of _ 0] exI [of _ "[]"] exI) auto
  next
    case False
    have "length w \<le> length a" using arg_cong [OF w, of length] False by simp
    then obtain v where v: "a = w @ v" "l1 = v @ b @ [0]" using w by (auto simp: append_eq_append_conv2)
    have f: "dec st (a @ [0]) = Some (c, st1, v @ [0])"
      using dec_local [of st w "v @ b @ [0]" c st1 "v @ [0]"] 1 by (simp add: v)
    from Suc.IH [OF 2 [unfolded v(2)] Suc.prems(2)] show ?thesis
    proof (elim disjE exE conjE)
      fix r assume "l = r @ b @ [0]" "dec_run dec n st1 (v @ [0]) = Some (cs1, st', r @ [0])"
      then show ?thesis using f cs by simp
    next
      fix i cs1' st1' r c' cs2 st2 l2
      assume "crosses st1 v n i cs1' st1' r" and h: "cs1 = cs1' @ c' # cs2"
        "dec st1' (r @ b @ [0]) = Some (c', st2, l2)" "length l2 \<le> length b"
        "dec_run dec (n - i - 1) st2 l2 = Some (cs2, st', l)"
      then have "crosses st a (Suc n) (Suc i) (c # cs1') st1' r"
        using f by (simp add: crosses_def)
      then show ?thesis using h cs
        by (intro disjI2 exI [of _ "Suc i"] exI [of _ "c # cs1'"] exI [of _ st1'] exI [of _ r] exI [of _ c']
            exI [of _ cs2] exI [of _ st2] exI [of _ l2]) simp
    qed
  qed
qed

text \<open>The first call stays in the first piece, or it leaves its worker where a symbol crosses.\<close>

lemma loop_waits:
  assumes "crosses (cPpmd s) (avail (tin s)) n i cs1 st1 r" "\<And>c. c \<in> set cs1 \<Longrightarrow> 0 \<le> c"
    and "tin_ok (tin s)" "ob_inv (tout s)" "n \<le> ob_free (tout s)" "tfinished s"
    and call: "T_decode dec (int n) w s = Some (r1, w1, s1)"
  shows "r1 = 0 \<and> w1 = Waiting (int i) (int n) r \<and> cPpmd s1 = st1 \<and>
    tout s1 = write_bytes (map word_of_int cs1) (tout s) \<and> avail (tin s1) = [] \<and> \<not> tfinished s1"
proof -
  have i: "i < n" and run: "dec_run dec i (cPpmd s) (avail (tin s) @ [0]) = Some (cs1, st1, r @ [0])"
    and w: "dec st1 (r @ [0]) = Some (c, st2, l2) \<Longrightarrow> l2 = []" for c st2 l2
    using assms(1) by (auto simp: crosses_def)
  let ?s = "s\<lparr>tmax := int n, tresult := 0, tfinished := False\<rparr>"
  have "i \<le> nat (int n - 0)" "i \<le> ob_free (tout ?s)" using i assms(5) by simp_all
  then obtain s2 where s2: "loop dec (int n) 0 ?s = loop dec (int n) (0 + int i) s2" "run_to ?s cs1 st1 (r @ [0]) s2"
      and nfin: "\<not> tfinished s2"
    using loop_run [of i ?s cs1 st1 "r @ [0]" "int n" 0] run assms(2-4) by auto
  note W = write_bytes_spec [OF assms(4), of "map word_of_int cs1"] and l = dec_run_length [OF run]
  have R: "cPpmd s2 = st1" "tout s2 = write_bytes (map word_of_int cs1) (tout s)" "avail (tin s2) = r" "tin_ok (tin s2)"
    using s2(2) by (simp_all add: run_to_def)
  have nf: "\<not> out_full (tout s2)" using W R(2) l i assms(5) out_full_free [of "tout s2"] by simp
  then have lw: "loop dec (int n) (int i) s2 = work dec (int n) (int i) [] s2" using i by (simp add: loop_def)
  have T: "leave (work dec (int n) (int i) [] s2) = Some (r1, w1, s1)"
    using call assms(6) s2(1) lw by (simp add: T_decode_def)
  then obtain c st2 l2 where a: "ahead dec s2 [] = Some (c, st2, l2)"
    by (cases "ahead dec s2 []") (auto simp: work.simps [of dec "int n" "int i"] leave_def)
  then have "l2 = []" using w R by (simp add: ahead_def)
  define s3 where "s3 = s2\<lparr>tin := (tin s2)\<lparr>in_pos := in_pos (tin s2) + length r\<rparr>, tempty := True\<rparr>"
  have "work dec (int n) (int i) [] s2 = Some (Waiting (int i) (int n) r, s3)"
    using a \<open>l2 = []\<close> R by (simp add: work.simps s3_def)
  then show ?thesis using T R nfin by (auto simp: leave_def s3_def avail_def)
qed

text \<open>The second call takes the crossing symbol up and runs on.\<close>

lemma resume_run:
  assumes sym: "dec (cPpmd s) (r @ avail (tin s) @ [0]) = Some (c, st2, l2)" "length l2 \<le> length (avail (tin s))"
    and rest: "dec_run dec k st2 l2 = Some (cs2, st', l)" "l \<noteq> []"
    and pos: "\<And>x. x \<in> set (c # cs2) \<Longrightarrow> 0 \<le> x"
    and ok: "tin_ok (tin s)" "ob_inv (tout s)" "k < ob_free (tout s)" "\<not> tfinished s"
  shows "\<exists>s2. T_decode dec m (Waiting (int i) (int (i + 1 + k)) r) s = Some (int (i + 1 + k), NoThread, s2) \<and>
    cPpmd s2 = st' \<and> tout s2 = write_bytes (map word_of_int (c # cs2)) (tout s) \<and> avail (tin s2) @ [0] = l"
proof -
  have l2: "l2 \<noteq> []" using dec_run_suffix [OF rest(1)] rest(2) by auto
  then obtain x bs where av: "avail (tin s) = x # bs" using sym(2) by (cases "avail (tin s)") auto
  obtain inb where R: "Reader (tin s) = Some (x, inb)" "avail inb = bs" "tin_ok inb"
    using Reader_takes [OF ok(1) av] by blast
  let ?s = "s\<lparr>tmax := m, tresult := 0, tempty := False, tin := inb\<rparr>"
  have a: "ahead dec ?s (r @ [x]) = Some (c, st2, l2)" using sym(1) av R(2) by (simp add: ahead_def)
  have suf: "suffix l2 (avail (tin ?s) @ [0])"
  proof -
    have "suffix l2 ((r @ [x]) @ bs @ [0])" using dec_suffix [OF sym(1)] av by simp
    moreover have "suffix (bs @ [0]) ((r @ [x]) @ bs @ [0])" by (rule suffixI) simp
    moreover have "length l2 \<le> length (bs @ [0])" using sym(2) av by simp
    ultimately have "suffix l2 (bs @ [0])" by (rule suffix_length_suffix)
    moreover have "tin ?s = inb" by simp
    ultimately show ?thesis using R(2) by metis
  qed
  have nf: "\<not> out_full (tout ?s)" using ok(2,3) out_full_free [of "tout s"] by simp
  have "tin_ok (tin ?s)" "ob_inv (tout ?s)" "0 \<le> c" using R(3) ok(2) pos by simp_all
  then obtain s1 where s1: "work dec (int (i + 1 + k)) (int i) (r @ [x]) ?s = loop dec (int (i + 1 + k)) (int i + 1) s1"
      "run_to ?s [c] st2 l2 s1"
    using work_step_ahead [OF a suf l2 _ _ _ nf, of "int (i + 1 + k)" "int i"] by blast
  have t1: "tout s1 = Writer (tout s) (word_of_int c)" using s1(2) by (simp add: run_to_def write_bytes_def)
  have "ob_inv (tout s1)" "k \<le> ob_free (tout s1)"
    using Writer_spec [OF ok(2), of "word_of_int c"] ok(3) by (auto simp: t1)
  moreover have "dec_run dec k (cPpmd s1) (avail (tin s1) @ [0]) = Some (cs2, st', l)" "tin_ok (tin s1)"
    using s1(2) rest(1) by (simp_all add: run_to_def)
  ultimately obtain s2 where s2: "loop dec (int (i + 1 + k)) (int i + 1) s1 = loop dec (int (i + 1 + k)) (int i + 1 + int k) s2"
      "run_to s1 cs2 st' l s2"
    using loop_run [of k s1 cs2 st' l "int (i + 1 + k)" "int i + 1"] rest(2) pos by auto
  have "loop dec (int (i + 1 + k)) (int i + 1 + int k) s2 = Some (ends (int (i + 1 + k)) s2)"
    by (simp add: loop_def ac_simps)
  then have "T_decode dec m (Waiting (int i) (int (i + 1 + k)) r) s = leave (Some (ends (int (i + 1 + k)) s2))"
    using s1(1) s2(1) R(1) ok(4) by (simp add: T_decode_def resume_def)
  then show ?thesis
    using run_to_trans [OF s1(2) s2(2)]
    by (intro exI [of _ "s2\<lparr>tresult := int (i + 1 + k), tfinished := True\<rparr>"]) (simp add: leave_def ends_def run_to_def)
qed

lemma two_pieces:
  assumes run: "dec_run dec n (cPpmd s) (avail (tin s) @ avail inb @ [0]) = Some (cs, st', l)" "l \<noteq> []"
    and pos: "\<And>x. x \<in> set cs \<Longrightarrow> 0 \<le> x"
    and ok: "tin_ok (tin s)" "tin_ok inb" "ob_inv (tout s)" "n \<le> ob_free (tout s)" "tfinished s"
    and call: "T_decode dec (int n) w s = Some (r1, w1, s1)"
  shows "(\<exists>r. l = r @ avail inb @ [0] \<and> r1 = int n \<and> w1 = NoThread \<and> decoded s cs st' (r @ [0]) s1) \<or>
    (r1 = 0 \<and> avail (tin s1) = [] \<and> (\<exists>s2. T_decode dec m w1 (s1\<lparr>tin := inb\<rparr>) = Some (int n, NoThread, s2) \<and>
       cPpmd s2 = st' \<and> ob_data (tout s2) = ob_data (tout s) @ map word_of_int cs \<and> avail (tin s2) @ [0] = l))"
  using dec_run_pieces [OF run]
proof (elim disjE exE conjE)
  fix r assume l: "l = r @ avail inb @ [0]" and r: "dec_run dec n (cPpmd s) (avail (tin s) @ [0]) = Some (cs, st', r @ [0])"
  have "r @ [0] \<noteq> []" by simp
  from T_decode_segment [OF r this pos ok(1,3) order_refl ok(4,5), of w] obtain s2
    where s2: "T_decode dec (int n) w s = leave (loop dec (int n) (int n) s2)" "run_to s cs st' (r @ [0]) s2" by blast
  then have "r1 = int n" "w1 = NoThread" "s1 = s2\<lparr>tresult := int n, tfinished := True\<rparr>"
    using call by (simp_all add: loop_def leave_def ends_def)
  moreover have "length cs \<le> ob_free (tout s)" using dec_run_length [OF r] ok(4) by simp
  ultimately show ?thesis
    using run_to_out [OF s2(2) ok(3)] s2(2) l by (auto simp: decoded_def run_to_def)
next
  fix i cs1 st1 r c cs2 st2 l2
  assume x: "crosses (cPpmd s) (avail (tin s)) n i cs1 st1 r" and cs: "cs = cs1 @ c # cs2"
    and sym: "dec st1 (r @ avail inb @ [0]) = Some (c, st2, l2)" "length l2 \<le> length (avail inb)"
    and rest: "dec_run dec (n - i - 1) st2 l2 = Some (cs2, st', l)"
  have W: "r1 = 0" "w1 = Waiting (int i) (int n) r" "cPpmd s1 = st1"
    "tout s1 = write_bytes (map word_of_int cs1) (tout s)" "avail (tin s1) = []" "\<not> tfinished s1"
    using loop_waits [OF x _ ok(1,3,4,5) call] pos cs by simp_all
  have i: "i < n" "length cs1 = i" using x dec_run_length by (auto simp: crosses_def)
  note o = write_bytes_spec [OF ok(3), of "map word_of_int cs1", folded W(4)]
  have len: "length cs = n" by (rule dec_run_length [OF run(1)])
  let ?s = "s1\<lparr>tin := inb\<rparr>"
  have "dec (cPpmd ?s) (r @ avail (tin ?s) @ [0]) = Some (c, st2, l2)" "length l2 \<le> length (avail (tin ?s))"
    "tin_ok (tin ?s)" "ob_inv (tout ?s)" "n - i - 1 < ob_free (tout ?s)" "\<not> tfinished ?s"
    using sym W ok o i by auto
  moreover have "0 \<le> y" if "y \<in> set (c # cs2)" for y using that pos [of y] cs by auto
  ultimately obtain s2 where s2: "T_decode dec m (Waiting (int i) (int (i + 1 + (n - i - 1))) r) ?s =
      Some (int (i + 1 + (n - i - 1)), NoThread, s2)" "cPpmd s2 = st'"
      "tout s2 = write_bytes (map word_of_int (c # cs2)) (tout s1)" "avail (tin s2) @ [0] = l"
    using resume_run [of ?s r c st2 l2 "n - i - 1" cs2 st' l m i] rest run(2) by auto
  have n: "i + 1 + (n - i - 1) = n" using i by simp
  have "length (c # cs2) \<le> ob_free (tout s1)" using o i cs len ok(4) by auto
  then have "ob_data (tout s2) = ob_data (tout s) @ map word_of_int cs"
    using write_bytes_spec [of "tout s1" "map word_of_int (c # cs2)"] o s2(3) i ok(4) cs by simp
  then show ?thesis using s2(1,2,4) W n by auto
qed

end

section \<open>The two decoders\<close>

text \<open>
  C3.  Feeding in pieces, PPMd7.  Let the reference decode \<open>n\<close> symbols from the input at hand followed by
  a second piece.  A call of \<open>T_decode\<close> for \<open>n\<close> symbols on the first piece either returns them all, or it returns
  0 with the piece used up; and then a second call with the second piece, whatever limit it gives,
  returns with the same model, the same \<open>n\<close> bytes of output and the same rest of the input as
  one call with the two pieces in one.
\<close>

theorem ppmd7_pieces:
  assumes "dec_run decode7 n (cPpmd s) (avail (tin s) @ avail inb @ [0]) = Some (cs, st', l)" "l \<noteq> []"
    and "\<And>x. x \<in> set cs \<Longrightarrow> 0 \<le> x"
    and "tin_ok (tin s)" "tin_ok inb" "ob_inv (tout s)" "n \<le> ob_free (tout s)" "tfinished s"
    and "T_decode decode7 (int n) w s = Some (r1, w1, s1)"
  shows "(\<exists>r. l = r @ avail inb @ [0] \<and> r1 = int n \<and> w1 = NoThread \<and> decoded s cs st' (r @ [0]) s1) \<or>
    (r1 = 0 \<and> avail (tin s1) = [] \<and> (\<exists>s2. T_decode decode7 m w1 (s1\<lparr>tin := inb\<rparr>) = Some (int n, NoThread, s2) \<and>
       cPpmd s2 = st' \<and> ob_data (tout s2) = ob_data (tout s) @ map word_of_int cs \<and> avail (tin s2) @ [0] = l))"
  by (rule sd7.two_pieces [OF assms])

text \<open>
  C4.  Feeding in pieces, PPMd8, as in \<open>ppmd7_pieces\<close>.
\<close>

theorem ppmd8_pieces:
  assumes "dec_run decode8 n (cPpmd s) (avail (tin s) @ avail inb @ [0]) = Some (cs, st', l)" "l \<noteq> []"
    and "\<And>x. x \<in> set cs \<Longrightarrow> 0 \<le> x"
    and "tin_ok (tin s)" "tin_ok inb" "ob_inv (tout s)" "n \<le> ob_free (tout s)" "tfinished s"
    and "T_decode decode8 (int n) w s = Some (r1, w1, s1)"
  shows "(\<exists>r. l = r @ avail inb @ [0] \<and> r1 = int n \<and> w1 = NoThread \<and> decoded s cs st' (r @ [0]) s1) \<or>
    (r1 = 0 \<and> avail (tin s1) = [] \<and> (\<exists>s2. T_decode decode8 m w1 (s1\<lparr>tin := inb\<rparr>) = Some (int n, NoThread, s2) \<and>
       cPpmd s2 = st' \<and> ob_data (tout s2) = ob_data (tout s) @ map word_of_int cs \<and> avail (tin s2) @ [0] = l))"
  by (rule sd8.two_pieces [OF assms])

section \<open>Witnesses\<close>

text \<open>The first symbol of the streams of one byte, behind the start of the range decoder: it takes one byte.\<close>

lemma first_dec_run7:
  "\<exists>rc st'. dec_run decode7 1 (Ppmd7_Init model7_2048 6, rc) [0, 7, 0] = Some ([0], st', [7, 0])"
proof -
  let ?p = "Ppmd7_Init model7_2048 6" and
    ?rc = "\<lparr>eLow = 0, eRange = 0, eCache = 0, eCacheSize = 0, eStream = []\<rparr>" and
    ?pd = "\<lparr>dRange = 0, dCode = 0, dStream = []\<rparr>"
  let ?self = "\<lparr>codec = Live (?p, Ppmd7z_RangeEnc_Init ?rc), inited = True, flushed = False\<rparr>"
  obtain q' where em: "emit7 (?p, Ppmd7z_RangeEnc_Init ?rc) 0 =
      Some ([0], q', \<lparr>eLow = 0, eRange = 0xFF00FF00, eCache = 0, eCacheSize = 1, eStream = []\<rparr>)"
    and tr: "run_trace trace7 ?p [0] = Some ([Interval 0 1 257], q')" and wf: "run_wf trace7 wf7 ?p [0]"
    by (rule first_emit7)
  have 1: "run_emits emit7 (?p, Ppmd7z_RangeEnc_Init ?rc) (map symbols_of [[0]]) =
      Some ([[[0]]], q', \<lparr>eLow = 0, eRange = 0xFF00FF00, eCache = 0, eCacheSize = 1, eStream = []\<rparr>)"
    using em by (simp add: symbols_of_def)
  have codec: "codec ?self = Live (?p, Ppmd7z_RangeEnc_Init ?rc)" "\<not> flushed ?self" by simp_all
  have len: "\<forall>data\<in>set [[0 :: Byte]]. length data < 2 ^ 32" "False = (case None of None \<Rightarrow> False | Some b \<Rightarrow> b)"
    "[0] = concat (map symbols_of [[0]]) @ (if False then [- 1] else [])"
    "2 * length [Interval 0 1 257] + 9 < (2 :: nat) ^ 64"
    "list_all (fits 1 (2 ^ 15)) [[[0 :: Byte]]]" "length [0, 0, 0, 0, 0 :: Byte] \<le> 2 ^ 15"
    by (simp_all add: symbols_of_def)
  from encoder7_session [OF good_api_ample codec len(1-3) tr wf len(4) 1 first_flush7 len(5,6), where pd = ?pd and rest = "[7, 0]"]
  obtain self1 out1 d d' where s: "encode_session (Ppmd7Encoder_encode good_api) ?self [[0]] = Some (self1, out1)"
    and i: "Ppmd7z_RangeDec_Init (?pd\<lparr>dStream := out1 @ [0, 0, 0, 0, 0] @ [7, 0]\<rparr>) = (True, d)"
    and r: "run_decode Ppmd7_DecodeSymbol 1 ?p d = Some ([0], d', q')" "dStream d' = [7, 0]"
    by auto
  have out1: "out1 = [0]"
    using s session_delivers [OF good_api_ample _ codec(1) 1] len(1) by (simp add: Ppmd7Encoder_encode_def [abs_def])
  have "suffix (dStream d) [0, 0, 0, 0, 0, 0, 7, 0]" "length (dStream d) = length [0, 7, 0 :: Byte]"
    using RangeDec_Init_suffix7 [OF i] RangeDec_Init_length7 [OF i] by (simp_all add: out1)
  moreover have "suffix [0, 7, 0] [0, 0, 0, 0, 0, 0, 7, 0 :: Byte]" by (simp add: suffix_def)
  ultimately have "dStream d = [0, 7, 0]" by (metis order_refl suffix_length_suffix suffix_order.antisym)
  then show ?thesis using run_decode7 [OF r(1)] r(2) by metis
qed

lemma first_dec_run8:
  "\<exists>rc st'. dec_run decode8 1 (Ppmd8_Init model8_2048 6 0, rc) [0, 7, 0] = Some ([0], st', [7, 0])"
proof -
  let ?p = "Ppmd8_Init model8_2048 6 0" and
    ?rc = "\<lparr>rcLow = 0, rcRange = 0, rcCode = 0, rcIn = [], rcOut = []\<rparr>" and
    ?e1 = "\<lparr>rcLow = 0, rcRange = 0xFF00FF00, rcCode = 0, rcIn = [], rcOut = []\<rparr>"
  let ?self = "\<lparr>codec = Live (?p, Ppmd8_RangeEnc_Init ?rc), inited = True, flushed = False\<rparr>"
  obtain q' where em: "emit8 (?p, Ppmd8_RangeEnc_Init ?rc) 0 = Some ([0], q', ?e1)"
    and tr: "run_trace trace8 ?p [0] = Some ([Interval 0 1 257], q')" and wf: "run_wf trace8 wf8 ?p [0]"
    by (rule first_emit8)
  have 1: "run_emits emit8 (?p, Ppmd8_RangeEnc_Init ?rc) (map symbols_of [[0]]) = Some ([[[0]]], q', ?e1)"
    using em by (simp add: symbols_of_def)
  have codec: "codec ?self = Live (?p, Ppmd8_RangeEnc_Init ?rc)" "\<not> flushed ?self" by simp_all
  have len: "\<forall>data\<in>set [[0 :: Byte]]. length data < 2 ^ 32" "False = (case Some False of None \<Rightarrow> True | Some b \<Rightarrow> b)"
    "[0] = concat (map symbols_of [[0]]) @ (if False then [- 1] else [])"
    "list_all (fits 1 (2 ^ 15)) [[[0 :: Byte]]]" "length [0, 0, 0, 0 :: Byte] \<le> 2 ^ 15"
    by (simp_all add: symbols_of_def)
  from encoder8_session [OF good_api_ample codec len(1-3) tr wf 1 first_flush8 len(4,5), where pd = ?rc and rest = "[7, 0]"]
  obtain self1 out1 d d' where s: "encode_session (Ppmd8Encoder_encode good_api) ?self [[0]] = Some (self1, out1)"
    and i: "Ppmd8_RangeDec_Init (?rc\<lparr>rcIn := out1 @ [0, 0, 0, 0] @ [7, 0]\<rparr>) = (True, d)"
    and r: "run_decode Ppmd8_DecodeSymbol 1 ?p d = Some ([0], d', q')" "rcIn d' = [7, 0]"
    by auto
  have out1: "out1 = [0]"
    using s session_delivers [OF good_api_ample _ codec(1) 1] len(1) by (simp add: Ppmd8Encoder_encode_def [abs_def])
  have "suffix (rcIn d) [0, 0, 0, 0, 0, 7, 0]" "length (rcIn d) = length [0, 7, 0 :: Byte]"
    using RangeDec_Init_suffix8 [OF i] RangeDec_Init_length8 [OF i] by (simp_all add: out1)
  moreover have "suffix [0, 7, 0] [0, 0, 0, 0, 0, 7, 0 :: Byte]" by (simp add: suffix_def)
  ultimately have "rcIn d = [0, 7, 0]" by (metis order_refl suffix_length_suffix suffix_order.antisym)
  then show ?thesis using run_decode8 [OF r(1)] r(2) by metis
qed

text \<open>The first call has no input; the second brings two bytes, of which the symbol takes one.\<close>

definition hungry :: "'s \<Rightarrow> 's ppmd_info" where
  "hungry st = \<lparr>cPpmd = st, tin = \<lparr>src = [], in_size = 0, in_pos = 0\<rparr>,
     tout = (\<lparr>blocks = [[0]], allocated = 1, max_length = 1\<rparr>, \<lparr>dst = 0, out_size = 1, out_pos = 0\<rparr>),
     tmax = 0, tresult = 0, tempty = False, tfinished = True\<rparr>"

context stream_decoder begin

lemma hungry_waits:
  assumes "dec_run dec 1 st (0 # l) = Some (cs, st', l)" "l \<noteq> []"
  shows "\<exists>w1 s1. T_decode dec (int 1) NoThread (hungry st) = Some (0, w1, s1)"
proof -
  have "dec_run dec 1 st ([0] @ []) = Some (cs, st', [])" by (rule dec_run_local [OF _ assms(2)]) (use assms(1) in simp)
  then obtain c where c: "dec st [0] = Some (c, st', [])" by (auto split: bind_splits)
  then show ?thesis
    by (simp add: T_decode_def hungry_def loop_def out_full_def work.simps ahead_def avail_def leave_def)
qed

end

lemma hungry_ok: "tin_ok (tin (hungry st))" "ob_inv (tout (hungry st))" "1 \<le> ob_free (tout (hungry st))"
  "tfinished (hungry st)" "avail (tin (hungry st)) = []" "ob_data (tout (hungry st)) = []" "cPpmd (hungry st) = st"
  by (simp_all add: hungry_def tin_ok_def ob_inv_def ob_free_def avail_def ob_data_def)

definition piece :: InBuffer where
  "piece = \<lparr>src = [0, 7], in_size = 2, in_pos = 0\<rparr>"

lemma piece_ok: "tin_ok piece" "avail piece = [0, 7]"
  by (simp_all add: piece_def tin_ok_def avail_def)

theorem ppmd7_pieces_witness:
  "\<exists>rc w1 s1 s2. T_decode decode7 (int 1) NoThread (hungry (Ppmd7_Init model7_2048 6, rc)) = Some (0, w1, s1) \<and>
     T_decode decode7 5 w1 (s1\<lparr>tin := piece\<rparr>) = Some (int 1, NoThread, s2) \<and> ob_data (tout s2) = [0]"
proof -
  obtain rc st' where r: "dec_run decode7 1 (Ppmd7_Init model7_2048 6, rc) [0, 7, 0] = Some ([0], st', [7, 0])"
    using first_dec_run7 by blast
  let ?s = "hungry (Ppmd7_Init model7_2048 6, rc)"
  obtain w1 s1 where 1: "T_decode decode7 (int 1) NoThread ?s = Some (0, w1, s1)"
    using sd7.hungry_waits [OF r] by blast
  have run: "dec_run decode7 1 (cPpmd ?s) (avail (tin ?s) @ avail piece @ [0]) = Some ([0], st', [7, 0])"
    using r by (simp add: hungry_ok piece_ok del: dec_run.simps)
  from ppmd7_pieces [OF run _ _ hungry_ok(1) piece_ok(1) hungry_ok(2-4) 1, of 5]
  show ?thesis using 1 by (auto simp: hungry_ok)
qed

theorem ppmd8_pieces_witness:
  "\<exists>rc w1 s1 s2. T_decode decode8 (int 1) NoThread (hungry (Ppmd8_Init model8_2048 6 0, rc)) = Some (0, w1, s1) \<and>
     T_decode decode8 5 w1 (s1\<lparr>tin := piece\<rparr>) = Some (int 1, NoThread, s2) \<and> ob_data (tout s2) = [0]"
proof -
  obtain rc st' where r: "dec_run decode8 1 (Ppmd8_Init model8_2048 6 0, rc) [0, 7, 0] = Some ([0], st', [7, 0])"
    using first_dec_run8 by blast
  let ?s = "hungry (Ppmd8_Init model8_2048 6 0, rc)"
  obtain w1 s1 where 1: "T_decode decode8 (int 1) NoThread ?s = Some (0, w1, s1)"
    using sd8.hungry_waits [OF r] by blast
  have run: "dec_run decode8 1 (cPpmd ?s) (avail (tin ?s) @ avail piece @ [0]) = Some ([0], st', [7, 0])"
    using r by (simp add: hungry_ok piece_ok del: dec_run.simps)
  from ppmd8_pieces [OF run _ _ hungry_ok(1) piece_ok(1) hungry_ok(2-4) 1, of 5]
  show ?thesis using 1 by (auto simp: hungry_ok)
qed

end
