(* ===== verification/Object_Life.thy ===== *)
theory Object_Life
  imports Message_Roundtrip Decoder_Chunks
begin

text \<open>
  The life of the objects: what \<^verbatim>\<open>__init__\<close> of a decoder leaves, that an encoder and a decoder made with
  the same arguments agree, what a failed \<^verbatim>\<open>__init__\<close> leaves, and a second \<^verbatim>\<open>flush\<close>.
\<close>

section \<open>Objects made with the same arguments\<close>

lemma decoder7_init_fresh:
  assumes "Ppmd7Decoder_init obj raw raw_info rawrd alloc decoder_new max_order mem_size = (self, Inr ())"
  obtains mo ms p where "order_arg PPMD7_MAX_ORDER max_order = Inr mo" "memory_arg mem_size = Inr ms"
    "Ppmd7_Alloc (Ppmd7_Construct raw) ms alloc = (True, p)"
    "fresh_decoder (Ppmd7_Init p mo, rawrd) self" "needs_input self" "\<not> eof self"
  using assms
  by (auto simp: Ppmd7Decoder_init_def decoder_new_def fresh_decoder_def input_inv_def buffer_bytes_def Let_def
      split: if_splits sum.splits prod.splits)

lemma decoder8_init_fresh:
  assumes "Ppmd8Decoder_init obj raw raw_info rawrd alloc decoder_new max_order mem_size rm = (self, Inr ())"
  obtains mo ms p where "order_arg PPMD8_MAX_ORDER max_order = Inr mo" "memory_arg mem_size = Inr ms"
    "Ppmd8_Alloc (Ppmd8_Construct raw) ms alloc = (True, p)"
    "fresh_decoder (Ppmd8_Init p mo rm, rawrd) self" "needs_input self" "\<not> eof self"
  using assms
  by (auto simp: Ppmd8Decoder_init_def decoder_new_def fresh_decoder_def input_inv_def buffer_bytes_def Let_def
      split: if_splits sum.splits prod.splits)

text \<open>
  C31.  A \<open>Ppmd7Encoder\<close> and a \<open>Ppmd7Decoder\<close> made with the same arguments, over structures and arenas of
  the same content, agree: both hold the same model, which is well formed, the encoder with an empty range coder,
  the decoder without a thread, without input and wanting some.  These are the states in which
  \<open>ppmd7_object_roundtrip\<close> starts.
\<close>

theorem ppmd7_objects_agree:
  assumes "Ppmd7Encoder_init obj raw rawrc alloc encoder_new max_order mem_size = (enc, Inr ())"
    and "Ppmd7Decoder_init obj' raw raw_info rawrd alloc decoder_new max_order mem_size = (dec, Inr ())"
  shows "\<exists>p. wf7 p \<and> codec enc = Live (p, Ppmd7z_RangeEnc_Init rawrc) \<and> \<not> flushed enc \<and>
    fresh_decoder (p, rawrd) dec \<and> needs_input dec \<and> \<not> eof dec"
proof -
  obtain mo ms p where d: "order_arg PPMD7_MAX_ORDER max_order = Inr mo" "memory_arg mem_size = Inr ms"
    "Ppmd7_Alloc (Ppmd7_Construct raw) ms alloc = (True, p)"
    "fresh_decoder (Ppmd7_Init p mo, rawrd) dec" "needs_input dec" "\<not> eof dec"
    by (rule decoder7_init_fresh [OF assms(2)])
  then have "codec enc = Live (Ppmd7_Init p mo, Ppmd7z_RangeEnc_Init rawrc)" "\<not> flushed enc"
    using assms(1) by (auto simp: Ppmd7Encoder_init_def encoder_new_def Let_def split: if_splits)
  moreover have "wf7 (Ppmd7_Init p mo)"
    using Ppmd7_Init_wf [OF d(3)] memory_arg_bounds [OF d(2)] by blast
  ultimately show ?thesis using d(4-6) by blast
qed

text \<open>
  C32.  A \<open>Ppmd8Encoder\<close> and a \<open>Ppmd8Decoder\<close> made with the same arguments agree, as in
  \<open>ppmd7_objects_agree\<close>.
\<close>

theorem ppmd8_objects_agree:
  assumes "Ppmd8Encoder_init obj raw rawrc alloc encoder_new max_order mem_size rm = (enc, Inr ())"
    and "Ppmd8Decoder_init obj' raw raw_info rawrd alloc decoder_new max_order mem_size rm = (dec, Inr ())"
  shows "\<exists>p. wf8 p \<and> codec enc = Live (p, Ppmd8_RangeEnc_Init rawrc) \<and> \<not> flushed enc \<and>
    fresh_decoder (p, rawrd) dec \<and> needs_input dec \<and> \<not> eof dec"
proof -
  obtain mo ms p where d: "order_arg PPMD8_MAX_ORDER max_order = Inr mo" "memory_arg mem_size = Inr ms"
    "Ppmd8_Alloc (Ppmd8_Construct raw) ms alloc = (True, p)"
    "fresh_decoder (Ppmd8_Init p mo rm, rawrd) dec" "needs_input dec" "\<not> eof dec"
    by (rule decoder8_init_fresh [OF assms(2)])
  then have "codec enc = Live (Ppmd8_Init p mo rm, Ppmd8_RangeEnc_Init rawrc)" "\<not> flushed enc"
    using assms(1) by (auto simp: Ppmd8Encoder_init_def encoder_new_def Let_def split: if_splits)
  moreover have "wf8 (Ppmd8_Init p mo rm)"
    using Ppmd8_Init_wf [OF d(3)] memory_arg_bounds [OF d(2)] by blast
  ultimately show ?thesis using d(4-6) by blast
qed

text \<open>Order 6 and 2 KiB.\<close>

theorem ppmd7_objects_agree_witness:
  "\<exists>enc dec p. Ppmd7Encoder_init (\<lambda>_. True) blank7 \<lparr>eLow = 1, eRange = 1, eCache = 1, eCacheSize = 1, eStream = []\<rparr>
      full_alloc encoder_new (PyInt 6) (PyInt 2048) = (enc, Inr ()) \<and>
    Ppmd7Decoder_init (\<lambda>_. True) blank7 (hungry (blank7, \<lparr>dRange = 0, dCode = 0, dStream = []\<rparr>)) \<lparr>dRange = 0, dCode = 0, dStream = []\<rparr>
      full_alloc decoder_new (PyInt 6) (PyInt 2048) = (dec, Inr ()) \<and>
    wf7 p \<and> fresh_decoder (p, \<lparr>dRange = 0, dCode = 0, dStream = []\<rparr>) dec"
proof -
  let ?rc = "\<lparr>eLow = 1, eRange = 1, eCache = 1, eCacheSize = 1, eStream = []\<rparr>" and
    ?rd = "\<lparr>dRange = 0, dCode = 0, dStream = []\<rparr>"
  have a: "order_arg PPMD7_MAX_ORDER (PyInt 6) = Inr 6" "memory_arg (PyInt 2048) = Inr 2048"
    by (simp_all add: order_arg_def memory_arg_def PyLong_AsUnsignedLong_def clamp_max_order_def
        clamp_memory_size_def PPMD7_MAX_ORDER_def PPMD7_MIN_ORDER_def PPMD7_MIN_MEM_SIZE_def PPMD7_MAX_MEM_SIZE_def)
  have e: "Ppmd7Encoder_init (\<lambda>_. True) blank7 ?rc full_alloc encoder_new (PyInt 6) (PyInt 2048) =
      (\<lparr>codec = Live (Ppmd7_Init model7_2048 6, Ppmd7z_RangeEnc_Init ?rc), inited = True, flushed = False\<rparr>, Inr ())"
    by (simp add: Ppmd7Encoder_init_def encoder_new_def a model7_2048_alloc)
  obtain dec where d: "Ppmd7Decoder_init (\<lambda>_. True) blank7 (hungry (blank7, ?rd)) ?rd full_alloc decoder_new (PyInt 6) (PyInt 2048) =
      (dec, Inr ())"
    by (simp add: Ppmd7Decoder_init_def decoder_new_def a model7_2048_alloc decoder_parts_def)
  from ppmd7_objects_agree [OF e d] show ?thesis using e d by blast
qed

theorem ppmd8_objects_agree_witness:
  "\<exists>enc dec p. Ppmd8Encoder_init (\<lambda>_. True) blank8 \<lparr>rcLow = 1, rcRange = 1, rcCode = 1, rcIn = [], rcOut = []\<rparr>
      full_alloc encoder_new (PyInt 6) (PyInt 2048) 1 = (enc, Inr ()) \<and>
    Ppmd8Decoder_init (\<lambda>_. True) blank8 (hungry (blank8, \<lparr>rcLow = 0, rcRange = 0, rcCode = 0, rcIn = [], rcOut = []\<rparr>))
      \<lparr>rcLow = 0, rcRange = 0, rcCode = 0, rcIn = [], rcOut = []\<rparr> full_alloc decoder_new (PyInt 6) (PyInt 2048) 1 = (dec, Inr ()) \<and>
    wf8 p \<and> fresh_decoder (p, \<lparr>rcLow = 0, rcRange = 0, rcCode = 0, rcIn = [], rcOut = []\<rparr>) dec"
proof -
  let ?rc = "\<lparr>rcLow = 1, rcRange = 1, rcCode = 1, rcIn = [], rcOut = []\<rparr>" and
    ?rd = "\<lparr>rcLow = 0, rcRange = 0, rcCode = 0, rcIn = [], rcOut = []\<rparr>"
  have a: "order_arg PPMD8_MAX_ORDER (PyInt 6) = Inr 6" "memory_arg (PyInt 2048) = Inr 2048"
    by (simp_all add: order_arg_def memory_arg_def PyLong_AsUnsignedLong_def clamp_max_order_def
        clamp_memory_size_def PPMD8_MAX_ORDER_def PPMD7_MIN_ORDER_def PPMD7_MIN_MEM_SIZE_def PPMD7_MAX_MEM_SIZE_def)
  have e: "Ppmd8Encoder_init (\<lambda>_. True) blank8 ?rc full_alloc encoder_new (PyInt 6) (PyInt 2048) 1 =
      (\<lparr>codec = Live (Ppmd8_Init model8_2048 6 1, Ppmd8_RangeEnc_Init ?rc), inited = True, flushed = False\<rparr>, Inr ())"
    by (simp add: Ppmd8Encoder_init_def encoder_new_def a model8_2048_alloc)
  obtain dec where d: "Ppmd8Decoder_init (\<lambda>_. True) blank8 (hungry (blank8, ?rd)) ?rd full_alloc decoder_new (PyInt 6) (PyInt 2048) 1 =
      (dec, Inr ())"
    by (simp add: Ppmd8Decoder_init_def decoder_new_def a model8_2048_alloc decoder_parts_def)
  from ppmd8_objects_agree [OF e d] show ?thesis using e d by blast
qed

section \<open>After a failure\<close>

text \<open>
  C34.  A failed \<^verbatim>\<open>__init__\<close> of a decoder cannot be repeated and leaves no usable object: a second one raises
  RuntimeError and changes nothing, \<^verbatim>\<open>decode\<close> of a sufficient input follows a NULL pointer or a freed
  one; and where the pointer is a freed one, \<^verbatim>\<open>dealloc\<close> follows it, too.
\<close>

theorem decoder8_init_failed:
  assumes "Ppmd8Decoder_init obj raw raw_info rawrd alloc decoder_new max_order mem_size rm = (self, Inl e)"
    and "5 \<le> length data"
  shows "Ppmd8Decoder_init obj' raw' raw_info' rawrd' alloc' self mo' ms' rm' = (self, Inl RuntimeError) \<and>
    Ppmd8Decoder_decode api malloc self data len = None \<and>
    decoder_dealloc in_time self = (if core self = Null then Some () else None) \<and>
    (\<forall>mo ms. order_arg PPMD8_MAX_ORDER max_order = Inr mo \<and> memory_arg mem_size = Inr ms \<and>
       list_all obj decoder_parts \<and> obj ''CPpmd8'' \<longrightarrow> core self = Dangling)"
proof -
  have "dinited self \<and> \<not> dinited2 self \<and> (core self = Null \<or> core self = Dangling)"
    using assms(1)
    by (auto simp: Ppmd8Decoder_init_def decoder_new_def Let_def split: if_splits sum.splits prod.splits)
  moreover have "core self = Dangling" if "order_arg PPMD8_MAX_ORDER max_order = Inr mo" "memory_arg mem_size = Inr ms"
      "list_all obj decoder_parts" "obj ''CPpmd8''" for mo ms
    using assms(1) that by (auto simp: Ppmd8Decoder_init_def decoder_new_def Let_def split: if_splits prod.splits)
  ultimately show ?thesis using assms(2)
    by (auto simp: Ppmd8Decoder_init_def Ppmd8Decoder_decode_def decoder_decode_def decoder_dealloc_def)
qed

text \<open>No memory for the arena.\<close>

theorem decoder8_init_failed_witness:
  "\<exists>self. Ppmd8Decoder_init (\<lambda>_. True) blank8 (hungry (blank8, \<lparr>rcLow = 0, rcRange = 0, rcCode = 0, rcIn = [], rcOut = []\<rparr>))
      \<lparr>rcLow = 0, rcRange = 0, rcCode = 0, rcIn = [], rcOut = []\<rparr> (\<lambda>n. None) decoder_new PyNone PyNone 0 =
      (self, Inl MemoryError) \<and>
    decoder_dealloc True self = None \<and> Ppmd8Decoder_decode good_api good_malloc self [1, 2, 3, 4, 5] None = None"
proof -
  let ?rc = "\<lparr>rcLow = 0, rcRange = 0, rcCode = 0, rcIn = [], rcOut = []\<rparr>"
  let ?init = "Ppmd8Decoder_init (\<lambda>_. True) blank8 (hungry (blank8, ?rc)) ?rc (\<lambda>n. None) decoder_new PyNone PyNone 0"
  have a: "order_arg PPMD8_MAX_ORDER PyNone = Inr 6" "memory_arg PyNone = Inr 0x1000000"
    "list_all (\<lambda>_. True) decoder_parts"
    by (simp_all add: order_arg_def memory_arg_def decoder_parts_def)
  have i: "?init = (decoder_new\<lparr>dinited := True, needs_input := True, core := Dangling\<rparr>, Inl MemoryError)"
    by (simp add: Ppmd8Decoder_init_def decoder_new_def a Ppmd8_Alloc_def Ppmd8_Construct_def Ppmd8_Free_def Let_def)
  from decoder8_init_failed [OF i, of "[1, 2, 3, 4, 5]"] show ?thesis using i by (auto simp: a)
qed

section \<open>A second \<open>flush\<close>\<close>

text \<open>
  C35.  A second \<^verbatim>\<open>flush\<close> is not refused: no call sets \<open>flushed\<close>, so after a call of \<^verbatim>\<open>flush\<close> that
  has returned a stream's last bytes another one returns bytes again, without an error.
\<close>

theorem flush_never_refused:
  assumes "ample api" "Ppmd7Encoder_flush api self endmark = Some (self1, Inr out1)"
  shows "flushed self1 = flushed self \<and>
    (\<exists>self2 out2. Ppmd7Encoder_flush api self1 (Some False) = Some (self2, Inr out2))"
proof -
  obtain x where x: "OutputBuffer_InitAndGrow api (- 1) = Inr x"
    using InitAndGrow_total [of api "- 1"] assms(1) unfolding ample_def by blast
  have "ob_inv x" using InitAndGrow_spec [OF _ x] assms(1) by (auto simp: ample_def)
  then have f: "finish_result api (write_bytes bs x) = Inr (ob_data (write_bytes bs x))" for bs
    using finish_result_ample [OF assms(1)] write_bytes_spec by blast
  obtain st where s: "\<not> flushed self1" "codec self1 = Live st" "flushed self1 = flushed self"
    using assms(2) x
    by (cases "codec self") (auto simp: Ppmd7Encoder_flush_def encoder_flush_def Let_def split: if_splits bind_splits prod.splits)
  then show ?thesis using x f
    by (auto simp: Ppmd7Encoder_flush_def encoder_flush_def write_bytes_def split: prod.splits)
qed

theorem flush_never_refused_witness:
  "\<exists>self1 self2 out2. Ppmd7Encoder_flush good_api
      \<lparr>codec = Live (Ppmd7_Init model7_2048 6, \<lparr>eLow = 0, eRange = 0xFF00FF00, eCache = 0, eCacheSize = 1, eStream = []\<rparr>),
       inited = True, flushed = False\<rparr> None = Some (self1, Inr [0, 0, 0, 0, 0]) \<and>
    Ppmd7Encoder_flush good_api self1 (Some False) = Some (self2, Inr out2)"
proof -
  let ?self = "\<lparr>codec = Live (Ppmd7_Init model7_2048 6, \<lparr>eLow = 0, eRange = 0xFF00FF00, eCache = 0, eCacheSize = 1, eStream = []\<rparr>),
       inited = True, flushed = False\<rparr>"
  obtain self1 where "Ppmd7Encoder_flush good_api ?self None = Some (self1, Inr [0, 0, 0, 0, 0])"
    using flush_returns [OF good_api_ample _ _ first_flush7, of ?self]
    by (auto simp: Ppmd7Encoder_flush_def)
  then show ?thesis using flush_never_refused [OF good_api_ample] by blast
qed

end
