(* ===== verification/Unit_Tables.thy ===== *)
theory Unit_Tables
  imports Ppmd_Base
begin

text \<open>
  The tables \<^verbatim>\<open>Indx2Units\<close> and \<^verbatim>\<open>Units2Indx\<close> that both constructors build: the sizes of blocks the
  free lists hold, and for a number of units the first list whose blocks are large enough.
\<close>

section \<open>Sizes of blocks\<close>

text \<open>\<open>units_upto i\<close>: the number of units that the indices below \<open>i\<close> cover.\<close>

primrec units_upto :: "nat \<Rightarrow> nat" where
  "units_upto 0 = 0"
| "units_upto (Suc i) = units_upto i + (if 12 \<le> i then 4 else i div 4 + 1)"

lemma units_upto_small: "i \<le> 4 \<Longrightarrow> units_upto i = i"
  by (induction i) simp_all

lemma units_upto_12: "units_upto (12 + n) = 24 + 4 * n"
proof -
  have a: "i \<le> 4 \<Longrightarrow> units_upto (4 + i) = 4 + 2 * i" for i
  proof (induction i)
    case (Suc i)
    then have "(4 + i) div 4 = 1" by arith
    then show ?case using Suc unfolding add_Suc_right units_upto.simps by simp
  qed (simp add: units_upto_small)
  have b: "i \<le> 4 \<Longrightarrow> units_upto (8 + i) = 12 + 3 * i" for i
  proof (induction i)
    case 0
    then show ?case using a [of 4] by simp
  next
    case (Suc i)
    then have "(8 + i) div 4 = 2" by arith
    then show ?case using Suc unfolding add_Suc_right units_upto.simps by simp
  qed
  show ?thesis
  proof (induction n)
    case (Suc n)
    then show ?case unfolding add_Suc_right units_upto.simps by simp
  qed (use b [of 4] in simp)
qed

lemma units_upto_38: "units_upto 38 = 128"
  using units_upto_12 [of 26] by simp

lemma units_upto_mono: "i \<le> j \<Longrightarrow> units_upto i \<le> units_upto j"
  by (rule lift_Suc_mono_le [of units_upto]) simp_all

lemma units_upto_strict: "i < j \<Longrightarrow> units_upto i < units_upto j"
  by (rule lift_Suc_mono_less [of units_upto]) simp_all

lemma units_upto_step: "units_upto (Suc i) \<le> units_upto i + 4"
  using div_le_mono [of i 11 4] by (cases "12 \<le> i") simp_all

lemma units_tables_upto:
  assumes "j \<le> 38"
  shows "case fold units_round [0..<j] (0, [], []) of (k, u2i, i2u) \<Rightarrow>
    k = units_upto j \<and> length u2i = k \<and> length i2u = j \<and>
    (\<forall>i < j. unat (i2u ! i) = units_upto (Suc i)) \<and>
    (\<forall>n. 0 < n \<and> n \<le> k \<longrightarrow> (\<exists>i < j. unat (u2i ! (n - 1)) = i \<and> units_upto i < n \<and> n \<le> units_upto (Suc i)))"
  using assms
proof (induction j)
  case (Suc j)
  obtain k u2i i2u where f: "fold units_round [0..<j] (0, [], []) = (k, u2i, i2u)"
    by (cases "fold units_round [0..<j] (0, [], [])")
  have IH: "k = units_upto j" "length u2i = k" "length i2u = j"
    "\<And>i. i < j \<Longrightarrow> unat (i2u ! i) = units_upto (Suc i)"
    "\<And>n. 0 < n \<Longrightarrow> n \<le> k \<Longrightarrow> \<exists>i < j. unat (u2i ! (n - 1)) = i \<and> units_upto i < n \<and> n \<le> units_upto (Suc i)"
    using Suc f by auto
  define step where "step = (if 12 \<le> j then 4 else j div 4 + 1)"
  have k: "units_upto (Suc j) = k + step" by (simp add: IH(1) step_def)
  have "units_upto (Suc j) \<le> units_upto 38" using Suc.prems by (rule units_upto_mono)
  then have small: "k + step < 256" "j < 256" using k Suc.prems by (simp_all add: units_upto_38)
  have u: "unat (word_of_nat (k + step) :: Byte) = k + step" "unat (word_of_nat j :: Byte) = j"
    using small by (simp_all add: unat_of_nat del: of_nat_add)
  have i2u: "unat ((i2u @ [word_of_nat (k + step)]) ! i) = units_upto (Suc i)" if "i < Suc j" for i
    using that IH(3,4) u(1) k by (cases "i < j") (auto simp: nth_append less_Suc_eq)
  have u2i: "\<exists>i < Suc j. unat ((u2i @ replicate step (word_of_nat j)) ! (n - 1)) = i \<and> units_upto i < n \<and> n \<le> units_upto (Suc i)"
    if n: "0 < n" "n \<le> k + step" for n
  proof (cases "n \<le> k")
    case True
    then have "n - 1 < length u2i" using n IH(2) by simp
    then show ?thesis using IH(5) [OF n(1) True] by (auto simp: nth_append intro: less_SucI)
  next
    case False
    then have "(u2i @ replicate step (word_of_nat j)) ! (n - 1) = (word_of_nat j :: Byte)"
      using n IH(2) by (auto simp: nth_append)
    then show ?thesis using u(2) False n k IH(1) by auto
  qed
  have "fold units_round [0..<Suc j] (0, [], []) =
      (k + step, u2i @ replicate step (word_of_nat j), i2u @ [word_of_nat (k + step)])"
    using f by (simp add: units_round_def step_def Let_def)
  then show ?case using IH(2,3) i2u u2i k by (simp del: units_upto.simps)
qed auto

lemma units_tables_spec:
  shows "i < 38 \<Longrightarrow> unat (units_i2u ! i) = units_upto (Suc i)"
    and "0 < n \<Longrightarrow> n \<le> 128 \<Longrightarrow> \<exists>i < 38. unat (units_u2i ! (n - 1)) = i \<and> units_upto i < n \<and> n \<le> units_upto (Suc i)"
  using units_tables_upto [of 38]
  by (auto simp: units_i2u_def units_u2i_def units_tables_def units_upto_38 split: prod.splits simp del: units_upto.simps)

lemma I2U_eq: "tables_ok p \<Longrightarrow> i < 38 \<Longrightarrow> I2U p i = units_upto (Suc i)"
  using units_tables_spec(1) by (simp add: I2U_def tables_ok_def)

lemma U2I_spec:
  assumes "tables_ok p" "0 < n" "n \<le> 128"
  shows "U2I p n < 38" "units_upto (U2I p n) < n" "n \<le> units_upto (Suc (U2I p n))"
  using units_tables_spec(2) [OF assms(2,3)] assms(1) by (auto simp: U2I_def tables_ok_def)

lemma U2I_unique:
  assumes "tables_ok p" "units_upto i < n" "n \<le> units_upto (Suc i)" "i < 38"
  shows "U2I p n = i"
proof -
  have "n \<le> 128" using assms(3,4) units_upto_mono [of "Suc i" 38] units_upto_38 by simp
  then have s: "units_upto (U2I p n) < n" "n \<le> units_upto (Suc (U2I p n))" using U2I_spec [OF assms(1)] assms(2) by simp_all
  have "\<not> Suc (U2I p n) \<le> i" using units_upto_mono [of "Suc (U2I p n)" i] s(2) assms(2) by linarith
  moreover have "\<not> Suc i \<le> U2I p n" using units_upto_mono [of "Suc i" "U2I p n"] s(1) assms(3) by linarith
  ultimately show ?thesis by simp
qed

lemma I2U_bounds: "tables_ok p \<Longrightarrow> i < 38 \<Longrightarrow> 1 \<le> I2U p i \<and> I2U p i \<le> 128"
  using units_upto_mono [of "Suc i" 38] units_upto_38 units_upto_strict [of 0 "Suc i"]
  by (simp add: I2U_eq del: units_upto.simps)

lemma I2U_strict: "tables_ok p \<Longrightarrow> i < j \<Longrightarrow> j < 38 \<Longrightarrow> I2U p i < I2U p j"
  using units_upto_strict [of "Suc i" "Suc j"] by (simp add: I2U_eq del: units_upto.simps)

text \<open>How a block of \<open>n\<close> units that is not a block size is put into two lists.\<close>

lemma U2I_parts:
  assumes "tables_ok p" "0 < n" "n \<le> 128" "I2U p (U2I p n) \<noteq> n"
  defines "i \<equiv> U2I p n - 1" and "k \<equiv> I2U p (U2I p n - 1)"
  shows "i < 38" "0 < k" "k < n" "n - k - 1 < 38" "I2U p (n - k - 1) = n - k"
proof -
  let ?i = "U2I p n"
  note s = U2I_spec [OF assms(1-3)]
  have "n < units_upto (Suc ?i)" using s assms(1,4) by (simp add: I2U_eq del: units_upto.simps)
  then have pos: "0 < ?i" using assms(2) by (cases ?i) (auto simp: units_upto_small)
  then have k: "k = units_upto ?i" using s(1) assms(1) by (simp add: k_def I2U_eq del: units_upto.simps)
  then show "k < n" "i < 38" using s by (simp_all add: i_def)
  show "0 < k" using units_upto_strict [OF pos] by (simp add: k)
  have d: "n - k < 4" "0 < n - k"
    using s(2) units_upto_step [of ?i] \<open>n < units_upto (Suc ?i)\<close> by (simp_all add: k del: units_upto.simps)
  then show "n - k - 1 < 38" by simp
  have "Suc (n - k - 1) = n - k" "n - k \<le> 4" using d by simp_all
  then show "I2U p (n - k - 1) = n - k"
    using assms(1) \<open>n - k - 1 < 38\<close> by (simp add: I2U_eq units_upto_small del: units_upto.simps)
qed

declare units_upto.simps(2) [simp del]

end
