(* ===== verification/Suballocator.thy ===== *)
theory Suballocator
  imports Unit_Tables Ppmd7_Model Ppmd8_Model "HOL-Library.Multiset"
begin

text \<open>
  The suballocator against an abstract one.  The arena's free space is a multiset of addresses: the
  blocks of the free lists, the gap between \<^verbatim>\<open>LoUnit\<close> and \<^verbatim>\<open>HiUnit\<close>, and the room between
  \<^verbatim>\<open>Text\<close> and \<^verbatim>\<open>UnitsStart\<close>; no address is in it twice.  An allocation takes exactly the units it
  returns out of this multiset and writes to no address outside it, so that nothing in use is handed out
  again or changed; freeing puts units back.  The locale \<open>free_lists\<close> is the interface of \<^verbatim>\<open>InsertNode\<close> and
  \<^verbatim>\<open>RemoveNode\<close>, which lay their nodes out differently in \<^verbatim>\<open>Ppmd7.c\<close> and \<^verbatim>\<open>Ppmd8.c\<close>; \<open>suballocator\<close> is
  what both build on it with the same code.
\<close>

section \<open>Addresses\<close>

definition span :: "nat \<Rightarrow> nat \<Rightarrow> nat multiset" where
  "span a n = mset [a..<a + n]"

lemma count_span [simp]: "count (span a n) x = of_bool (a \<le> x \<and> x < a + n)"
  by (simp add: span_def distinct_count_atmost_1 count_mset_set flip: mset_set_upto_eq_mset_upto)

lemma in_span [simp]: "x \<in># span a n \<longleftrightarrow> a \<le> x \<and> x < a + n"
  by (simp add: span_def)

lemma span_0 [simp]: "span a 0 = {#}"
  by (simp add: span_def)

lemma span_add: "span a (n + k) = span a n + span (a + n) k"
  by (rule multiset_eqI) auto

lemma span_split: "k \<le> n \<Longrightarrow> span a n = span a k + span (a + k) (n - k)"
  using span_add [of a k "n - k"] by simp

section \<open>The heap\<close>

text \<open>The nodes of a linked list from reference \<open>r\<close> on; \<open>off\<close> is where a node has its link.\<close>

primrec free_chain :: "nat \<Rightarrow> arena \<Rightarrow> UInt32 \<Rightarrow> nat list \<Rightarrow> bool" where
  "free_chain off m r [] \<longleftrightarrow> r = 0"
| "free_chain off m r (n # ns) \<longleftrightarrow> r \<noteq> 0 \<and> n = GetPtr r \<and> free_chain off m (rd32 m (n + off)) ns"

text \<open>Where the two models have the link of a node, and what else they keep in it: PPMd8 marks a free
  block with a stamp and its number of units.\<close>

datatype variant = PPMd7 | PPMd8

primrec link_off :: "variant \<Rightarrow> nat" where
  "link_off PPMd7 = 0"
| "link_off PPMd8 = 4"

primrec node_good :: "variant \<Rightarrow> arena \<Rightarrow> nat \<Rightarrow> nat \<Rightarrow> bool" where
  "node_good PPMd7 m n nu \<longleftrightarrow> True"
| "node_good PPMd8 m n nu \<longleftrightarrow> nStamp8 m n = EMPTY_NODE \<and> nNU8 m n = word_of_nat nu"

lemma link_off: "link_off v \<le> 8"
  by (cases v) simp_all

lemma node_good_frame:
  assumes "node_good v m n nu" "\<And>x. n \<le> x \<Longrightarrow> x < n + 12 \<Longrightarrow> m' x = m x"
  shows "node_good v m' n nu"
proof -
  have "rd32 m' n = rd32 m n" "rd32 m' (n + 8) = rd32 m (n + 8)" using assms(2) by (auto intro!: rd32_cong)
  then show ?thesis using assms(1) by (cases v) (auto simp: nStamp8_def nNU8_def)
qed

definition blocks :: "'a ppmd_scheme \<Rightarrow> (nat \<Rightarrow> nat list) \<Rightarrow> nat multiset" where
  "blocks p F = (\<Sum>i<38. \<Sum>n\<leftarrow>F i. span n (U2B (I2U p i)))"

definition free_space :: "'a ppmd_scheme \<Rightarrow> (nat \<Rightarrow> nat list) \<Rightarrow> nat multiset" where
  "free_space p F = blocks p F + span (LoUnit p) (HiUnit p - LoUnit p) + span (Text p) (UnitsStart p - Text p)"

text \<open>\<open>heap_ok v p F\<close>: the free lists of \<open>p\<close> are the lists \<open>F\<close>, and no address is free twice.\<close>

definition heap_ok :: "variant \<Rightarrow> 'a ppmd_scheme \<Rightarrow> (nat \<Rightarrow> nat list) \<Rightarrow> bool" where
  "heap_ok v p F \<longleftrightarrow> tables_ok p \<and> 0 < Text p \<and> Text p \<le> UnitsStart p \<and> UnitsStart p \<le> LoUnit p \<and>
     LoUnit p \<le> HiUnit p \<and> HiUnit p \<le> arena_top p \<and> arena_top p < 2 ^ 32 \<and> 12 dvd HiUnit p - LoUnit p \<and>
     (\<forall>i < 38. free_chain (link_off v) (mem p) (FreeList p i) (F i)) \<and>
     (\<forall>i < 38. \<forall>n \<in> set (F i). node_good v (mem p) n (I2U p i)) \<and>
     (\<forall>x. count (free_space p F) x \<le> 1) \<and>
     (\<forall>x \<in># blocks p F. UnitsStart p \<le> x \<and> x < arena_top p)"

text \<open>A block that is not free and can be put back.\<close>

definition room_for :: "'a ppmd_scheme \<Rightarrow> (nat \<Rightarrow> nat list) \<Rightarrow> nat \<Rightarrow> nat \<Rightarrow> bool" where
  "room_for p F a k \<longleftrightarrow> (\<forall>x. count (free_space p F + span a k) x \<le> 1) \<and> UnitsStart p \<le> a \<and> a + k \<le> arena_top p"

text \<open>What the suballocator leaves alone: all of the model but its own fields.\<close>

definition same_model :: "'a ppmd_scheme \<Rightarrow> 'a ppmd_scheme \<Rightarrow> bool" where
  "same_model p p' \<longleftrightarrow> ppmd.truncate p' = (ppmd.truncate p)\<lparr>mem := mem p', FreeList := FreeList p',
     LoUnit := LoUnit p', HiUnit := HiUnit p', UnitsStart := UnitsStart p', GlueCount := GlueCount p'\<rparr>"

definition regions :: "'a ppmd_scheme \<Rightarrow> nat \<times> nat \<times> nat" where
  "regions p = (UnitsStart p, LoUnit p, HiUnit p)"

lemma same_model_refl: "same_model p p"
  by (simp add: same_model_def ppmd.truncate_def)

lemma same_model_trans: "same_model p q \<Longrightarrow> same_model q r \<Longrightarrow> same_model p r"
  by (simp add: same_model_def)

lemma same_modelD:
  assumes "same_model p p'"
  shows "Text p' = Text p" "arena_top p' = arena_top p" "tables_ok p' = tables_ok p" "I2U p' = I2U p" "U2I p' = U2I p"
    "AlignOffset p' = AlignOffset p" "Size p' = Size p"
  using assms by (simp_all add: same_model_def ppmd.truncate_def arena_top_def tables_ok_def fun_eq_iff I2U_def U2I_def)

lemma same_regionsD:
  assumes "same_model p p'" "regions p' = regions p"
  shows "free_space p' F = free_space p F" "blocks p' F = blocks p F" "UnitsStart p' = UnitsStart p"
    "LoUnit p' = LoUnit p" "HiUnit p' = HiUnit p"
  using same_modelD [OF assms(1)] assms(2) by (simp_all add: regions_def free_space_def blocks_def)

subsection \<open>Changing one list\<close>

lemma blocks_upd:
  assumes "i < 38"
  shows "blocks p (F(i := n # ns)) = span n (U2B (I2U p i)) + blocks p (F(i := ns))"
proof -
  have "blocks p (F(i := l)) = (\<Sum>n\<leftarrow>l. span n (U2B (I2U p i))) + (\<Sum>j\<in>{..<38} - {i}. \<Sum>n\<leftarrow>F j. span n (U2B (I2U p j)))" for l
    unfolding blocks_def using assms by (subst sum.remove [of _ i]) auto
  then show ?thesis by (simp add: ac_simps)
qed

lemma free_space_upd:
  "i < 38 \<Longrightarrow> free_space p (F(i := n # ns)) = span n (U2B (I2U p i)) + free_space p (F(i := ns))"
  by (simp add: free_space_def blocks_upd ac_simps)

lemma in_blocks: "x \<in># blocks p F \<longleftrightarrow> (\<exists>i < 38. \<exists>n \<in> set (F i). n \<le> x \<and> x < n + U2B (I2U p i))"
  by (auto simp: blocks_def set_mset_sum)

lemma free_chain_frame:
  "free_chain off m r ns \<Longrightarrow> \<forall>n \<in> set ns. \<forall>x. n + off \<le> x \<and> x < n + off + 4 \<longrightarrow> m' x = m x \<Longrightarrow> free_chain off m' r ns"
proof (induction ns arbitrary: r)
  case (Cons n ns)
  then have "rd32 m' (n + off) = rd32 m (n + off)" by (intro rd32_cong) auto
  then show ?case using Cons by auto
qed simp

lemma block_min: "tables_ok p \<Longrightarrow> i < 38 \<Longrightarrow> 12 \<le> U2B (I2U p i)"
  using I2U_bounds [of p i] by (simp add: U2B_def UNIT_SIZE_def)

lemma block_max: "tables_ok p \<Longrightarrow> i < 38 \<Longrightarrow> U2B (I2U p i) \<le> 1536"
  using I2U_bounds [of p i] by (simp add: U2B_def UNIT_SIZE_def)

text \<open>Writes outside the free blocks leave the free lists as they are.\<close>

lemma heap_frame:
  assumes "heap_ok v p F" "same_model p p'" "regions p' = regions p"
    and "\<And>i. i < 38 \<Longrightarrow> FreeList p' i = FreeList p i"
    and "\<And>x. x \<in># blocks p F \<Longrightarrow> mem p' x = mem p x"
  shows "heap_ok v p' F"
proof -
  note d = same_modelD [OF assms(2)] same_regionsD [OF assms(2,3)]
  have m: "mem p' x = mem p x" if "i < 38" "n \<in> set (F i)" "n \<le> x" "x < n + 12" for i n x
    using that assms(1) block_min [of p i]
    by (intro assms(5)) (auto simp: in_blocks heap_ok_def intro!: exI [of _ i] bexI [of _ n])
  have "free_chain (link_off v) (mem p') (FreeList p' i) (F i)" if i: "i < 38" for i
  proof -
    have c: "free_chain (link_off v) (mem p) (FreeList p i) (F i)" using assms(1) i by (auto simp: heap_ok_def)
    then show ?thesis using free_chain_frame [OF c, of "mem p'"] m [OF i] assms(4) [OF i] link_off [of v] by auto
  qed
  moreover have "\<forall>i < 38. \<forall>n \<in> set (F i). node_good v (mem p') n (I2U p i)"
  proof (intro allI impI ballI)
    fix i n assume n: "i < 38" "n \<in> set (F i)"
    then have "node_good v (mem p) n (I2U p i)" using assms(1) by (simp add: heap_ok_def)
    then show "node_good v (mem p') n (I2U p i)" by (rule node_good_frame) (rule m [OF n])
  qed
  ultimately show ?thesis using assms(1) by (simp add: heap_ok_def d)
qed

lemma free_once: "heap_ok v p F \<Longrightarrow> count (free_space p F) x \<le> 1"
  by (simp add: heap_ok_def)

text \<open>A block that is put back is not in the lists yet.\<close>

lemma room_apart:
  assumes "room_for p F a k" "a \<le> x" "x < a + k"
  shows "x \<notin># free_space p F" "x \<notin># blocks p F"
proof -
  have "count (free_space p F) x + 1 \<le> 1"
    using assms by (auto simp: room_for_def dest!: spec [of _ x])
  then show "x \<notin># free_space p F" by (simp add: not_in_iff)
  then show "x \<notin># blocks p F" by (simp add: free_space_def)
qed

section \<open>Taking and giving back\<close>

definition takes :: "variant \<Rightarrow> 'a ppmd_scheme \<Rightarrow> (nat \<Rightarrow> nat list) \<Rightarrow> 'a ppmd_scheme \<Rightarrow> (nat \<Rightarrow> nat list) \<Rightarrow> nat \<Rightarrow> nat \<Rightarrow> bool" where
  "takes v p F p' F' a k \<longleftrightarrow> heap_ok v p' F' \<and> free_space p F = free_space p' F' + span a k \<and> room_for p' F' a k \<and>
     same_model p p' \<and> (\<forall>x < arena_top p. x \<notin># free_space p F \<longrightarrow> mem p' x = mem p x) \<and>
     blocks p' F' \<subseteq># blocks p F \<and> LoUnit p \<le> LoUnit p' \<and> HiUnit p' \<le> HiUnit p \<and> UnitsStart p' \<le> UnitsStart p"

definition gives :: "variant \<Rightarrow> 'a ppmd_scheme \<Rightarrow> (nat \<Rightarrow> nat list) \<Rightarrow> 'a ppmd_scheme \<Rightarrow> (nat \<Rightarrow> nat list) \<Rightarrow> nat \<Rightarrow> nat \<Rightarrow> bool" where
  "gives v p F p' F' a k \<longleftrightarrow> heap_ok v p' F' \<and> free_space p' F' = free_space p F + span a k \<and>
     same_model p p' \<and> regions p' = regions p \<and> GlueCount p' = GlueCount p \<and>
     (\<forall>x. x < a \<or> a + k \<le> x \<longrightarrow> mem p' x = mem p x)"

lemma gives_room:
  assumes "room_for p F a (k + l)" "gives v p F p' F' (a + k) l"
  shows "room_for p' F' a k"
proof -
  have e: "free_space p' F' + span a k = free_space p F + span a (k + l)"
    using assms(2) by (simp add: gives_def span_add ac_simps)
  have "UnitsStart p' = UnitsStart p" "arena_top p' = arena_top p"
    using assms(2) same_modelD(2) by (auto simp: gives_def regions_def)
  then show ?thesis using assms(1) unfolding room_for_def e by simp
qed

lemma gives_join:
  "gives v p F p1 F1 (a + k) l \<Longrightarrow> gives v p1 F1 p' F' a k \<Longrightarrow> gives v p F p' F' a (k + l)"
  by (auto simp: gives_def span_add ac_simps intro: same_model_trans)

text \<open>The same, with the first part put back first.\<close>

lemma gives_room_first:
  assumes "room_for p F a (k + l)" "gives v p F p' F' a k"
  shows "room_for p' F' (a + k) l"
proof -
  have e: "free_space p' F' + span (a + k) l = free_space p F + span a (k + l)"
    using assms(2) by (simp add: gives_def span_add ac_simps)
  have "UnitsStart p' = UnitsStart p" "arena_top p' = arena_top p"
    using assms(2) same_modelD(2) by (auto simp: gives_def regions_def)
  then show ?thesis using assms(1) unfolding room_for_def e by simp
qed

lemma gives_join_first:
  "gives v p F p1 F1 a k \<Longrightarrow> gives v p1 F1 p' F' (a + k) l \<Longrightarrow> gives v p F p' F' a (k + l)"
  by (auto simp: gives_def span_add ac_simps intro: same_model_trans)

lemma room_for_first: "room_for p F a (k + l) \<Longrightarrow> room_for p F a k"
proof -
  assume r: "room_for p F a (k + l)"
  have "count (free_space p F + span a k) x \<le> count (free_space p F + span a (k + l)) x" for x
    by simp
  then show ?thesis using r unfolding room_for_def by (meson order_trans le_add1 add_le_cancel_left)
qed

lemma room_for_part: "room_for p F a (k + l) \<Longrightarrow> room_for p F (a + k) l"
proof -
  assume r: "room_for p F a (k + l)"
  have "count (free_space p F + span (a + k) l) x \<le> count (free_space p F + span a (k + l)) x" for x
    by simp
  then show ?thesis using r unfolding room_for_def by (meson add_increasing2 order_trans le_add1 add.assoc [THEN eq_refl] zero_le)
qed

lemma takes_part:
  assumes "takes v p F p1 F1 a (k + l)" "regions p1 = regions p" "gives v p1 F1 p' F' (a + k) l"
  shows "takes v p F p' F' a k"
proof -
  have r: "room_for p' F' a k" using assms gives_room unfolding takes_def by blast
  have fr: "mem p' x = mem p x" if "x < arena_top p" "x \<notin># free_space p F" for x
  proof -
    have "x \<notin># span a (k + l)" using that assms(1) by (auto simp: takes_def)
    then show ?thesis using that assms by (auto simp: takes_def gives_def)
  qed
  have same: "same_model p p1" "same_model p1 p'" "regions p' = regions p" using assms by (auto simp: takes_def gives_def)
  have f: "free_space p F = free_space p' F' + span a k"
    using assms by (simp add: takes_def gives_def span_add ac_simps)
  then have "blocks p F = blocks p' F' + span a k"
    using same_modelD(1) [OF same_model_trans [OF same(1,2)]] same(3) by (simp add: free_space_def regions_def ac_simps)
  then have "blocks p' F' \<subseteq># blocks p F" by simp
  then show ?thesis
    using assms(1,3) r fr f same(3) same_model_trans [OF same(1,2)] by (auto simp: takes_def gives_def regions_def)
qed

text \<open>What \<^verbatim>\<open>SplitBlock\<close> and the last pass of \<^verbatim>\<open>GlueFreeBlocks\<close> do with a block of \<open>nu\<close> units: one list
  has such blocks, or it is cut into two blocks that have lists.\<close>

definition put_units ::
    "('a ppmd_scheme \<Rightarrow> nat \<Rightarrow> nat \<Rightarrow> 'a ppmd_scheme) \<Rightarrow> 'a ppmd_scheme \<Rightarrow> nat \<Rightarrow> nat \<Rightarrow> 'a ppmd_scheme" where
  "put_units ins p a nu =
     (let i = U2I p nu
      in if I2U p i \<noteq> nu
         then let i = i - 1; k = I2U p i; p = ins p (a + U2B k) (nu - k - 1) in ins p a i
         else ins p a i)"

section \<open>\<open>InsertNode\<close> and \<open>RemoveNode\<close>\<close>

locale free_lists =
  fixes v :: variant and ins :: "'a ppmd_scheme \<Rightarrow> nat \<Rightarrow> nat \<Rightarrow> 'a ppmd_scheme" and
    rem :: "'a ppmd_scheme \<Rightarrow> nat \<Rightarrow> nat \<times> 'a ppmd_scheme"
  assumes ins_same: "same_model p (ins p n i)" "regions (ins p n i) = regions p" "GlueCount (ins p n i) = GlueCount p"
    and ins_head: "FreeList (ins p n i) = (FreeList p)(i := REF n)"
    and ins_link: "rd32 (mem (ins p n i)) (n + link_off v) = FreeList p i"
    and ins_good: "node_good v (mem (ins p n i)) n (I2U p i)"
    and ins_frame: "x < n \<or> n + 12 \<le> x \<Longrightarrow> mem (ins p n i) x = mem p x"
    and rem_node: "fst (rem p i) = GetPtr (FreeList p i)"
    and rem_same: "same_model p (snd (rem p i))" "regions (snd (rem p i)) = regions p" "GlueCount (snd (rem p i)) = GlueCount p"
    and rem_head: "FreeList (snd (rem p i)) = (FreeList p)(i := rd32 (mem p) (GetPtr (FreeList p i) + link_off v))"
    and rem_mem: "mem (snd (rem p i)) = mem p"
begin

lemma insert_heap:
  assumes "heap_ok v p F" "i < 38" "room_for p F n (U2B (I2U p i))"
  shows "heap_ok v (ins p n i) (F(i := n # F i))"
    and "free_space (ins p n i) (F(i := n # F i)) = free_space p F + span n (U2B (I2U p i))"
proof -
  let ?p = "ins p n i" and ?k = "U2B (I2U p i)"
  note s = ins_same [of p n i]
  note d = same_modelD [OF s(1)] same_regionsD [OF s(1,2)]
  have t: "tables_ok p" using assms(1) by (simp add: heap_ok_def)
  have k: "12 \<le> ?k" by (rule block_min [OF t assms(2)])
  show sp: "free_space ?p (F(i := n # F i)) = free_space p F + span n ?k"
    by (simp add: d free_space_upd [OF assms(2)])
  have n: "0 < n" "n < 2 ^ 32" using assms(1,3) k by (auto simp: heap_ok_def room_for_def)
  have r: "REF n \<noteq> 0" "GetPtr (REF n) = n"
    using GetPtr_REF [OF n(2)] n(1) by (auto simp: GetPtr_def)
  have off_blocks: "mem ?p x = mem p x" if "x \<in># blocks p F" for x
    using room_apart(2) [OF assms(3), of x] that k by (intro ins_frame) force
  have chain: "free_chain (link_off v) (mem ?p) (FreeList p j) (F j)" if j: "j < 38" for j
  proof (rule free_chain_frame)
    show "free_chain (link_off v) (mem p) (FreeList p j) (F j)" using assms(1) j by (simp add: heap_ok_def)
    show "\<forall>n' \<in> set (F j). \<forall>x. n' + link_off v \<le> x \<and> x < n' + link_off v + 4 \<longrightarrow> mem ?p x = mem p x"
    proof (intro ballI allI impI off_blocks)
      fix n' x assume "n' \<in> set (F j)" "n' + link_off v \<le> x \<and> x < n' + link_off v + 4"
      then show "x \<in># blocks p F"
        using link_off [of v] block_min [OF t j] j by (auto simp: in_blocks intro!: exI [of _ j] bexI [of _ n'])
    qed
  qed
  have old: "node_good v (mem ?p) n' (I2U p j)" if j: "j < 38" "n' \<in> set (F j)" for j n'
  proof (rule node_good_frame)
    show "node_good v (mem p) n' (I2U p j)" using assms(1) j by (simp add: heap_ok_def)
    show "mem ?p x = mem p x" if "n' \<le> x" "x < n' + 12" for x
      using that j block_min [OF t j(1)] by (intro off_blocks) (auto simp: in_blocks intro!: exI [of _ j] bexI [of _ n'])
  qed
  then have "\<forall>j < 38. \<forall>n' \<in> set ((F(i := n # F i)) j). node_good v (mem ?p) n' (I2U p j)"
    using ins_good by auto
  moreover have "\<forall>j < 38. free_chain (link_off v) (mem ?p) (FreeList ?p j) ((F(i := n # F i)) j)"
    using chain r by (auto simp: ins_head ins_link)
  moreover have "UnitsStart p \<le> x \<and> x < arena_top p" if "x \<in># blocks ?p (F(i := n # F i))" for x
    using that assms(1,3) by (auto simp: d blocks_upd [OF assms(2)] heap_ok_def room_for_def)
  ultimately show "heap_ok v ?p (F(i := n # F i))"
    using assms(1,3) sp by (auto simp: heap_ok_def d room_for_def)
qed

lemma remove_heap:
  assumes "heap_ok v p F" "i < 38" "FreeList p i \<noteq> 0"
  obtains n ns where "F i = n # ns" "rem p i = (n, snd (rem p i))" "heap_ok v (snd (rem p i)) (F(i := ns))"
    "free_space p F = free_space (snd (rem p i)) (F(i := ns)) + span n (U2B (I2U p i))"
    "room_for (snd (rem p i)) (F(i := ns)) n (U2B (I2U p i))"
proof -
  let ?p = "snd (rem p i)"
  note s = rem_same [of p i]
  note d = same_modelD [OF s(1)] same_regionsD [OF s(1,2)]
  have c: "free_chain (link_off v) (mem p) (FreeList p i) (F i)" "tables_ok p" using assms(1,2) by (auto simp: heap_ok_def)
  then obtain n ns where F: "F i = n # ns" using assms(3) by (cases "F i") auto
  then have n: "n = GetPtr (FreeList p i)" and ns: "free_chain (link_off v) (mem p) (rd32 (mem p) (n + link_off v)) ns" using c by auto
  have FF: "F(i := n # ns) = F" using F by auto
  have sp: "free_space p F = free_space ?p (F(i := ns)) + span n (U2B (I2U p i))"
    using free_space_upd [OF assms(2), of p F n ns] by (simp add: FF d)
  have b: "blocks p F = span n (U2B (I2U p i)) + blocks p (F(i := ns))"
    using blocks_upd [OF assms(2), of p F n ns] by (simp add: FF)
  have in_b: "UnitsStart p \<le> x \<and> x < arena_top p" if "n \<le> x" "x < n + U2B (I2U p i)" for x
    using assms(1) b that by (auto simp: heap_ok_def)
  have ch: "\<forall>j < 38. free_chain (link_off v) (mem ?p) (FreeList ?p j) ((F(i := ns)) j)"
    using assms(1) ns n by (auto simp: heap_ok_def rem_head rem_mem)
  have good: "\<forall>j < 38. \<forall>n' \<in> set ((F(i := ns)) j). node_good v (mem ?p) n' (I2U p j)"
    using assms(1) F by (auto simp: heap_ok_def rem_mem)
  have once: "count (free_space ?p (F(i := ns))) x \<le> 1" for x
    using free_once [OF assms(1), of x] by (simp add: sp)
  have h: "heap_ok v ?p (F(i := ns))"
    using assms(1) ch good once by (auto simp: heap_ok_def d b)
  have k: "12 \<le> U2B (I2U p i)" by (rule block_min [OF c(2) assms(2)])
  have "n + U2B (I2U p i) - 1 < arena_top p" "UnitsStart p \<le> n"
    using in_b [of n] in_b [of "n + U2B (I2U p i) - 1"] k by auto
  moreover have "\<forall>x. count (free_space ?p (F(i := ns)) + span n (U2B (I2U p i))) x \<le> 1"
    using free_once [OF assms(1)] unfolding sp by blast
  ultimately have "room_for ?p (F(i := ns)) n (U2B (I2U p i))"
    unfolding room_for_def d by simp
  then show thesis using that [OF F _ h sp] by (simp add: n rem_node prod_eq_iff)
qed

lemma insert_gives:
  assumes "heap_ok v p F" "i < 38" "room_for p F n (U2B (I2U p i))"
  shows "gives v p F (ins p n i) (F(i := n # F i)) n (U2B (I2U p i))"
proof -
  have "12 \<le> U2B (I2U p i)" using assms by (intro block_min) (auto simp: heap_ok_def)
  then show ?thesis using insert_heap [OF assms] ins_same ins_frame by (auto simp: gives_def)
qed

lemma put_gives:
  assumes "heap_ok v p F" "0 < nu" "nu \<le> 128" "room_for p F a (U2B nu)"
  obtains F' where "gives v p F (put_units ins p a nu) F' a (U2B nu)"
proof -
  let ?i = "U2I p nu"
  have t: "tables_ok p" using assms(1) by (simp add: heap_ok_def)
  show thesis
  proof (cases "I2U p ?i = nu")
    case True
    then have "gives v p F (put_units ins p a nu) (F(?i := a # F ?i)) a (U2B nu)"
      using insert_gives [OF assms(1) U2I_spec(1) [OF t assms(2,3)]] assms(4) by (simp add: put_units_def Let_def)
    then show thesis by (rule that)
  next
    case False
    define i where "i = ?i - 1"
    define k where "k = I2U p i"
    note u = U2I_parts [OF t assms(2,3) False, folded i_def, folded k_def]
    define j where "j = nu - k - 1"
    let ?p = "ins p (a + U2B k) j" and ?F = "F(j := (a + U2B k) # F j)"
    have nu: "U2B nu = U2B k + U2B (nu - k)" using u(3) by (simp add: U2B_def flip: add_mult_distrib)
    have g1: "gives v p F ?p ?F (a + U2B k) (U2B (nu - k))"
      using insert_gives [OF assms(1) u(4), of "a + U2B k"] room_for_part [of p F a "U2B k" "U2B (nu - k)"] assms(4)
      unfolding nu u(5) j_def by blast
    then have h: "heap_ok v ?p ?F" and d: "I2U ?p = I2U p" using same_modelD(4) by (auto simp: gives_def)
    have "room_for ?p ?F a (U2B k)" using gives_room [OF _ g1] assms(4) unfolding nu by blast
    then have "gives v ?p ?F (ins ?p a i) (?F(i := a # ?F i)) a (U2B k)"
      using insert_gives [OF h u(1), of a] unfolding d k_def [symmetric] by blast
    from gives_join [OF g1 this] have "gives v p F (ins ?p a i) (?F(i := a # ?F i)) a (U2B nu)"
      unfolding nu .
    moreover have "put_units ins p a nu = ins ?p a i"
      using False by (simp add: put_units_def Let_def k_def i_def j_def)
    ultimately show thesis using that by metis
  qed
qed

lemma remove_takes:
  assumes "heap_ok v p F" "i < 38" "FreeList p i \<noteq> 0"
  obtains n F' where "rem p i = (n, snd (rem p i))" "takes v p F (snd (rem p i)) F' n (U2B (I2U p i))"
proof (rule remove_heap [OF assms])
  fix n ns
  assume a: "rem p i = (n, snd (rem p i))" "heap_ok v (snd (rem p i)) (F(i := ns))"
    "free_space p F = free_space (snd (rem p i)) (F(i := ns)) + span n (U2B (I2U p i))"
    "room_for (snd (rem p i)) (F(i := ns)) n (U2B (I2U p i))"
  note d = same_modelD [OF rem_same(1)] same_regionsD [OF rem_same(1,2)]
  have "blocks (snd (rem p i)) (F(i := ns)) \<subseteq># blocks p F"
    using a(3) by (simp add: d free_space_def)
  then show thesis using a that [of n "F(i := ns)"] by (simp add: takes_def rem_same rem_mem d)
qed

end

text \<open>A block of more than 128 units is cut, as the last pass of \<^verbatim>\<open>GlueFreeBlocks\<close> does.\<close>

locale free_units = free_lists v ins rem
  for v :: variant and ins :: "'a ppmd_scheme \<Rightarrow> nat \<Rightarrow> nat \<Rightarrow> 'a ppmd_scheme" and rem +
  fixes cut :: "'a ppmd_scheme \<Rightarrow> nat \<Rightarrow> nat \<Rightarrow> 'a ppmd_scheme \<times> nat \<times> nat"
  assumes cut_eq: "cut p n nu = (if 128 < nu then cut (ins p n 37) (n + U2B 128) (nu - 128) else (p, n, nu))"
begin

lemma cut_gives:
  assumes "heap_ok v p F" "0 < nu" "room_for p F a (U2B nu)"
  obtains F' where "gives v p F (case cut p a nu of (q, b, l) \<Rightarrow> put_units ins q b l) F' a (U2B nu)"
proof -
  have "\<exists>F'. gives v p F (case cut p a nu of (q, b, l) \<Rightarrow> put_units ins q b l) F' a (U2B nu)"
    using assms
  proof (induction nu arbitrary: p a F rule: less_induct)
    case (less nu)
    show ?case
    proof (cases "128 < nu")
      case True
      let ?p = "ins p a 37" and ?F = "F(37 := a # F 37)"
      have t: "I2U p 37 = 128" using less.prems(1) by (simp add: heap_ok_def tables_ok_def I2U_def units_i2u_eq)
      have nu: "U2B nu = U2B 128 + U2B (nu - 128)" using True by (simp add: U2B_def flip: add_mult_distrib)
      have r: "room_for p F a (U2B (I2U p 37))"
        using less.prems(3) room_for_first unfolding nu t by blast
      have g: "gives v p F ?p ?F a (U2B 128)"
        using insert_gives [OF less.prems(1) _ r] unfolding t by simp
      then have "heap_ok v ?p ?F" by (simp add: gives_def)
      moreover have "room_for ?p ?F (a + U2B 128) (U2B (nu - 128))"
        using gives_room_first [OF _ g] less.prems(3) unfolding nu by blast
      ultimately obtain F' where
        "gives v ?p ?F (case cut ?p (a + U2B 128) (nu - 128) of (q, b, l) \<Rightarrow> put_units ins q b l) F' (a + U2B 128) (U2B (nu - 128))"
        using less.IH [of "nu - 128" ?p ?F "a + U2B 128"] True by (metis diff_less zero_less_numeral less_trans zero_less_diff)
      from gives_join_first [OF g this] have
        "gives v p F (case cut ?p (a + U2B 128) (nu - 128) of (q, b, l) \<Rightarrow> put_units ins q b l) F' a (U2B nu)"
        unfolding nu .
      then show ?thesis using True by (subst cut_eq) auto
    next
      case False
      then show ?thesis using put_gives [OF less.prems(1,2) _ less.prems(3)] by (subst cut_eq) auto
    qed
  qed
  then show thesis using that by blast
qed

end

section \<open>Merging neighbours\<close>

text \<open>
  What glueing works on: a set \<open>N\<close> of free blocks, block \<open>n\<close> with \<open>\<nu> n\<close> units.  Where a block ends,
  another begins, or the code can see that none does (\<open>stop\<close>).
\<close>

definition pool_space :: "nat set \<Rightarrow> (nat \<Rightarrow> nat) \<Rightarrow> nat multiset" where
  "pool_space N \<nu> = (\<Sum>n\<in>N. span n (U2B (\<nu> n)))"

definition pool_ok :: "(nat \<Rightarrow> bool) \<Rightarrow> nat set \<Rightarrow> (nat \<Rightarrow> nat) \<Rightarrow> bool" where
  "pool_ok stop N \<nu> \<longleftrightarrow> finite N \<and> (\<forall>n \<in> N. 0 < \<nu> n) \<and> (\<forall>x. count (pool_space N \<nu>) x \<le> 1) \<and>
     (\<forall>n \<in> N. n + U2B (\<nu> n) \<in> N \<or> stop (n + U2B (\<nu> n)))"

lemma pool_cong:
  assumes "\<And>n. n \<in> N \<Longrightarrow> \<nu> n = \<nu>' n"
  shows "pool_space N \<nu> = pool_space N \<nu>'" "pool_ok stop N \<nu> = pool_ok stop N \<nu>'"
proof -
  show "pool_space N \<nu> = pool_space N \<nu>'" unfolding pool_space_def using assms by (intro sum.cong) auto
  then show "pool_ok stop N \<nu> = pool_ok stop N \<nu>'" using assms by (simp add: pool_ok_def)
qed

lemma pool_apart:
  assumes "pool_ok stop N \<nu>" "n \<in> N" "e \<in> N" "n \<noteq> e"
  shows "n + U2B (\<nu> n) \<le> e \<or> e + U2B (\<nu> e) \<le> n"
proof (rule ccontr)
  assume "\<not> ?thesis"
  then have x: "max n e < n + U2B (\<nu> n)" "max n e < e + U2B (\<nu> e)"
    using assms by (auto simp: pool_ok_def U2B_def UNIT_SIZE_def)
  have "pool_space N \<nu> = span n (U2B (\<nu> n)) + (span e (U2B (\<nu> e)) + (\<Sum>m\<in>N - {n} - {e}. span m (U2B (\<nu> m))))"
    unfolding pool_space_def using assms by (subst sum.remove [of N n], simp add: pool_ok_def, simp)
      (subst sum.remove [of _ e], auto simp: pool_ok_def)
  then have "2 \<le> count (pool_space N \<nu>) (max n e)" using x by simp
  then show False using assms(1) unfolding pool_ok_def by (metis Suc_1 not_less_eq_eq One_nat_def)
qed

lemma pool_merge:
  assumes ok: "pool_ok stop N \<nu>" and n: "n \<in> N" and e: "e = n + U2B (\<nu> n)" "e \<in> N"
  defines "\<nu>' \<equiv> \<nu>(n := \<nu> n + \<nu> e)"
  shows "pool_space (N - {e}) \<nu>' = pool_space N \<nu>" "pool_ok stop (N - {e}) \<nu>'"
proof -
  have fin: "finite N" and pos: "\<And>x. x \<in> N \<Longrightarrow> 0 < \<nu> x" using ok by (auto simp: pool_ok_def)
  have ne: "n \<noteq> e" "U2B (\<nu> n) \<noteq> 0" "U2B (\<nu> e) \<noteq> 0" using pos n e by (auto simp: U2B_def UNIT_SIZE_def)
  have add: "U2B (\<nu> n + \<nu> e) = U2B (\<nu> n) + U2B (\<nu> e)" by (simp add: U2B_def add_mult_distrib)
  have part: "span n (U2B (\<nu>' n)) = span n (U2B (\<nu> n)) + span e (U2B (\<nu> e))"
    by (simp add: \<nu>'_def add span_add flip: e(1))
  have "pool_space N \<nu> = span e (U2B (\<nu> e)) + pool_space (N - {e}) \<nu>"
    unfolding pool_space_def by (rule sum.remove [OF fin e(2)])
  also have "pool_space (N - {e}) \<nu> = span n (U2B (\<nu> n)) + pool_space (N - {e} - {n}) \<nu>"
    unfolding pool_space_def using fin n ne by (intro sum.remove) auto
  also have "pool_space (N - {e} - {n}) \<nu> = pool_space (N - {e} - {n}) \<nu>'"
    unfolding pool_space_def \<nu>'_def by (rule sum.cong) auto
  also have "span e (U2B (\<nu> e)) + (span n (U2B (\<nu> n)) + pool_space (N - {e} - {n}) \<nu>') =
      span n (U2B (\<nu>' n)) + pool_space (N - {e} - {n}) \<nu>'"
    by (simp add: part ac_simps)
  also have "\<dots> = pool_space (N - {e}) \<nu>'"
    unfolding pool_space_def using fin n ne by (intro sum.remove [symmetric]) auto
  finally show sp: "pool_space (N - {e}) \<nu>' = pool_space N \<nu>" by simp
  have "x + U2B (\<nu>' x) \<in> N - {e} \<or> stop (x + U2B (\<nu>' x))" if x: "x \<in> N - {e}" for x
  proof (cases "x = n")
    case True
    then have "x + U2B (\<nu>' x) = e + U2B (\<nu> e)"
      unfolding True \<nu>'_def fun_upd_same add using e(1) by simp
    then show ?thesis using ok e(2) ne(3) by (auto simp: pool_ok_def)
  next
    case False
    have "x + U2B (\<nu> x) \<noteq> e"
      using pool_apart [OF ok, of x n] False x n e(1) ne(2) pos [of x] by (auto simp: U2B_def UNIT_SIZE_def)
    then show ?thesis using ok x False by (auto simp: pool_ok_def \<nu>'_def)
  qed
  then show "pool_ok stop (N - {e}) \<nu>'"
    using ok sp fin pos by (auto simp: pool_ok_def \<nu>'_def)
qed

text \<open>Nodes that do not overlap.\<close>

definition apart :: "nat \<Rightarrow> nat \<Rightarrow> bool" where
  "apart x y \<longleftrightarrow> x + 12 \<le> y \<or> y + 12 \<le> x"

lemma apart_sym: "apart x y \<longleftrightarrow> apart y x"
  by (auto simp: apart_def)

lemma apart_neq: "apart x y \<Longrightarrow> x \<noteq> y"
  by (auto simp: apart_def)

lemma apart_irrefl [simp]: "\<not> apart x x"
  by (simp add: apart_def)

lemma apart_distinct: "sorted_wrt apart xs \<Longrightarrow> distinct xs"
  by (induction xs) (auto dest: apart_neq)

lemma apart_pairs: "sorted_wrt apart xs \<Longrightarrow> x \<in> set xs \<Longrightarrow> y \<in> set xs \<Longrightarrow> x = y \<or> apart x y"
  by (induction xs) (auto simp: apart_sym)

lemma apart_iff: "sorted_wrt apart xs \<longleftrightarrow> distinct xs \<and> (\<forall>x \<in> set xs. \<forall>y \<in> set xs. x \<noteq> y \<longrightarrow> apart x y)"
proof (induction xs)
  case (Cons x xs)
  have "(\<forall>y \<in> set xs. apart x y) \<longleftrightarrow> x \<notin> set xs \<and> (\<forall>y \<in> set xs. x \<noteq> y \<longrightarrow> apart x y \<and> apart y x)"
    by (metis apart_sym apart_neq)
  then show ?case using Cons by auto
qed simp

lemma apart_perm: "sorted_wrt apart xs \<Longrightarrow> mset ys = mset xs \<Longrightarrow> sorted_wrt apart ys"
  unfolding apart_iff by (metis mset_eq_imp_distinct_iff set_mset_mset)

text \<open>The free blocks with their sizes, in the order in which glueing collects them.\<close>

definition free_nodes :: "'a ppmd_scheme \<Rightarrow> (nat \<Rightarrow> nat list) \<Rightarrow> (nat \<times> nat) list" where
  "free_nodes p F = concat (map (\<lambda>i. map (\<lambda>n. (n, I2U p i)) (F i)) [0..<38])"

lemma in_free_nodes: "(n, u) \<in> set (free_nodes p F) \<longleftrightarrow> (\<exists>i < 38. n \<in> set (F i) \<and> u = I2U p i)"
  by (auto simp: free_nodes_def)

lemma fst_free_nodes: "map fst (free_nodes p F) = concat (map F [0..<38])"
  by (simp add: free_nodes_def map_concat o_def)

lemma blocks_free_nodes: "blocks p F = (\<Sum>(n, u)\<leftarrow>free_nodes p F. span n (U2B u))"
proof -
  have "(\<Sum>(n, u)\<leftarrow>concat (map (\<lambda>i. map (\<lambda>n. (n, I2U p i)) (F i)) is). span n (U2B u)) =
      (\<Sum>i\<leftarrow>is. \<Sum>n\<leftarrow>F i. span n (U2B (I2U p i)))" for "is"
    by (induction "is") (simp_all add: o_def)
  then have "(\<Sum>(n, u)\<leftarrow>free_nodes p F. span n (U2B u)) = (\<Sum>i\<leftarrow>[0..<38]. \<Sum>n\<leftarrow>F i. span n (U2B (I2U p i)))"
    by (simp add: free_nodes_def)
  also have "\<dots> = (\<Sum>i\<in>{..<38}. \<Sum>n\<leftarrow>F i. span n (U2B (I2U p i)))"
    by (subst interv_sum_list_conv_sum_set_nat) (simp add: atLeast_upt lessThan_atLeast0)
  finally show ?thesis by (simp add: blocks_def)
qed

lemma spans_apart:
  "(\<And>x. count (\<Sum>(n, u)\<leftarrow>L. span n (U2B u)) x \<le> 1) \<Longrightarrow> \<forall>(n, u) \<in> set L. 0 < u \<Longrightarrow> sorted_wrt apart (map fst L)"
proof (induction L)
  case (Cons b L)
  obtain n u where b: "b = (n, u)" by (cases b)
  let ?S = "\<Sum>(n, u)\<leftarrow>L. span n (U2B u)"
  have c: "count (span n (U2B u)) x + count ?S x \<le> 1" for x using Cons.prems(1) [of x] by (simp add: b)
  have "apart n n'" if n': "(n', u') \<in> set L" for n' u'
  proof (rule ccontr)
    assume "\<not> apart n n'"
    then have x: "n \<le> max n n'" "max n n' < n + 12" "n' \<le> max n n'" "max n n' < n' + 12" by (auto simp: apart_def)
    moreover have "12 \<le> U2B u" "12 \<le> U2B u'" using Cons.prems(2) n' by (auto simp: b U2B_def UNIT_SIZE_def)
    ultimately have "max n n' \<in># span n (U2B u)" "max n n' \<in># ?S" using n' by (auto intro!: bexI [of _ "(n', u')"])
    then have "0 < count (span n (U2B u)) (max n n')" "0 < count ?S (max n n')" by (simp_all add: count_greater_zero_iff del: count_span)
    then show False using c [of "max n n'"] by linarith
  qed
  moreover have "sorted_wrt apart (map fst L)"
  proof (rule Cons.IH)
    show "count ?S x \<le> 1" for x using c [of x] by linarith
  qed (use Cons.prems(2) in simp)
  ultimately show ?case by (auto simp: b)
qed simp

lemma free_nodes_apart:
  assumes "heap_ok v p F"
  shows "sorted_wrt apart (concat (map F [0..<38]))"
  unfolding fst_free_nodes [of p, symmetric]
proof (rule spans_apart)
  show "count (\<Sum>(n, u)\<leftarrow>free_nodes p F. span n (U2B u)) x \<le> 1" for x
    using free_once [OF assms, of x] unfolding blocks_free_nodes [symmetric] by (simp add: free_space_def)
  show "\<forall>(n, u) \<in> set (free_nodes p F). 0 < u"
    using assms I2U_bounds [of p] by (fastforce simp: in_free_nodes heap_ok_def)
qed

lemma pool_space_list: "distinct xs \<Longrightarrow> pool_space (set xs) \<nu> = (\<Sum>n\<leftarrow>xs. span n (U2B (\<nu> n)))"
  by (simp add: pool_space_def sum.distinct_set_conv_list)

text \<open>The free blocks as a pool.\<close>

lemma free_pool:
  assumes "heap_ok v p F" "\<And>i n. i < 38 \<Longrightarrow> n \<in> set (F i) \<Longrightarrow> \<nu> n = I2U p i"
  shows "pool_space (set (concat (map F [0..<38]))) \<nu> = blocks p F"
proof -
  have "pool_space (set (concat (map F [0..<38]))) \<nu> = (\<Sum>n\<leftarrow>map fst (free_nodes p F). span n (U2B (\<nu> n)))"
    unfolding fst_free_nodes by (rule pool_space_list [OF apart_distinct [OF free_nodes_apart [OF assms(1)]]])
  also have "\<dots> = (\<Sum>(n, u)\<leftarrow>free_nodes p F. span n (U2B u))"
    unfolding map_map o_def by (intro arg_cong [where f = sum_list] map_cong) (auto simp: in_free_nodes assms(2))
  finally show ?thesis by (simp add: blocks_free_nodes)
qed

lemma apart_regions:
  "\<forall>x. a \<le> x \<and> x < a + 12 \<longrightarrow> x \<notin># A \<Longrightarrow> \<forall>x. b \<le> x \<and> x < b + 12 \<longrightarrow> x \<in># A \<Longrightarrow> apart a b"
proof (rule ccontr)
  assume a: "\<forall>x. a \<le> x \<and> x < a + 12 \<longrightarrow> x \<notin># A" and b: "\<forall>x. b \<le> x \<and> x < b + 12 \<longrightarrow> x \<in># A" and "\<not> apart a b"
  then have "a \<le> max a b" "max a b < a + 12" "b \<le> max a b" "max a b < b + 12" by (auto simp: apart_def)
  then show False using a b by blast
qed

lemma node_in_blocks:
  assumes "heap_ok v p F" "n \<in> set (concat (map F [0..<38]))" "n \<le> x" "x < n + 12"
  shows "x \<in># blocks p F"
proof -
  obtain i where i: "i < 38" "n \<in> set (F i)" using assms(2) by auto
  then have "12 \<le> U2B (I2U p i)" using assms(1) by (intro block_min) (auto simp: heap_ok_def)
  then show ?thesis using i assms(3,4) by (auto simp: in_blocks intro!: exI [of _ i] bexI [of _ n])
qed

text \<open>Outside of the nodes of a list.\<close>

definition off_nodes :: "nat list \<Rightarrow> nat \<Rightarrow> bool" where
  "off_nodes xs z \<longleftrightarrow> (\<forall>y \<in> set xs. z < y \<or> y + 12 \<le> z)"

lemma off_nodes_simps [simp]:
  "off_nodes [] z" "off_nodes (x # xs) z \<longleftrightarrow> (z < x \<or> x + 12 \<le> z) \<and> off_nodes xs z"
  "off_nodes (xs @ ys) z \<longleftrightarrow> off_nodes xs z \<and> off_nodes ys z" "off_nodes (rev xs) z \<longleftrightarrow> off_nodes xs z"
  by (auto simp: off_nodes_def)

lemma apart_off: "\<forall>y \<in> set xs. apart x y \<Longrightarrow> x \<le> z \<Longrightarrow> z < x + 12 \<Longrightarrow> off_nodes xs z"
  by (force simp: off_nodes_def apart_def)

lemma REF_GetPtr [simp]: "REF (GetPtr r) = r"
  by (simp add: REF_def GetPtr_def)

lemma off_nodes_subset: "off_nodes ys z \<Longrightarrow> set xs \<subseteq> set ys \<Longrightarrow> off_nodes xs z"
  by (auto simp: off_nodes_def)

lemma off_free: "heap_ok v p F \<Longrightarrow> z \<notin># blocks p F \<Longrightarrow> off_nodes (concat (map F [0..<38])) z"
  unfolding off_nodes_def by (meson node_in_blocks not_less)

lemma successively_change:
  "successively P xs \<Longrightarrow> (\<And>a b. a \<in> set (butlast xs) \<Longrightarrow> b \<in> set (tl xs) \<Longrightarrow> P a b \<Longrightarrow> Q a b) \<Longrightarrow> successively Q xs"
proof (induction xs rule: induct_list012)
  case (3 x y zs)
  have "successively Q (y # zs)" using 3 by (intro 3(2)) auto
  then show ?case using 3 by auto
qed simp_all

text \<open>
  The addresses where a free block ends and no other begins.  Glueing needs to see that what follows is
  not free: the end of the gap's lower units or of the arena, where it writes a stamp itself, or a
  unit in use, whose first bytes are not those of a free node.
\<close>

definition free_ends :: "'a ppmd_scheme \<Rightarrow> (nat \<Rightarrow> nat list) \<Rightarrow> nat set" where
  "free_ends p F = {e. 0 < e \<and> e - 1 \<in># blocks p F \<and> e \<notin># blocks p F}"

primrec free_stamp :: "variant \<Rightarrow> arena \<Rightarrow> nat \<Rightarrow> bool" where
  "free_stamp PPMd7 m n \<longleftrightarrow> nStamp m n = 0"
| "free_stamp PPMd8 m n \<longleftrightarrow> nStamp8 m n = EMPTY_NODE"

definition in_use :: "variant \<Rightarrow> 'a ppmd_scheme \<Rightarrow> (nat \<Rightarrow> nat list) \<Rightarrow> nat \<Rightarrow> bool" where
  "in_use v p F e \<longleftrightarrow> \<not> free_stamp v (mem p) e \<and> e + 12 \<le> arena_top p \<and> (\<forall>x. e \<le> x \<and> x < e + 12 \<longrightarrow> x \<notin># free_space p F)"

definition marked :: "variant \<Rightarrow> 'a ppmd_scheme \<Rightarrow> (nat \<Rightarrow> nat list) \<Rightarrow> bool" where
  "marked v p F \<longleftrightarrow> (\<forall>e \<in> free_ends p F. e = LoUnit p \<and> LoUnit p < HiUnit p \<or> v = PPMd7 \<and> e = arena_top p \<or> in_use v p F e)"

lemma free_pool_ok:
  assumes "heap_ok v p F" "\<And>i n. i < 38 \<Longrightarrow> n \<in> set (F i) \<Longrightarrow> \<nu> n = I2U p i"
  shows "pool_ok (\<lambda>e. e \<in> free_ends p F) (set (concat (map F [0..<38]))) \<nu>"
proof -
  let ?N = "set (concat (map F [0..<38]))"
  have space: "pool_space ?N \<nu> = blocks p F" by (rule free_pool [OF assms(1)]) (rule assms(2))
  have once: "count (pool_space ?N \<nu>) x \<le> 1" for x
    unfolding space using free_once [OF assms(1), of x] by (simp add: free_space_def)
  have pos: "0 < \<nu> n" if "n \<in> ?N" for n
    using that assms(2) I2U_bounds [of p] assms(1) by (fastforce simp: heap_ok_def)
  have any: "pool_ok (\<lambda>_. True) ?N \<nu>" using once pos by (simp add: pool_ok_def)
  have "n + U2B (\<nu> n) \<in> ?N \<or> n + U2B (\<nu> n) \<in> free_ends p F" if n: "n \<in> ?N" for n
  proof (cases "n + U2B (\<nu> n) \<in># blocks p F")
    case True
    then obtain i e where i: "i < 38" "e \<in> set (F i)" and b: "e \<le> n + U2B (\<nu> n)" "n + U2B (\<nu> n) < e + U2B (I2U p i)"
      by (auto simp: in_blocks)
    have e: "e \<in> ?N" "e \<le> n + U2B (\<nu> n)" "n + U2B (\<nu> n) < e + U2B (\<nu> e)"
      using i b by (auto simp: assms(2) [OF i])
    then have "e \<noteq> n" by auto
    then have "e = n + U2B (\<nu> n)" using pool_apart [OF any n e(1)] e pos [OF n] by auto
    then show ?thesis using e(1) by simp
  next
    case False
    have "n + U2B (\<nu> n) - 1 \<in># span n (U2B (\<nu> n))"
      using pos [OF n] by (auto simp: U2B_def UNIT_SIZE_def)
    then have "n + U2B (\<nu> n) - 1 \<in># blocks p F"
      using n unfolding space [symmetric] pool_space_def set_mset_sum [OF finite_set] by blast
    then show ?thesis using False pos [OF n] by (simp add: free_ends_def U2B_def UNIT_SIZE_def)
  qed
  then show ?thesis using once pos by (simp add: pool_ok_def)
qed

text \<open>What glueing keeps.\<close>

definition glues :: "variant \<Rightarrow> 'a ppmd_scheme \<Rightarrow> (nat \<Rightarrow> nat list) \<Rightarrow> 'a ppmd_scheme \<Rightarrow> (nat \<Rightarrow> nat list) \<Rightarrow> bool" where
  "glues v p F p' F' \<longleftrightarrow> heap_ok v p' F' \<and> free_space p' F' = free_space p F \<and> blocks p' F' = blocks p F \<and>
     same_model p p' \<and> regions p' = regions p \<and> (\<forall>x < arena_top p. x \<notin># free_space p F \<longrightarrow> mem p' x = mem p x)"

section \<open>The nodes of the two models\<close>

lemma InsertNode7_frame: "x < n \<or> n + 12 \<le> x \<Longrightarrow> mem (InsertNode7 p n i) x = mem p x"
  by (auto simp: InsertNode7_def wr32_def wr16_def)

lemma InsertNode8_frame: "x < n \<or> n + 12 \<le> x \<Longrightarrow> mem (InsertNode8 p n i) x = mem p x"
  by (auto simp: InsertNode8_def wr_Stamp8_def wr_Next8_def wr_NU8_def wr32_def wr16_def Let_def)

interpretation fl7: free_lists PPMd7 InsertNode7 RemoveNode7
  by unfold_locales
    (simp_all add: InsertNode7_frame, simp_all add: InsertNode7_def RemoveNode7_def same_model_def ppmd.truncate_def
      regions_def Let_def)

interpretation fl8: free_lists PPMd8 InsertNode8 RemoveNode8
  by unfold_locales
    (simp_all add: InsertNode8_frame, simp_all add: InsertNode8_def RemoveNode8_def same_model_def ppmd.truncate_def
      regions_def mem_frame Let_def wr_Stamp8_def wr_Next8_def wr_NU8_def nStamp8_def nNext8_def nNU8_def)

interpretation fu7: free_units PPMd7 InsertNode7 RemoveNode7 Glue_cut7
  by unfold_locales (subst Glue_cut7.simps, simp)

interpretation fu8: free_units PPMd8 InsertNode8 RemoveNode8 Glue_cut8
  by unfold_locales (subst Glue_cut8.simps, simp)

end
