(* ===== verification/Glue7.thy ===== *)
theory Glue7
  imports Suballocator
begin

text \<open>
  \<^verbatim>\<open>GlueFreeBlocks\<close> of \<^verbatim>\<open>Ppmd7.c\<close>: the free lists become one doubly linked list, in which a block
  absorbs the free blocks behind it, and which is then put back into the lists.  The function returns, and the
  free space is what it was.
\<close>

section \<open>The doubly linked list\<close>

lemmas node7_defs = nStamp_def nNU_def nNext_def nPrev_def wr_Stamp_def wr_NU_def wr_Next_def wr_Prev_def

lemma node7_rw:
  assumes "x = a \<or> apart x a"
  shows "nNext (wr_Next m a v) x = (if x = a then v else nNext m x)" "nNext (wr_Prev m a v) x = nNext m x"
    "nNext (wr_Stamp m a w) x = nNext m x" "nNext (wr_NU m a w) x = nNext m x"
    "nPrev (wr_Prev m a v) x = (if x = a then v else nPrev m x)" "nPrev (wr_Next m a v) x = nPrev m x"
    "nPrev (wr_Stamp m a w) x = nPrev m x" "nPrev (wr_NU m a w) x = nPrev m x"
    "nStamp (wr_Stamp m a w) x = (if x = a then w else nStamp m x)" "nStamp (wr_Next m a v) x = nStamp m x"
    "nStamp (wr_Prev m a v) x = nStamp m x" "nStamp (wr_NU m a w) x = nStamp m x"
    "nNU (wr_NU m a w) x = (if x = a then w else nNU m x)" "nNU (wr_Next m a v) x = nNU m x"
    "nNU (wr_Prev m a v) x = nNU m x" "nNU (wr_Stamp m a w) x = nNU m x"
  using assms by (auto simp: node7_defs apart_def mem_frame)

lemma node7_frame:
  assumes "\<And>z. x \<le> z \<Longrightarrow> z < x + 12 \<Longrightarrow> m' z = m z"
  shows "nStamp m' x = nStamp m x" "nNU m' x = nNU m x" "nNext m' x = nNext m x" "nPrev m' x = nPrev m x"
    "rd32 m' x = rd32 m x"
  using assms by (auto simp: node7_defs intro!: rd16_cong rd32_cong)

lemma node7_wr_frame:
  assumes "z < a \<or> a + 12 \<le> z"
  shows "wr_Stamp m a w z = m z" "wr_NU m a w z = m z" "wr_Next m a v z = m z" "wr_Prev m a v z = m z"
  using assms by (auto simp: node7_defs wr32_def wr16_def)

definition node_link7 :: "arena \<Rightarrow> nat \<Rightarrow> nat \<Rightarrow> bool" where
  "node_link7 m x y \<longleftrightarrow> nNext m x = REF y \<and> nPrev m y = REF x"

section \<open>The first pass\<close>

lemma Glue_collect7_spec:
  "free_chain 0 m nx ns \<Longrightarrow> successively (node_link7 m) (h # xs) \<Longrightarrow> sorted_wrt apart (ns @ h # xs) \<Longrightarrow>
     \<forall>y \<in> set (ns @ h # xs). y < 2 ^ 32 \<Longrightarrow>
   \<exists>m'. Glue_collect7 nu m (REF h) nx = Some (m', REF (hd (rev ns @ h # xs))) \<and>
     successively (node_link7 m') (rev ns @ h # xs) \<and>
     (\<forall>y \<in> set ns. nStamp m' y = 0 \<and> nNU m' y = nu) \<and>
     (\<forall>y \<in> set (h # xs). nStamp m' y = nStamp m y \<and> nNU m' y = nNU m y) \<and>
     (\<forall>z. off_nodes (ns @ h # xs) z \<longrightarrow> m' z = m z)"
proof (induction ns arbitrary: m nx h xs)
  case Nil
  then show ?case by (subst Glue_collect7.simps) simp
next
  case (Cons y ns)
  have nx: "nx \<noteq> 0" "y = GetPtr nx" "nx = REF y" and ch: "free_chain 0 m (rd32 m y) ns" using Cons.prems(1) by auto
  have h: "GetPtr (REF h) = h" using Cons.prems(4) by (simp add: GetPtr_REF)
  have yh: "apart y h" "apart h y" and y: "\<forall>x \<in> set (ns @ h # xs). apart x y" "\<forall>x \<in> set (ns @ h # xs). apart y x"
    and hx: "\<forall>x \<in> set xs. apart h x" "\<forall>x \<in> set ns. apart h x"
    using Cons.prems(3) by (auto simp: apart_sym sorted_wrt_append)
  define m2 where "m2 = wr_Prev (wr_Next m y (REF h)) h nx"
  define m4 where "m4 = wr_NU (wr_Stamp m2 y 0) y nu"
  have r: "rd32 m2 y = rd32 m y"
    using yh by (auto simp: m2_def node7_defs mem_frame apart_def)
  have same: "m4 z = m z" if "z < y \<or> y + 12 \<le> z" "z < h \<or> h + 12 \<le> z" for z
    using that by (simp add: m4_def m2_def node7_wr_frame)
  have link: "node_link7 m4 y h"
    using yh by (simp add: node_link7_def m4_def m2_def node7_rw nx(3) [symmetric])
  have rest: "successively (node_link7 m4) (h # xs)"
  proof (rule successively_change [OF Cons.prems(2)])
    fix a b assume a: "a \<in> set (butlast (h # xs))" and b: "b \<in> set (tl (h # xs))" and l: "node_link7 m a b"
    have "b \<noteq> h" "b = h \<or> apart b h" "a = h \<or> apart a h" "a = y \<or> apart a y" "b = y \<or> apart b y" "a \<noteq> y" "b \<noteq> y"
      using in_set_butlastD [OF a] b hx y by (auto simp: apart_sym dest: apart_neq)
    then show "node_link7 m4 a b" using l by (simp add: node_link7_def m4_def m2_def node7_rw)
  qed
  have ch': "free_chain 0 m4 (rd32 m y) ns"
  proof (rule free_chain_frame [OF ch], intro ballI allI impI same)
    fix n z assume n: "n \<in> set ns" "n + 0 \<le> z \<and> z < n + 0 + 4"
    then have "apart y n" "apart h n" using y hx by auto
    then show "z < y \<or> y + 12 \<le> z" "z < h \<or> h + 12 \<le> z" using n(2) unfolding apart_def by linarith+
  qed
  have sorted: "sorted_wrt apart (ns @ y # h # xs)"
    using Cons.prems(3) y by (auto simp: sorted_wrt_append apart_sym)
  obtain m' where m': "Glue_collect7 nu m4 (REF y) (rd32 m y) = Some (m', REF (hd (rev ns @ y # h # xs)))"
    "successively (node_link7 m') (rev ns @ y # h # xs)"
    "\<forall>y \<in> set ns. nStamp m' y = 0 \<and> nNU m' y = nu"
    "\<forall>x \<in> set (y # h # xs). nStamp m' x = nStamp m4 x \<and> nNU m' x = nNU m4 x"
    "\<forall>z. off_nodes (ns @ y # h # xs) z \<longrightarrow> m' z = m4 z"
    using Cons.IH [OF ch', of y "h # xs"] rest link sorted Cons.prems(4) by auto
  have "Glue_collect7 nu m (REF h) nx = Glue_collect7 nu m4 (REF y) (rd32 m y)"
    by (subst Glue_collect7.simps) (simp add: nx(1) nx(2) [symmetric] h r [symmetric] m4_def m2_def Let_def, simp add: nx(3))
  moreover have "nStamp m4 y = 0" "nNU m4 y = nu" by (simp_all add: m4_def node7_rw)
  moreover have "nStamp m4 x = nStamp m x \<and> nNU m4 x = nNU m x" if "x \<in> set (h # xs)" for x
  proof -
    have "x \<noteq> y" "x = y \<or> apart x y" "x = h \<or> apart x h" using that y hx by (auto simp: apart_sym dest: apart_neq)
    then show ?thesis by (simp add: m4_def m2_def node7_rw)
  qed
  ultimately show ?case using m' same by auto
qed

lemma Glue_lists7_spec:
  "\<forall>i \<in> set is. free_chain 0 (mem p) (FreeList p i) (F i) \<Longrightarrow> distinct is \<Longrightarrow>
     successively (node_link7 (mem p)) (h # xs) \<Longrightarrow> sorted_wrt apart (concat (map F is) @ h # xs) \<Longrightarrow>
     \<forall>y \<in> set (concat (map F is) @ h # xs). y < 2 ^ 32 \<Longrightarrow>
   \<exists>m'. Glue_lists7 is p (REF h) =
       Some (p\<lparr>mem := m', FreeList := (\<lambda>i. if i \<in> set is then 0 else FreeList p i)\<rparr>, REF (hd (rev (concat (map F is)) @ h # xs))) \<and>
     successively (node_link7 m') (rev (concat (map F is)) @ h # xs) \<and>
     (\<forall>i \<in> set is. \<forall>y \<in> set (F i). nStamp m' y = 0 \<and> nNU m' y = word_of_nat (I2U p i)) \<and>
     (\<forall>y \<in> set (h # xs). nStamp m' y = nStamp (mem p) y \<and> nNU m' y = nNU (mem p) y) \<and>
     (\<forall>z. off_nodes (concat (map F is) @ h # xs) z \<longrightarrow> m' z = mem p z)"
proof (induction "is" arbitrary: p h xs)
  case Nil
  then show ?case by (intro exI [of _ "mem p"]) simp
next
  case (Cons i "is")
  let ?u = "word_of_nat (I2U p i) :: UInt16" and ?G = "concat (map F is)"
  have s2: "sorted_wrt apart (?G @ rev (F i) @ h # xs)"
    using Cons.prems(4) by (rule apart_perm) simp
  have "sorted_wrt apart (?G @ F i @ h # xs)" using Cons.prems(4) by (rule apart_perm) simp
  then have s1: "sorted_wrt apart (F i @ h # xs)" unfolding sorted_wrt_append [of _ ?G] by blast
  obtain m1 where m1: "Glue_collect7 ?u (mem p) (REF h) (FreeList p i) = Some (m1, REF (hd (rev (F i) @ h # xs)))"
    "successively (node_link7 m1) (rev (F i) @ h # xs)"
    "\<forall>y \<in> set (F i). nStamp m1 y = 0 \<and> nNU m1 y = ?u"
    "\<forall>y \<in> set (h # xs). nStamp m1 y = nStamp (mem p) y \<and> nNU m1 y = nNU (mem p) y"
    "\<forall>z. off_nodes (F i @ h # xs) z \<longrightarrow> m1 z = mem p z"
    using Glue_collect7_spec [OF _ Cons.prems(3) s1, of "FreeList p i" ?u] Cons.prems(1,5) by auto
  let ?p = "p\<lparr>mem := m1, FreeList := (FreeList p)(i := 0)\<rparr>"
  obtain h' xs' where l: "rev (F i) @ h # xs = h' # xs'" by (cases "rev (F i) @ h # xs") auto
  have "free_chain 0 (mem ?p) (FreeList ?p j) (F j)" if j: "j \<in> set is" for j
  proof -
    have c: "free_chain 0 (mem p) (FreeList p j) (F j)" using Cons.prems(1) j by simp
    have "m1 z = mem p z" if n: "n \<in> set (F j)" and z: "n \<le> z" "z < n + 4" for n z
    proof -
      have "\<forall>y \<in> set (F i @ h # xs). apart n y"
        using s2 n j by (auto simp: sorted_wrt_append)
      then have "off_nodes (F i @ h # xs) z" using apart_off [of "F i @ h # xs" n z] z by auto
      then show ?thesis using m1(5) by blast
    qed
    then have "free_chain 0 m1 (FreeList p j) (F j)" using free_chain_frame [OF c, of m1] by auto
    then show ?thesis using j Cons.prems(2) by auto
  qed
  then have ch: "\<forall>j \<in> set is. free_chain 0 (mem ?p) (FreeList ?p j) (F j)" by blast
  have IH: "\<exists>m'. Glue_lists7 is ?p (REF h') =
       Some (?p\<lparr>mem := m', FreeList := (\<lambda>i. if i \<in> set is then 0 else FreeList ?p i)\<rparr>, REF (hd (rev ?G @ h' # xs'))) \<and>
     successively (node_link7 m') (rev ?G @ h' # xs') \<and>
     (\<forall>i \<in> set is. \<forall>y \<in> set (F i). nStamp m' y = 0 \<and> nNU m' y = word_of_nat (I2U ?p i)) \<and>
     (\<forall>y \<in> set (h' # xs'). nStamp m' y = nStamp (mem ?p) y \<and> nNU m' y = nNU (mem ?p) y) \<and>
     (\<forall>z. off_nodes (?G @ h' # xs') z \<longrightarrow> m' z = mem ?p z)"
    using m1(2) s2 Cons.prems(2,5) unfolding l by (intro Cons.IH [OF ch]) (auto simp flip: l)
  have upd: "?p\<lparr>mem := m', FreeList := (\<lambda>i. if i \<in> set is then 0 else FreeList ?p i)\<rparr> =
      p\<lparr>mem := m', FreeList := (\<lambda>j. if j \<in> set (i # is) then 0 else FreeList p j)\<rparr>" for m'
  proof -
    have "(\<lambda>i. if i \<in> set is then 0 else FreeList ?p i) = (\<lambda>j. if j \<in> set (i # is) then 0 else FreeList p j)" by auto
    then show ?thesis by simp
  qed
  from IH obtain m' where m': "Glue_lists7 is ?p (REF h') =
       Some (p\<lparr>mem := m', FreeList := (\<lambda>j. if j \<in> set (i # is) then 0 else FreeList p j)\<rparr>, REF (hd (rev ?G @ rev (F i) @ h # xs)))"
     "successively (node_link7 m') (rev ?G @ rev (F i) @ h # xs)"
     "\<forall>i \<in> set is. \<forall>y \<in> set (F i). nStamp m' y = 0 \<and> nNU m' y = word_of_nat (I2U p i)"
     "\<forall>y \<in> set (rev (F i) @ h # xs). nStamp m' y = nStamp m1 y \<and> nNU m' y = nNU m1 y"
     "\<forall>z. off_nodes (?G @ rev (F i) @ h # xs) z \<longrightarrow> m' z = m1 z"
    unfolding l upd by (auto simp: I2U_def)
  have "Glue_lists7 (i # is) p (REF h) = Glue_lists7 is ?p (REF h')"
    using m1(1) by (simp add: l)
  then show ?case using m' m1(3-5) by (intro exI [of _ m']) auto
qed

section \<open>The second pass\<close>

text \<open>
  \<open>H\<close> is the head, \<open>xs\<close> the blocks in the list.  \<open>S\<close>: the ends of blocks where no free block follows, with a stamp
  other than 0.
\<close>

definition glue7 :: "nat \<Rightarrow> nat set \<Rightarrow> arena \<Rightarrow> nat list \<Rightarrow> bool" where
  "glue7 H S m xs \<longleftrightarrow> successively (node_link7 m) (H # xs @ [H]) \<and> sorted_wrt apart (H # xs) \<and>
     (\<forall>y \<in> set (H # xs). y < 2 ^ 32) \<and> (\<forall>y \<in> set xs. nStamp m y = 0) \<and>
     (\<forall>e \<in> S. nStamp m e \<noteq> 0 \<and> (e = H \<or> (\<forall>y \<in> set (H # xs). apart e y))) \<and>
     pool_ok (\<lambda>e. e \<in> S) (set xs) (\<lambda>n. unat (nNU m n))"

lemma glue7_unlink:
  assumes g: "glue7 H S m (a @ e # b)" and n: "n \<in> set a \<or> n \<in> set b"
    and m': "m' = (let m = wr_Next m (GetPtr (nPrev m e)) (nNext m e); m = wr_Prev m (GetPtr (nNext m e)) (nPrev m e) in wr_NU m n w)"
  shows "successively (node_link7 m') (H # a @ b @ [H])"
    and "\<forall>y. y \<in> S \<or> y \<in> set (a @ b) \<longrightarrow> nStamp m' y = nStamp m y"
    and "\<forall>y \<in> set (a @ b). nNU m' y = (if y = n then w else nNU m y)"
    and "\<forall>z. off_nodes (H # a @ b) z \<longrightarrow> m' z = m z"
proof -
  let ?P = "last (H # a)" and ?Q = "hd (b @ [H])"
  have ap: "sorted_wrt apart (H # a @ e # b)" and bound: "\<forall>y \<in> set (H # a @ e # b). y < 2 ^ 32"
    and suc: "successively (node_link7 m) ((H # a) @ e # b @ [H])" using g by (auto simp: glue7_def)
  have P: "?P \<in> set (H # a)" by (rule last_in_set) simp
  have Q: "?Q \<in> set (H # b)" by (cases b) simp_all
  have pairs: "x = y \<or> apart x y" if "x \<in> set (H # a @ e # b)" "y \<in> set (H # a @ e # b)" for x y
    using apart_pairs [OF ap that] .
  have dist: "distinct (H # a @ e # b)" by (rule apart_distinct [OF ap])
  have s: "successively (node_link7 m) (H # a)" "successively (node_link7 m) (b @ [H])" "node_link7 m ?P e" "node_link7 m e ?Q"
    using successively_append_iff [THEN iffD1, OF suc] successively_Cons [of "node_link7 m" e "b @ [H]"]
    by (simp_all only: list.simps append_is_Nil_conv list.sel simp_thms)
  have ptr: "GetPtr (REF y) = y" if "y \<in> set (H # a @ e # b)" for y
    using bound that by (intro GetPtr_REF) blast
  have PQ: "?P \<in> set (H # a @ e # b)" "?Q \<in> set (H # a @ e # b)" "?P \<noteq> e" "?Q \<noteq> e" using P Q dist by auto
  have m'_eq: "m' = wr_NU (wr_Prev (wr_Next m ?P (REF ?Q)) ?Q (REF ?P)) n w"
    using s(3,4) pairs [OF _ PQ(1), of e] PQ ptr
    by (simp add: m' Let_def node_link7_def node7_rw)
  have nn: "n \<in> set (H # a @ e # b)" "n \<noteq> H" using n dist by auto
  have rw: "y \<in> set (H # a @ e # b) \<Longrightarrow> y = ?P \<or> apart y ?P" "y \<in> set (H # a @ e # b) \<Longrightarrow> y = ?Q \<or> apart y ?Q"
    "y \<in> set (H # a @ e # b) \<Longrightarrow> y = n \<or> apart y n" for y
    using pairs PQ nn by blast+
  have field: "nNext m' y = (if y = ?P then REF ?Q else nNext m y)" "nPrev m' y = (if y = ?Q then REF ?P else nPrev m y)"
    "nStamp m' y = nStamp m y" "nNU m' y = (if y = n then w else nNU m y)" if "y \<in> set (H # a @ e # b)" for y
    using rw [OF that] by (simp_all add: m'_eq node7_rw)
  have "successively (node_link7 m') (H # a)"
  proof (rule successively_change [OF s(1)])
    fix x y assume x: "x \<in> set (butlast (H # a))" and y: "y \<in> set (tl (H # a))" and l: "node_link7 m x y"
    have "x \<noteq> ?P" using x dist by (metis append_butlast_last_id distinct_append list.distinct(1) append_Cons
          distinct.simps(2) disjoint_iff list.set_intros(1))
    moreover have "y \<noteq> ?Q" using y Q dist by auto
    moreover have "x \<in> set (H # a)" using x by (rule in_set_butlastD)
    ultimately show "node_link7 m' x y" using l y by (auto simp: node_link7_def field)
  qed
  moreover have "successively (node_link7 m') (b @ [H])"
  proof (rule successively_change [OF s(2)])
    fix x y assume x: "x \<in> set (butlast (b @ [H]))" and y: "y \<in> set (tl (b @ [H]))" and l: "node_link7 m x y"
    have "x \<noteq> ?P" using x P dist by auto
    moreover have "y \<noteq> ?Q" using y dist by (cases b) auto
    moreover have "y \<in> set (H # b)" using y by (cases b) auto
    ultimately show "node_link7 m' x y" using l x by (auto simp: node_link7_def field)
  qed
  moreover have "node_link7 m' ?P ?Q" using PQ by (simp add: node_link7_def field)
  ultimately show "successively (node_link7 m') (H # a @ b @ [H])"
    using successively_append_iff [of "node_link7 m'" "H # a" "b @ [H]"] by simp
  show "\<forall>y \<in> set (a @ b). nNU m' y = (if y = n then w else nNU m y)" using field(4) by auto
  have "nStamp m' y = nStamp m y" if y: "y \<in> S" for y
  proof (cases "y = H")
    case False
    then have "\<forall>x \<in> set (H # a @ e # b). apart y x" using g y by (auto simp: glue7_def)
    then have "apart y ?P" "apart y ?Q" "apart y n" using PQ nn by blast+
    then show ?thesis unfolding m'_eq by (simp only: node7_rw simp_thms)
  qed (simp add: field)
  then show "\<forall>y. y \<in> S \<or> y \<in> set (a @ b) \<longrightarrow> nStamp m' y = nStamp m y" using field(3) by auto
  show "\<forall>z. off_nodes (H # a @ b) z \<longrightarrow> m' z = m z"
  proof (intro allI impI)
    fix z assume "off_nodes (H # a @ b) z"
    then have "z < y \<or> y + 12 \<le> z" if "y \<in> set (H # a @ b)" for y using that by (auto simp: off_nodes_def)
    moreover have "?P \<in> set (H # a @ b)" "?Q \<in> set (H # a @ b)" "n \<in> set (H # a @ b)" using P Q n by auto
    ultimately show "m' z = m z" unfolding m'_eq by (metis node7_wr_frame)
  qed
qed

text \<open>What one merge does to the list: \<open>n\<close> takes over the units of \<open>e\<close>.\<close>

lemma glue7_merge:
  assumes g: "glue7 H S m (a @ e # b)" and n: "n \<in> set a \<or> n \<in> set b" and e: "e = n + U2B (unat (nNU m n))"
    and w: "unat w = unat (nNU m n) + unat (nNU m e)"
    and m': "m' = (let m = wr_Next m (GetPtr (nPrev m e)) (nNext m e); m = wr_Prev m (GetPtr (nNext m e)) (nPrev m e) in wr_NU m n w)"
  shows "glue7 H S m' (a @ b)"
    "pool_space (set (a @ b)) (\<lambda>n. unat (nNU m' n)) = pool_space (set (a @ e # b)) (\<lambda>n. unat (nNU m n))"
    "nNU m' n = w" "\<forall>z. off_nodes (H # a @ b) z \<longrightarrow> m' z = m z"
proof -
  let ?\<nu> = "\<lambda>n. unat (nNU m n)" and ?\<nu>' = "\<lambda>n. unat (nNU m' n)"
  note u = glue7_unlink [OF g n m']
  have ap: "sorted_wrt apart (H # a @ e # b)" using g by (simp add: glue7_def)
  have d: "distinct (H # a @ e # b)" by (rule apart_distinct [OF ap])
  then have set: "set (a @ b) = set (a @ e # b) - {e}" by auto
  have pool: "pool_ok (\<lambda>e. e \<in> S) (set (a @ e # b)) ?\<nu>" using g by (simp add: glue7_def)
  have nu: "?\<nu>' y = (?\<nu>(n := ?\<nu> n + ?\<nu> e)) y" if "y \<in> set (a @ e # b) - {e}" for y
    using u(3) w that unfolding set [symmetric] by (simp del: set_append)
  have n': "n \<in> set (a @ e # b)" "e \<in> set (a @ e # b)" using n by auto
  note merge = pool_merge [OF pool n'(1) e n'(2)]
  have space: "pool_space (set (a @ b)) ?\<nu>' = pool_space (set (a @ b)) (?\<nu>(n := ?\<nu> n + ?\<nu> e))"
    and cong: "pool_ok (\<lambda>e. e \<in> S) (set (a @ b)) ?\<nu>' = pool_ok (\<lambda>e. e \<in> S) (set (a @ b)) (?\<nu>(n := ?\<nu> n + ?\<nu> e))"
    unfolding set by (rule pool_cong, erule nu)+
  show "pool_space (set (a @ b)) ?\<nu>' = pool_space (set (a @ e # b)) ?\<nu>"
    using merge(1) unfolding space unfolding set .
  have pool': "pool_ok (\<lambda>e. e \<in> S) (set (a @ b)) ?\<nu>'"
    using merge(2) unfolding cong unfolding set .
  show "nNU m' n = w" using u(3) n by simp
  show "\<forall>z. off_nodes (H # a @ b) z \<longrightarrow> m' z = m z" by (rule u(4))
  have "sorted_wrt apart (H # a @ b)" using ap by (simp add: sorted_wrt_append)
  then show "glue7 H S m' (a @ b)" using g u(1,2) pool' by (auto simp: glue7_def)
qed

lemma Glue_absorb7_spec:
  "glue7 H S m (a @ n # b) \<Longrightarrow>
   \<exists>m' a' b'. Glue_absorb7 m (REF n) (ucast (nNU m n)) = Some m' \<and> glue7 H S m' (a' @ n # b') \<and> length b' \<le> length b \<and>
     set (a' @ n # b') \<subseteq> set (a @ n # b) \<and>
     pool_space (set (a' @ n # b')) (\<lambda>n. unat (nNU m' n)) = pool_space (set (a @ n # b)) (\<lambda>n. unat (nNU m n)) \<and>
     (\<forall>z. off_nodes (H # a @ n # b) z \<longrightarrow> m' z = m z)"
proof (induction "length (a @ b)" arbitrary: m a b rule: less_induct)
  case less
  note g = less.prems
  let ?\<nu> = "\<lambda>n. unat (nNU m n)"
  define e where "e = n + U2B (?\<nu> n)"
  define nu where "nu = (ucast (nNU m n) + ucast (nNU m e) :: UInt32)"
  define m1 where "m1 = (let m = wr_Next m (GetPtr (nPrev m e)) (nNext m e); m = wr_Prev m (GetPtr (nNext m e)) (nPrev m e) in
    wr_NU m n (ucast nu))"
  have "n < 2 ^ 32" using g by (simp add: glue7_def)
  then have ptr: "GetPtr (REF n) = n" by (rule GetPtr_REF)
  have un: "unat (ucast w :: UInt32) = unat w" for w :: UInt16
    using unsigned_less [of w, where 'a = nat] by (simp add: unat_ucast_mod)
  have step: "Glue_absorb7 m (REF n) (ucast (nNU m n)) =
      (if nStamp m e \<noteq> 0 \<or> 0x10000 \<le> nu then Some m else Glue_absorb7 m1 (REF n) nu)"
    by (subst Glue_absorb7.simps) (simp add: ptr un Let_def flip: e_def, simp add: nu_def m1_def Let_def)
  show ?case
  proof (cases "nStamp m e \<noteq> 0 \<or> 0x10000 \<le> nu")
    case True
    then show ?thesis using g step by auto
  next
    case False
    then have small: "nStamp m e = 0" "nu < 0x10000" by auto
    have pool: "pool_ok (\<lambda>e. e \<in> S) (set (a @ n # b)) ?\<nu>" using g by (simp add: glue7_def)
    then have "e \<in> set (a @ n # b) \<or> e \<in> S" and "0 < ?\<nu> n" by (auto simp: pool_ok_def e_def)
    moreover have "e \<notin> S" using g small(1) by (auto simp: glue7_def)
    ultimately have e: "e \<in> set a \<or> e \<in> set b" by (auto simp: e_def U2B_def UNIT_SIZE_def)
    have "unat nu = ?\<nu> n + ?\<nu> e"
      using unsigned_less [of "nNU m n", where 'a = nat] unsigned_less [of "nNU m e", where 'a = nat]
      by (simp add: nu_def unat_word_ariths un)
    moreover have "unat nu < 65536" using small(2) by (simp add: word_less_nat_alt)
    ultimately have w: "unat (ucast nu :: UInt16) = ?\<nu> n + ?\<nu> e" and uu: "ucast (ucast nu :: UInt16) = nu"
      by (simp_all add: unat_ucast_mod word_unat_eq_iff)
    obtain a1 b1 where l: "glue7 H S m1 (a1 @ n # b1)" "length (a1 @ b1) < length (a @ b)" "length b1 \<le> length b"
      "set (a1 @ n # b1) \<subseteq> set (a @ n # b)"
      "pool_space (set (a1 @ n # b1)) (\<lambda>n. unat (nNU m1 n)) = pool_space (set (a @ n # b)) ?\<nu>"
      "nNU m1 n = ucast nu" "\<forall>z. off_nodes (H # a1 @ n # b1) z \<longrightarrow> m1 z = m z"
    proof (cases "e \<in> set a")
      case True
      then obtain x y where a: "a = x @ e # y" by (meson split_list)
      have "glue7 H S m (x @ e # (y @ n # b))" using g by (simp add: a)
      from glue7_merge [OF this _ e_def w m1_def] show thesis
        by (intro that [of "x @ y" b]) (simp_all add: a, blast)
    next
      case False
      then obtain x y where b: "b = x @ e # y" using e by (meson split_list)
      have "glue7 H S m ((a @ n # x) @ e # y)" using g by (simp add: b)
      from glue7_merge [OF this _ e_def w m1_def] show thesis
        by (intro that [of a "x @ y"]) (simp_all add: b, blast)
    qed
    obtain m' a' b' where r: "Glue_absorb7 m1 (REF n) (ucast (nNU m1 n)) = Some m'" "glue7 H S m' (a' @ n # b')"
      "length b' \<le> length b1" "set (a' @ n # b') \<subseteq> set (a1 @ n # b1)"
      "pool_space (set (a' @ n # b')) (\<lambda>n. unat (nNU m' n)) = pool_space (set (a1 @ n # b1)) (\<lambda>n. unat (nNU m1 n))"
      "\<forall>z. off_nodes (H # a1 @ n # b1) z \<longrightarrow> m' z = m1 z"
      using less.hyps [OF l(2,1)] by blast
    have fr: "m' z = m z" if "off_nodes (H # a @ n # b) z" for z
    proof -
      have "off_nodes (H # a1 @ n # b1) z" using off_nodes_subset [OF that, of "H # a1 @ n # b1"] l(4) by auto
      then show ?thesis using r(6) l(7) by simp
    qed
    show ?thesis
    proof (intro exI conjI)
      show "Glue_absorb7 m (REF n) (ucast (nNU m n)) = Some m'" using step False r(1) by (simp add: l(6) uu)
      show "set (a' @ n # b') \<subseteq> set (a @ n # b)" using r(4) l(4) by (rule order_trans)
      show "length b' \<le> length b" using r(3) l(3) by (rule order_trans)
    qed (use r(2,5) l(5) fr in simp_all)
  qed
qed

lemma Glue_blocks7_spec:
  "glue7 H S m (a @ b) \<Longrightarrow>
   \<exists>m' xs. Glue_blocks7 (REF H) m (REF (hd (b @ [H]))) = Some m' \<and> glue7 H S m' xs \<and> set xs \<subseteq> set (a @ b) \<and>
     pool_space (set xs) (\<lambda>n. unat (nNU m' n)) = pool_space (set (a @ b)) (\<lambda>n. unat (nNU m n)) \<and>
     (\<forall>z. off_nodes (H # a @ b) z \<longrightarrow> m' z = m z)"
proof (induction "length b" arbitrary: m a b rule: less_induct)
  case less
  show ?case
  proof (cases b)
    case Nil
    then show ?thesis using less.prems by (subst Glue_blocks7.simps) auto
  next
    case (Cons n b1)
    have g: "glue7 H S m (a @ n # b1)" using less.prems by (simp add: Cons)
    have "sorted_wrt apart (H # a @ n # b1)" "H < 2 ^ 32" "n < 2 ^ 32" using g by (auto simp: glue7_def)
    then have ne: "REF n \<noteq> REF H" and ptr: "GetPtr (REF n) = n" using GetPtr_REF [of n] GetPtr_REF [of H] apart_neq
      by (fastforce, simp)
    obtain m1 a1 b2 where m1: "Glue_absorb7 m (REF n) (ucast (nNU m n)) = Some m1" "glue7 H S m1 (a1 @ n # b2)"
      "length b2 \<le> length b1" "set (a1 @ n # b2) \<subseteq> set (a @ n # b1)"
      "pool_space (set (a1 @ n # b2)) (\<lambda>n. unat (nNU m1 n)) = pool_space (set (a @ n # b1)) (\<lambda>n. unat (nNU m n))"
      "\<forall>z. off_nodes (H # a @ n # b1) z \<longrightarrow> m1 z = m z"
      using Glue_absorb7_spec [OF g] by blast
    have "successively (node_link7 m1) ((H # a1) @ n # b2 @ [H])" using m1(2) by (simp add: glue7_def)
    then have "successively (node_link7 m1) (n # b2 @ [H])" unfolding successively_append_iff [of _ "H # a1"] by blast
    then have nx: "nNext m1 n = REF (hd (b2 @ [H]))" by (simp add: successively_Cons node_link7_def)
    have "length b2 < length b" using m1(3) Cons by simp
    from less.hyps [OF this, of m1 "a1 @ [n]"] m1(2) obtain m' xs where
      r: "Glue_blocks7 (REF H) m1 (REF (hd (b2 @ [H]))) = Some m'" "glue7 H S m' xs" "set xs \<subseteq> set (a1 @ n # b2)"
        "pool_space (set xs) (\<lambda>n. unat (nNU m' n)) = pool_space (set (a1 @ n # b2)) (\<lambda>n. unat (nNU m1 n))"
        "\<forall>z. off_nodes (H # a1 @ n # b2) z \<longrightarrow> m' z = m1 z"
      by auto
    have fr: "m' z = m z" if "off_nodes (H # a @ n # b1) z" for z
    proof -
      have "off_nodes (H # a1 @ n # b2) z" using off_nodes_subset [OF that, of "H # a1 @ n # b2"] m1(4) by auto
      then show ?thesis using r(5) m1(6) that by metis
    qed
    have "Glue_blocks7 (REF H) m (REF n) = Some m'"
      using ne m1(1) r(1) by (subst Glue_blocks7.simps) (simp add: ptr nx)
    then show ?thesis using r(2-4) m1(4,5) fr Cons by (intro exI [of _ m'] exI [of _ xs]) auto
  qed
qed

section \<open>The third pass\<close>

lemma Glue_put7_gives:
  assumes "heap_ok PPMd7 p F" "0 < nNU (mem p) n" "room_for p F n (U2B (unat (nNU (mem p) n)))"
  obtains F' where "gives PPMd7 p F (Glue_put7 p n) F' n (U2B (unat (nNU (mem p) n)))"
proof -
  have "0 < unat (nNU (mem p) n)" using assms(2) by (simp add: word_less_nat_alt)
  from fu7.cut_gives [OF assms(1) this assms(3)] obtain F' where
    "gives PPMd7 p F (case Glue_cut7 p n (unat (nNU (mem p) n)) of (q, b, l) \<Rightarrow> put_units InsertNode7 q b l) F' n
      (U2B (unat (nNU (mem p) n)))" .
  moreover have "(case Glue_cut7 p n (unat (nNU (mem p) n)) of (q, b, l) \<Rightarrow> put_units InsertNode7 q b l) = Glue_put7 p n"
    by (simp add: Glue_put7_def put_units_def Let_def split: prod.split)
  ultimately show thesis using that by simp
qed

lemma Glue_fill7_spec:
  assumes "heap_ok PPMd7 p F" "successively (node_link7 (mem p)) (b @ [H])" "\<forall>y \<in> set b. 0 < nNU (mem p) y"
    and "\<forall>x. count (free_space p F + (\<Sum>y\<leftarrow>b. span y (U2B (unat (nNU (mem p) y))))) x \<le> 1"
    and "\<forall>y \<in> set b. UnitsStart p \<le> y \<and> y + U2B (unat (nNU (mem p) y)) \<le> arena_top p" "H = arena_top p"
  shows "\<exists>p' F'. Glue_fill7 (REF H) p (REF (hd (b @ [H]))) = Some p' \<and> heap_ok PPMd7 p' F' \<and>
     free_space p' F' = free_space p F + (\<Sum>y\<leftarrow>b. span y (U2B (unat (nNU (mem p) y)))) \<and>
     same_model p p' \<and> regions p' = regions p \<and>
     (\<forall>z. z \<notin># (\<Sum>y\<leftarrow>b. span y (U2B (unat (nNU (mem p) y)))) \<longrightarrow> mem p' z = mem p z)"
  using assms
proof (induction b arbitrary: p F)
  case Nil
  then show ?case by (subst Glue_fill7.simps) (auto simp: same_model_refl)
next
  case (Cons y b)
  let ?\<nu> = "\<lambda>y. unat (nNU (mem p) y)"
  let ?rest = "\<Sum>y\<leftarrow>b. span y (U2B (?\<nu> y))"
  have top: "arena_top p < 2 ^ 32" using Cons.prems(1) by (simp add: heap_ok_def)
  have pos: "12 \<le> U2B (?\<nu> x)" if "x \<in> set (y # b)" for x
  proof -
    have "0 < nNU (mem p) x" using Cons.prems(3) that by (rule bspec)
    then have "0 < ?\<nu> x" by (simp add: word_less_nat_alt)
    then show ?thesis by (simp add: U2B_def UNIT_SIZE_def)
  qed
  have y: "y + U2B (?\<nu> y) \<le> arena_top p" "UnitsStart p \<le> y" using Cons.prems(5) by auto
  have "y < 2 ^ 32" "H < 2 ^ 32" "y \<noteq> H" using y(1) pos [of y] top Cons.prems(6) list.set_intros(1) [of y b] by linarith+
  then have ne: "REF y \<noteq> REF H" and ptr: "GetPtr (REF y) = y"
    using GetPtr_REF [of y] GetPtr_REF [of H] by (metis, metis)
  have nx: "nNext (mem p) y = REF (hd (b @ [H]))" and suc: "successively (node_link7 (mem p)) (b @ [H])"
    using Cons.prems(2) by (simp_all add: successively_Cons node_link7_def)
  have all: "count (free_space p F) x + count (span y (U2B (?\<nu> y))) x + count ?rest x \<le> 1" for x
    using Cons.prems(4) by (simp add: ac_simps)
  have "room_for p F y (U2B (?\<nu> y))"
    using all y unfolding room_for_def count_union by (meson le_add1 order_trans)
  then obtain F1 where g: "gives PPMd7 p F (Glue_put7 p y) F1 y (U2B (?\<nu> y))"
    using Glue_put7_gives [OF Cons.prems(1), of y] Cons.prems(3) by auto
  let ?p = "Glue_put7 p y"
  have fr: "mem ?p z = mem p z" if "z < y \<or> y + U2B (?\<nu> y) \<le> z" for z using g that by (auto simp: gives_def)
  have other: "z < y \<or> y + U2B (?\<nu> y) \<le> z" if x: "x \<in> set b" and z: "x \<le> z" "z < x + 12" for x z
  proof -
    have "z \<in># ?rest" using x z pos [of x] by (auto intro!: bexI [of _ x])
    then have "0 < count ?rest z" by simp
    then have "count (span y (U2B (?\<nu> y))) z = 0" using all [of z] by linarith
    then show ?thesis by (auto split: if_splits)
  qed
  have node: "nNU (mem ?p) x = nNU (mem p) x" "nNext (mem ?p) x = nNext (mem p) x" "nPrev (mem ?p) x = nPrev (mem p) x"
    if "x \<in> set b" for x
    using node7_frame [of x "mem ?p" "mem p"] fr other [OF that] by auto
  have head: "nPrev (mem ?p) H = nPrev (mem p) H"
    using node7_frame [of H "mem ?p" "mem p"] fr y Cons.prems(6) by auto
  have rest: "(\<Sum>y\<leftarrow>b. span y (U2B (unat (nNU (mem ?p) y)))) = ?rest"
    by (intro arg_cong [where f = sum_list] map_cong) (simp_all add: node)
  have same: "same_model p ?p" "regions ?p = regions p" "heap_ok PPMd7 ?p F1"
    "free_space ?p F1 = free_space p F + span y (U2B (?\<nu> y))" using g by (auto simp: gives_def)
  note d = same_modelD [OF same(1)] same_regionsD(3) [OF same(1,2)]
  have suc': "successively (node_link7 (mem ?p)) (b @ [H])"
  proof (rule successively_change [OF suc])
    fix u v assume "u \<in> set (butlast (b @ [H]))" "v \<in> set (tl (b @ [H]))" "node_link7 (mem p) u v"
    moreover have "v \<in> set b \<or> v = H" using calculation(2) by (cases b) auto
    ultimately show "node_link7 (mem ?p) u v" using node head by (auto simp: node_link7_def)
  qed
  obtain p' F' where r: "Glue_fill7 (REF H) ?p (REF (hd (b @ [H]))) = Some p'" "heap_ok PPMd7 p' F'"
     "free_space p' F' = free_space ?p F1 + ?rest" "same_model ?p p'" "regions p' = regions ?p"
     "\<forall>z. z \<notin># ?rest \<longrightarrow> mem p' z = mem ?p z"
    using Cons.IH [OF same(3) suc', unfolded rest] Cons.prems(3,5,6) all same(4) node d by auto
  have "Glue_fill7 (REF H) p (REF y) = Some p'"
    using ne r(1) by (subst Glue_fill7.simps) (simp add: ptr nx Let_def)
  then show ?case
    using r same same_model_trans [OF same(1) r(4)] fr by (intro exI [of _ p'] exI [of _ F']) (auto simp: ac_simps)
qed

section \<open>\<open>GlueFreeBlocks\<close>\<close>

lemma hd_in: "hd (xs @ [x]) \<in> set (x # xs)"
  by (cases xs) simp_all

text \<open>The state after the first pass and the stores that close the list and mark the gap.\<close>

lemma glue7_start:
  assumes h: "heap_ok PPMd7 p F" and mk: "marked PPMd7 p F"
  defines "H \<equiv> arena_top p" and "L \<equiv> rev (concat (map F [0..<38]))"
  obtains m0 m where "Glue_lists7 [0..<38] p (REF H) =
      Some (p\<lparr>mem := m0, FreeList := (\<lambda>i. if i \<in> set [0..<38] then 0 else FreeList p i)\<rparr>, REF (hd (L @ [H])))"
    and "m = (let m = wr_Stamp m0 H 1; m = wr_Next m H (REF (hd (L @ [H]))); m = wr_Prev m (hd (L @ [H])) (REF H) in
      if LoUnit p \<noteq> HiUnit p then wr_Stamp m (LoUnit p) 1 else m)"
    and "glue7 H (free_ends p F) m L" "pool_space (set L) (\<lambda>n. unat (nNU m n)) = blocks p F"
    and "\<And>z. z < H \<Longrightarrow> z \<notin># free_space p F \<Longrightarrow> m z = mem p z"
proof -
  let ?C = "concat (map F [0..<38])"
  have top: "H < 2 ^ 32" and gap: "LoUnit p \<le> HiUnit p" "HiUnit p \<le> H" "12 dvd HiUnit p - LoUnit p"
    using h by (auto simp: heap_ok_def H_def)
  have low: "x < H" if "x \<in># blocks p F" for x using h that by (auto simp: heap_ok_def H_def)
  have node: "y + 12 \<le> H" "\<forall>x. y \<le> x \<and> x < y + 12 \<longrightarrow> x \<in># blocks p F" if "y \<in> set ?C" for y
    using node_in_blocks [OF h that] low [of "y + 11"] by auto
  have ap: "sorted_wrt apart (?C @ [H])"
    using free_nodes_apart [OF h] node(1) by (auto simp: sorted_wrt_append apart_def)
  have bound: "\<forall>y \<in> set (?C @ [H]). y < 2 ^ 32" using node(1) top by force
  have lists: "\<forall>i \<in> set [0..<38]. free_chain 0 (mem p) (FreeList p i) (F i)"
    using h by (simp add: heap_ok_def)
  from Glue_lists7_spec [OF lists _ _ ap bound] obtain m0 where
    m0: "Glue_lists7 [0..<38] p (REF H) =
      Some (p\<lparr>mem := m0, FreeList := (\<lambda>i. if i \<in> set [0..<38] then 0 else FreeList p i)\<rparr>, REF (hd (L @ [H])))"
      "successively (node_link7 m0) (L @ [H])"
      "\<forall>i \<in> set [0..<38]. \<forall>y \<in> set (F i). nStamp m0 y = 0 \<and> nNU m0 y = word_of_nat (I2U p i)"
      "\<forall>z. off_nodes (?C @ [H]) z \<longrightarrow> m0 z = mem p z"
    unfolding L_def by auto
  let ?Q = "hd (L @ [H])"
  define m1 where "m1 = wr_Prev (wr_Next (wr_Stamp m0 H 1) H (REF ?Q)) ?Q (REF H)"
  define m where "m = (if LoUnit p \<noteq> HiUnit p then wr_Stamp m1 (LoUnit p) 1 else m1)"
  have LH: "set L = set ?C" "sorted_wrt apart (H # L)" using apart_perm [OF ap, of "H # L"] by (auto simp: L_def)
  have Q: "?Q = H \<or> ?Q \<in> set L" by (cases L) auto
  have gap_apart: "apart (LoUnit p) y" if "LoUnit p \<noteq> HiUnit p" "y \<in> set (H # L)" for y
  proof -
    have g12: "LoUnit p + 12 \<le> HiUnit p" using gap that(1) by (auto dest: dvd_imp_le)
    show ?thesis
    proof (cases "y = H")
      case False
      then have y: "\<forall>x. y \<le> x \<and> x < y + 12 \<longrightarrow> x \<in># blocks p F" using that(2) LH(1) node(2) [of y] by auto
      have "x \<notin># blocks p F" if x: "LoUnit p \<le> x" "x < LoUnit p + 12" for x
        using free_once [OF h, of x] x g12 by (auto simp: free_space_def not_in_iff split: if_splits)
      then show ?thesis using y by (intro apart_regions [of _ "blocks p F"]) auto
    qed (use g12 gap(2) in \<open>auto simp: apart_def\<close>)
  qed
  have gapw: "nStamp m y = nStamp m1 y" "nNU m y = nNU m1 y" "nNext m y = nNext m1 y" "nPrev m y = nPrev m1 y"
    if "y \<in> set (H # L)" for y
    using gap_apart [OF _ that] by (auto simp: m_def node7_rw apart_sym)
  have pairs: "y = H \<or> apart y H" "y = ?Q \<or> apart y ?Q" if "y \<in> set (H # L)" for y
    using apart_pairs [OF LH(2) that] Q by auto
  have field: "nStamp m y = (if y = H then 1 else nStamp m0 y)" "nNU m y = nNU m0 y"
    "nNext m y = (if y = H then REF ?Q else nNext m0 y)" "nPrev m y = (if y = ?Q then REF H else nPrev m0 y)"
    if "y \<in> set (H # L)" for y
    using pairs [OF that] by (auto simp: gapw [OF that] m1_def node7_rw)
  have dist: "distinct (H # L)" by (rule apart_distinct [OF LH(2)])
  have "successively (node_link7 m) (L @ [H])"
  proof (rule successively_change [OF m0(2)])
    fix x y assume x: "x \<in> set (butlast (L @ [H]))" and y: "y \<in> set (tl (L @ [H]))" and l: "node_link7 m0 x y"
    have "x \<noteq> H" "x \<in> set L" using x dist by auto
    moreover have "y \<noteq> ?Q" "y \<in> set (H # L)" using y dist by (cases L; auto)+
    ultimately show "node_link7 m x y" using l by (simp add: node_link7_def field)
  qed
  moreover have "node_link7 m H ?Q" using Q by (auto simp: node_link7_def field)
  ultimately have circ: "successively (node_link7 m) (H # L @ [H])" by (simp add: successively_Cons)
  have ends: "nStamp m e \<noteq> 0 \<and> (e = H \<or> (\<forall>y \<in> set (H # L). apart e y))" if e: "e \<in> free_ends p F" for e
  proof -
    consider "e = LoUnit p" "LoUnit p < HiUnit p" | "e = H" | "in_use PPMd7 p F e"
      using mk e by (auto simp: marked_def H_def)
    then show ?thesis
    proof cases
      case 1
      then show ?thesis using gap_apart by (auto simp: m_def node7_rw)
    next
      case 2
      then show ?thesis by (simp add: field)
    next
      case 3
      then have u: "nStamp (mem p) e \<noteq> 0" "e + 12 \<le> H" "\<forall>x. e \<le> x \<and> x < e + 12 \<longrightarrow> x \<notin># free_space p F"
        by (auto simp: in_use_def H_def)
      have nodes: "apart e y" if "y \<in> set (H # L)" for y
      proof (cases "y = H")
        case False
        then have "\<forall>x. y \<le> x \<and> x < y + 12 \<longrightarrow> x \<in># free_space p F"
          using that LH(1) node(2) [of y] by (auto simp: free_space_def)
        then show ?thesis using u(3) by (intro apart_regions)
      qed (use u(2) in \<open>simp add: apart_def\<close>)
      have "apart e (LoUnit p)" if "LoUnit p \<noteq> HiUnit p"
      proof (rule apart_regions [OF u(3)])
        have "LoUnit p + 12 \<le> HiUnit p" using gap that by (auto dest: dvd_imp_le)
        then show "\<forall>x. LoUnit p \<le> x \<and> x < LoUnit p + 12 \<longrightarrow> x \<in># free_space p F" by (auto simp: free_space_def)
      qed
      then have "nStamp m e = nStamp m1 e" by (auto simp: m_def node7_rw)
      also have "\<dots> = nStamp m0 e"
      proof -
        have "apart e H" "apart e ?Q" "e \<noteq> H" using nodes [of H] nodes [of ?Q] Q by auto
        then show ?thesis by (simp add: m1_def node7_rw)
      qed
      also have "\<dots> = nStamp (mem p) e"
      proof (rule node7_frame)
        fix z assume z: "e \<le> z" "z < e + 12"
        have "off_nodes (H # L) z" using nodes z by (intro apart_off [of _ e]) auto
        then show "m0 z = mem p z" using m0(4) by (auto simp: L_def)
      qed
      finally show ?thesis using u(1) nodes by simp
    qed
  qed
  have nu: "unat (nNU m n) = I2U p i" if "i < 38" "n \<in> set (F i)" for i n
  proof -
    have "n \<in> set (H # L)" "nNU m0 n = word_of_nat (I2U p i)" using that m0(3) LH(1) by auto
    moreover have "I2U p i \<le> 128" using I2U_bounds [of p i] h that(1) by (simp add: heap_ok_def)
    ultimately show ?thesis by (simp add: field unat_of_nat)
  qed
  have g: "glue7 H (free_ends p F) m L"
    unfolding glue7_def
  proof (intro conjI ballI)
    show "pool_ok (\<lambda>e. e \<in> free_ends p F) (set L) (\<lambda>n. unat (nNU m n))"
      unfolding LH(1) using h nu by (rule free_pool_ok)
    show "y < 2 ^ 32" if "y \<in> set (H # L)" for y using that bound LH(1) by auto
    show "nStamp m y = 0" if y: "y \<in> set L" for y
    proof -
      have "y \<noteq> H" using y dist by auto
      moreover obtain i where "i < 38" "y \<in> set (F i)" using y by (auto simp: L_def)
      ultimately show ?thesis using y m0(3) by (simp add: field)
    qed
    show "nStamp m e \<noteq> 0" "e = H \<or> (\<forall>y \<in> set (H # L). apart e y)" if "e \<in> free_ends p F" for e using ends [OF that] by simp_all
  qed (rule circ, rule LH(2))
  have sp: "pool_space (set L) (\<lambda>n. unat (nNU m n)) = blocks p F"
    unfolding LH(1) using h nu by (rule free_pool)
  have fr: "m z = mem p z" if z: "z < H" "z \<notin># free_space p F" for z
  proof -
    have "off_nodes (?C @ [H]) z" using off_free [OF h, of z] z by (simp add: free_space_def)
    then have o: "off_nodes (H # L) z" "m0 z = mem p z" using m0(4) by (auto simp: L_def)
    then have "m1 z = mem p z" using Q by (auto simp: m1_def node7_wr_frame off_nodes_def)
    moreover have "z < LoUnit p \<or> LoUnit p + 12 \<le> z" if "LoUnit p \<noteq> HiUnit p"
      using z(2) gap that by (auto simp: free_space_def dest!: dvd_imp_le)
    ultimately show ?thesis by (auto simp: m_def node7_wr_frame)
  qed
  have "m = (let m = wr_Stamp m0 H 1; m = wr_Next m H (REF ?Q); m = wr_Prev m ?Q (REF H) in
      if LoUnit p \<noteq> HiUnit p then wr_Stamp m (LoUnit p) 1 else m)"
    by (simp add: m_def m1_def Let_def)
  from that [OF m0(1) this g sp fr] show thesis .
qed

theorem GlueFreeBlocks7_glues:
  assumes h: "heap_ok PPMd7 p F" and mk: "marked PPMd7 p F"
  obtains p' F' where "GlueFreeBlocks7 p = Some p'" "glues PPMd7 p F p' F'"
proof -
  let ?H = "arena_top p" and ?L = "rev (concat (map F [0..<38]))" and ?S = "free_ends p F"
  define q where "q = p\<lparr>GlueCount := 255\<rparr>"
  have qf: "LoUnit q = LoUnit p" "HiUnit q = HiUnit p" "arena_top q = arena_top p" "free_space q F = free_space p F"
    "blocks q F = blocks p F" "free_ends q F = free_ends p F" "mem q = mem p" "same_model p q" "regions q = regions p"
    "FreeList q = FreeList p" "Text q = Text p" "UnitsStart q = UnitsStart p" "tables_ok q = tables_ok p" "I2U q = I2U p"
    by (simp_all add: q_def arena_top_def free_space_def blocks_def free_ends_def I2U_def same_model_def ppmd.truncate_def
        regions_def tables_ok_def fun_eq_iff)
  have hq: "heap_ok PPMd7 q F" "marked PPMd7 q F"
    using h mk unfolding heap_ok_def marked_def in_use_def qf by blast+
  obtain m0 m where g: "Glue_lists7 [0..<38] q (REF ?H) =
      Some (q\<lparr>mem := m0, FreeList := (\<lambda>i. if i \<in> set [0..<38] then 0 else FreeList p i)\<rparr>, REF (hd (?L @ [?H])))"
    "m = (let m = wr_Stamp m0 ?H 1; m = wr_Next m ?H (REF (hd (?L @ [?H]))); m = wr_Prev m (hd (?L @ [?H])) (REF ?H) in
      if LoUnit p \<noteq> HiUnit p then wr_Stamp m (LoUnit p) 1 else m)"
    "glue7 ?H ?S m ?L" "pool_space (set ?L) (\<lambda>n. unat (nNU m n)) = blocks p F"
    "\<And>z. z < ?H \<Longrightarrow> z \<notin># free_space p F \<Longrightarrow> m z = mem p z"
    by (rule glue7_start [OF hq, unfolded qf]) (rule that)
  obtain m' xs where b: "Glue_blocks7 (REF ?H) m (REF (hd (?L @ [?H]))) = Some m'" "glue7 ?H ?S m' xs" "set xs \<subseteq> set ?L"
    "pool_space (set xs) (\<lambda>n. unat (nNU m' n)) = blocks p F"
    "\<forall>z. off_nodes (?H # ?L) z \<longrightarrow> m' z = m z"
    using Glue_blocks7_spec [of ?H ?S m "[]" ?L] g(3,4) by auto
  have top: "?H < 2 ^ 32" "?H = unat (AlignOffset p + Size p)"
    using h by (simp_all add: heap_ok_def arena_top_def unat_word_ariths)
  have head: "AlignOffset q + Size q = REF ?H" "GetPtr (REF ?H) = ?H"
    using GetPtr_REF [OF top(1)] by (simp_all add: q_def REF_def top(2))
  have first: "GetPtr (REF (hd (?L @ [?H]))) = hd (?L @ [?H])"
    using g(3) hd_in [of ?L ?H] unfolding glue7_def by (intro GetPtr_REF) blast
  define r where "r = q\<lparr>FreeList := (\<lambda>i. if i \<in> set [0..<38] then 0 else FreeList p i), mem := m'\<rparr>"
  have G: "GlueFreeBlocks7 p = Glue_fill7 (REF ?H) r (nNext m' ?H)"
  proof -
    have a: "AlignOffset p + Size p = REF ?H" using head(1) by (simp add: q_def)
    show ?thesis
      unfolding GlueFreeBlocks7_def Let_def PPMD_NUM_INDEXES_eq a g(1) [unfolded q_def]
      using b(1) [unfolded g(2) Let_def]
      by (cases "LoUnit p = HiUnit p") (simp_all add: head(2) first r_def q_def del: set_upt)
  qed
  have suc: "successively (node_link7 m') (?H # xs @ [?H])" and ap: "sorted_wrt apart (?H # xs)"
    and pool: "pool_ok (\<lambda>e. e \<in> ?S) (set xs) (\<lambda>n. unat (nNU m' n))" using b(2) by (auto simp: glue7_def)
  have nx: "nNext m' ?H = REF (hd (xs @ [?H]))" and suc': "successively (node_link7 (mem r)) (xs @ [?H])"
    using suc by (simp_all add: successively_Cons node_link7_def r_def)
  have rf: "UnitsStart r = UnitsStart p" "arena_top r = arena_top p" "mem r = m'" "same_model p r" "regions r = regions p"
    by (simp_all add: r_def q_def arena_top_def same_model_def ppmd.truncate_def regions_def)
  have free0: "blocks r (\<lambda>_. []) = {#}" by (simp add: blocks_def)
  then have free: "free_space r (\<lambda>_. []) + blocks p F = free_space p F"
    by (simp add: free_space_def r_def q_def)
  have once: "count (free_space r (\<lambda>_. [])) x \<le> 1" for x
    using free_once [OF h, of x] unfolding free [symmetric] by simp
  have hr: "heap_ok PPMd7 r (\<lambda>_. [])"
    using h once free0 by (simp add: heap_ok_def r_def q_def tables_ok_def arena_top_def)
  have xs: "(\<Sum>y\<leftarrow>xs. span y (U2B (unat (nNU (mem r) y)))) = blocks p F"
    using pool_space_list [OF apart_distinct, of xs "\<lambda>n. unat (nNU m' n)"] ap b(4) by (simp add: rf)
  have in_range: "UnitsStart r \<le> y \<and> y + U2B (unat (nNU (mem r) y)) \<le> arena_top r" if y: "y \<in> set xs" for y
  proof -
    let ?k = "U2B (unat (nNU m' y))"
    have k: "0 < ?k" using pool y by (auto simp: pool_ok_def U2B_def UNIT_SIZE_def)
    have "x \<in># blocks p F" if "y \<le> x" "x < y + ?k" for x
      unfolding xs [symmetric] using that y by (auto simp: rf intro!: bexI [of _ y])
    from this [of y] this [of "y + ?k - 1"] k have "y \<in># blocks p F" "y + ?k - 1 \<in># blocks p F" by auto
    then show ?thesis using h k unfolding rf heap_ok_def by (metis Suc_leI Suc_pred add_gr_0 diff_Suc_1 Suc_pred')
  qed
  have pos: "\<forall>y \<in> set xs. 0 < nNU (mem r) y"
    using pool by (auto simp: pool_ok_def rf word_less_nat_alt)
  have cnt: "\<forall>x. count (free_space r (\<lambda>_. []) + (\<Sum>y\<leftarrow>xs. span y (U2B (unat (nNU (mem r) y))))) x \<le> 1"
    unfolding xs free using free_once [OF h] by blast
  obtain p' F' where f: "Glue_fill7 (REF ?H) r (REF (hd (xs @ [?H]))) = Some p'" "heap_ok PPMd7 p' F'"
    "free_space p' F' = free_space r (\<lambda>_. []) + blocks p F" "same_model r p'" "regions p' = regions r"
    "\<forall>z. z \<notin># blocks p F \<longrightarrow> mem p' z = mem r z"
    using Glue_fill7_spec [OF hr suc' pos cnt _ rf(2) [symmetric], unfolded xs] in_range by blast
  have same: "same_model p p'" "regions p' = regions p" using same_model_trans [OF rf(4) f(4)] f(5) rf(5) by auto
  have sp: "free_space p' F' = free_space p F" unfolding f(3) free ..
  have bl: "blocks p' F' = blocks p F"
    using sp same_modelD(1) [OF same(1)] same(2) by (simp add: free_space_def regions_def)
  have fr: "mem p' z = mem p z" if z: "z < ?H" "z \<notin># free_space p F" for z
  proof -
    have nb: "z \<notin># blocks p F" using z(2) by (auto simp: free_space_def)
    have "off_nodes (?H # ?L) z" using off_free [OF h nb] z(1) by simp
    then show ?thesis using f(6) nb b(5) g(5) [OF z] by (simp add: rf)
  qed
  show thesis using that [of p' F'] G f(1,2) nx same sp bl fr by (simp add: glues_def)
qed

end
