(* ===== verification/Glue8.thy ===== *)
theory Glue8
  imports Suballocator
begin

text \<open>
  \<^verbatim>\<open>GlueFreeBlocks\<close> of \<^verbatim>\<open>Ppmd8.c\<close>: every node of the free lists absorbs the free blocks behind it, which it marks
  with a number of units of 0, and joins a list, unless it has been absorbed itself; the list is then put back into the
  free lists.  The function returns, and the free space is what it was.
\<close>

section \<open>Nodes\<close>

lemmas node8_defs = nStamp8_def nNU8_def nNext8_def wr_Stamp8_def wr_NU8_def wr_Next8_def

lemma node8_rw:
  assumes "x = a \<or> apart x a"
  shows "nNext8 (wr_Next8 m a v) x = (if x = a then v else nNext8 m x)" "nNext8 (wr_Stamp8 m a v) x = nNext8 m x"
    "nNext8 (wr_NU8 m a v) x = nNext8 m x"
    "nStamp8 (wr_Stamp8 m a v) x = (if x = a then v else nStamp8 m x)" "nStamp8 (wr_Next8 m a v) x = nStamp8 m x"
    "nStamp8 (wr_NU8 m a v) x = nStamp8 m x"
    "nNU8 (wr_NU8 m a v) x = (if x = a then v else nNU8 m x)" "nNU8 (wr_Next8 m a v) x = nNU8 m x"
    "nNU8 (wr_Stamp8 m a v) x = nNU8 m x"
  using assms by (auto simp: node8_defs apart_def mem_frame)

lemma node8_frame:
  assumes "\<And>z. x \<le> z \<Longrightarrow> z < x + 12 \<Longrightarrow> m' z = m z"
  shows "nStamp8 m' x = nStamp8 m x" "nNU8 m' x = nNU8 m x" "nNext8 m' x = nNext8 m x"
  using assms by (auto simp: node8_defs intro!: rd32_cong)

lemma node8_wr_frame:
  assumes "z < a \<or> a + 12 \<le> z"
  shows "wr_Stamp8 m a v z = m z" "wr_NU8 m a v z = m z" "wr_Next8 m a v z = m z"
  using assms by (auto simp: node8_defs wr32_def wr16_def)

definition node_link8 :: "arena \<Rightarrow> nat \<Rightarrow> nat \<Rightarrow> bool" where
  "node_link8 m x y \<longleftrightarrow> nNext8 m x = REF y"

definition units8 :: "arena \<Rightarrow> nat \<Rightarrow> nat" where
  "units8 m n = unat (nNU8 m n)"

text \<open>
  \<open>A\<close> are the nodes of all lists, \<open>live\<close> those that have not been absorbed, \<open>L\<close> the list built so far: a
  node of it lies in no block of a node before it.
\<close>

definition live :: "nat list \<Rightarrow> arena \<Rightarrow> nat set" where
  "live A m = {n \<in> set A. 0 < units8 m n}"

definition glue8 :: "nat list \<Rightarrow> nat set \<Rightarrow> nat multiset \<Rightarrow> arena \<Rightarrow> nat list \<Rightarrow> bool" where
  "glue8 A S B m L \<longleftrightarrow> sorted_wrt apart A \<and> (\<forall>y \<in> set A. y < 2 ^ 32 \<and> nStamp8 m y = EMPTY_NODE) \<and>
     (\<forall>e \<in> S. nStamp8 m e \<noteq> EMPTY_NODE \<and> (\<forall>y \<in> set A. apart e y)) \<and> (\<forall>x \<in># B. x < 2 ^ 32) \<and>
     pool_ok (\<lambda>e. e \<in> S) (live A m) (units8 m) \<and> pool_space (live A m) (units8 m) = B \<and>
     distinct L \<and> set L \<subseteq> set A \<and> successively (node_link8 m) L \<and>
     sorted_wrt (\<lambda>x y. y \<notin># span x (U2B (units8 m x))) L"

lemma sorted_wrt_change:
  "sorted_wrt P L \<Longrightarrow> distinct L \<Longrightarrow> (\<And>x y. x \<in> set (butlast L) \<Longrightarrow> y \<in> set L \<Longrightarrow> x \<noteq> y \<Longrightarrow> P x y \<Longrightarrow> Q x y) \<Longrightarrow> sorted_wrt Q L"
proof (induction L)
  case (Cons a L)
  have "sorted_wrt Q L" using Cons by (cases "L = []") auto
  moreover have "\<forall>y \<in> set L. Q a y" using Cons.prems by (cases "L = []") auto
  ultimately show ?case by simp
qed simp

lemma span_in_pool:
  assumes "pool_ok stop N \<nu>" "n \<in> N" "n \<le> x" "x < n + U2B (\<nu> n)"
  shows "x \<in># pool_space N \<nu>"
  using assms by (auto simp: pool_ok_def pool_space_def set_mset_sum)

section \<open>Absorbing\<close>

lemma glue8_merge:
  assumes g: "glue8 A S B m (L @ [n])" and n: "0 < units8 m n" and e: "e = n + U2B (units8 m n)" "nStamp8 m e = EMPTY_NODE"
    and m': "m' = wr_NU8 (wr_NU8 m n (nNU8 m n + nNU8 m e)) e 0"
  shows "glue8 A S B m' (L @ [n])" "0 < units8 m' n" "\<forall>y \<in> set A. nNext8 m' y = nNext8 m y"
    "live A m' \<subset> live A m" "\<forall>z. off_nodes A z \<longrightarrow> m' z = m z"
proof -
  have A: "sorted_wrt apart A" "n \<in> set A" and pool: "pool_ok (\<lambda>e. e \<in> S) (live A m) (units8 m)"
    and B: "pool_space (live A m) (units8 m) = B" "\<forall>x \<in># B. x < 2 ^ 32" using g by (auto simp: glue8_def)
  have nl: "n \<in> live A m" using A(2) n by (simp add: live_def)
  then have "e \<in> live A m \<or> e \<in> S" using pool e(1) by (auto simp: pool_ok_def)
  then have el: "e \<in> live A m" using g e(2) by (auto simp: glue8_def)
  then have eA: "e \<in> set A" "0 < units8 m e" by (auto simp: live_def)
  have ne: "n \<noteq> e" using n e(1) by (simp add: U2B_def UNIT_SIZE_def)
  note merge = pool_merge [OF pool nl e(1) el]
  let ?\<nu> = "(units8 m)(n := units8 m n + units8 m e)"
  have "n \<in> live A m - {e}" using nl ne by simp
  then have "n + U2B (?\<nu> n) - 1 \<in># B"
    using span_in_pool [OF merge(2), of n "n + U2B (?\<nu> n) - 1"] n unfolding merge(1) B(1)
    by (simp add: U2B_def UNIT_SIZE_def)
  then have "n + U2B (?\<nu> n) - 1 < 2 ^ 32" using B(2) by blast
  then have "units8 m n + units8 m e < 2 ^ 32" using n by (simp add: U2B_def UNIT_SIZE_def)
  then have sum: "unat (nNU8 m n + nNU8 m e) = units8 m n + units8 m e" by (simp add: units8_def unat_word_ariths)
  have pairs: "y = n \<or> apart y n" "y = e \<or> apart y e" if "y \<in> set A" for y
    using apart_pairs [OF A(1) that] A(2) eA(1) by auto
  have u: "units8 m' y = (if y = e then 0 else ?\<nu> y)" if "y \<in> set A" for y
    using pairs [OF that] ne sum by (auto simp: m' units8_def node8_rw)
  have live: "live A m' = live A m - {e}" using u n eA(2) A(2) by (auto simp: live_def split: if_splits)
  have cong: "pool_space (live A m') (units8 m') = pool_space (live A m') ?\<nu>"
    "pool_ok (\<lambda>e. e \<in> S) (live A m') (units8 m') = pool_ok (\<lambda>e. e \<in> S) (live A m') ?\<nu>"
    by (rule pool_cong, use u in \<open>force simp: live_def\<close>)+
  show nexts: "\<forall>y \<in> set A. nNext8 m' y = nNext8 m y" using pairs by (auto simp: m' node8_rw)
  have stamp: "nStamp8 m' y = nStamp8 m y" if "y \<in> set A \<or> y \<in> S" for y
  proof -
    have "y = n \<or> apart y n" "y = e \<or> apart y e" using that pairs g A(2) eA(1) by (auto simp: glue8_def)
    then show ?thesis by (simp add: m' node8_rw)
  qed
  have suc: "successively (node_link8 m) (L @ [n])" and sub: "set (L @ [n]) \<subseteq> set A" using g by (simp_all only: glue8_def)
  have "successively (node_link8 m') (L @ [n])"
    using suc by (rule successively_mono) (metis nexts node_link8_def subsetD [OF sub])
  moreover have "sorted_wrt (\<lambda>x y. y \<notin># span x (U2B (units8 m' x))) (L @ [n])"
  proof (rule sorted_wrt_change)
    show "sorted_wrt (\<lambda>x y. y \<notin># span x (U2B (units8 m x))) (L @ [n])" "distinct (L @ [n])"
      using g by (simp_all only: glue8_def)
    fix x y assume "x \<in> set (butlast (L @ [n]))" "y \<notin># span x (U2B (units8 m x))"
    moreover have "x \<noteq> n" "x \<in> set A" using calculation(1) g by (auto simp: glue8_def)
    ultimately show "y \<notin># span x (U2B (units8 m' x))" using u [of x] by (auto simp: U2B_def)
  qed
  ultimately show "glue8 A S B m' (L @ [n])"
    using g stamp merge unfolding glue8_def cong unfolding live B(1) by auto
  show "0 < units8 m' n" using u [OF A(2)] n ne by simp
  show "live A m' \<subset> live A m" using live el by blast
  show "\<forall>z. off_nodes A z \<longrightarrow> m' z = m z" using A(2) eA(1) by (auto simp: m' off_nodes_def node8_wr_frame)
qed

lemma Glue_absorb8_spec:
  "glue8 A S B m (L @ [n]) \<Longrightarrow> 0 < units8 m n \<Longrightarrow>
   \<exists>m'. Glue_absorb8 m n = Some m' \<and> glue8 A S B m' (L @ [n]) \<and> (\<forall>y \<in> set A. nNext8 m' y = nNext8 m y) \<and>
     live A m' \<subseteq> live A m \<and> (\<forall>z. off_nodes A z \<longrightarrow> m' z = m z)"
proof (induction "card (live A m)" arbitrary: m rule: less_induct)
  case less
  let ?e = "n + U2B (units8 m n)" and ?m = "wr_NU8 (wr_NU8 m n (nNU8 m n + nNU8 m (n + U2B (units8 m n)))) (n + U2B (units8 m n)) 0"
  have step: "Glue_absorb8 m n = (if nStamp8 m ?e = EMPTY_NODE then Glue_absorb8 ?m n else Some m)"
    by (subst Glue_absorb8.simps) (simp add: Let_def units8_def)
  show ?case
  proof (cases "nStamp8 m ?e = EMPTY_NODE")
    case True
    note mg = glue8_merge [OF less.prems refl True refl]
    have "card (live A ?m) < card (live A m)" by (rule psubset_card_mono [OF _ mg(4)]) (simp add: live_def)
    from less.hyps [OF this mg(1,2)] mg(3-5) show ?thesis unfolding step using True by (auto simp: psubset_eq)
  qed (use less.prems step in auto)
qed

section \<open>The list\<close>

definition link_to8 :: "UInt32 \<Rightarrow> link \<Rightarrow> nat list \<Rightarrow> bool" where
  "link_to8 head prev L \<longleftrightarrow> (if L = [] then prev = Head else prev = NextOf (last L) \<and> head = REF (hd L))"

lemma put_link8_spec:
  assumes g: "glue8 A S B m L" and l: "link_to8 head prev L" and x: "x \<in> live A m" "x \<notin> set L"
  obtains m' where "put_link m head prev (REF x) = (m', REF (hd (L @ [x])))" "glue8 A S B m' (L @ [x])" "live A m' = live A m"
    "\<forall>y \<in> set A. y \<notin> set L \<longrightarrow> nNext8 m' y = nNext8 m y" "units8 m' x = units8 m x" "\<forall>z. off_nodes A z \<longrightarrow> m' z = m z"
proof -
  define m' where "m' = (if L = [] then m else wr_Next8 m (last L) (REF x))"
  have A: "sorted_wrt apart A" "set L \<subseteq> set A" "x \<in> set A" "distinct L" and pool: "pool_ok (\<lambda>e. e \<in> S) (live A m) (units8 m)"
    using g x(1) by (auto simp: glue8_def live_def)
  have last: "last L \<in> set L" if "L \<noteq> []" using that by simp
  have pairs: "y = last L \<or> apart y (last L)" if "L \<noteq> []" "y \<in> set A \<or> y \<in> S" for y
    using that apart_pairs [OF A(1)] g subsetD [OF A(2) last] by (auto simp: glue8_def)
  have same: "nStamp8 m' y = nStamp8 m y" "units8 m' y = units8 m y"
    "nNext8 m' y = (if L \<noteq> [] \<and> y = last L then REF x else nNext8 m y)" if "y \<in> set A \<or> y \<in> S" for y
    using pairs [OF _ that] by (auto simp: m'_def node8_rw units8_def)
  have live: "live A m' = live A m" using same(2) by (auto simp: live_def)
  have cong: "pool_space (live A m') (units8 m') = pool_space (live A m) (units8 m)"
    "pool_ok (\<lambda>e. e \<in> S) (live A m') (units8 m') = pool_ok (\<lambda>e. e \<in> S) (live A m) (units8 m)"
    unfolding live by (rule pool_cong, use same(2) in \<open>force simp: live_def\<close>)+
  have suc: "successively (node_link8 m) L" using g by (simp add: glue8_def)
  have suc': "successively (node_link8 m') L"
  proof (rule successively_change [OF suc])
    fix a b assume a: "a \<in> set (butlast L)" and l: "node_link8 m a b"
    have "L \<noteq> []" using a by auto
    then have "distinct (butlast L @ [last L])" using A(4) by simp
    then have "a \<noteq> last L" using a by auto
    then show "node_link8 m' a b" using l in_set_butlastD [OF a] A(2) same(3) [of a] by (auto simp: node_link8_def)
  qed
  have "node_link8 m' (last L) x" if "L \<noteq> []" using same(3) [of "last L"] subsetD [OF A(2) last] that by (simp add: node_link8_def)
  then have suc'': "successively (node_link8 m') (L @ [x])" using suc' by (auto simp: successively_append_iff)
  have old: "sorted_wrt (\<lambda>x y. y \<notin># span x (U2B (units8 m x))) L" using g by (simp only: glue8_def)
  have "sorted_wrt (\<lambda>x y. y \<notin># span x (U2B (units8 m' x))) L"
    by (rule sorted_wrt_change [OF old A(4)]) (use A(2) same(2) in \<open>auto dest!: in_set_butlastD\<close>)
  moreover have "x \<notin># span y (U2B (units8 m' y))" if y: "y \<in> set L" for y
  proof (cases "0 < units8 m y")
    case True
    then have "y \<in> live A m" using y A(2) by (auto simp: live_def)
    moreover have "y \<noteq> x" "y \<in> set A" using y x(2) A(2) by auto
    ultimately have "y + U2B (units8 m y) \<le> x \<or> x + U2B (units8 m x) \<le> y" "0 < units8 m x"
      using pool_apart [OF pool _ x(1), of y] x(1) by (auto simp: live_def)
    then show ?thesis using same(2) [of y] \<open>y \<in> set A\<close> by (auto simp: U2B_def UNIT_SIZE_def)
  next
    case False
    then show ?thesis using y A(2) same(2) [of y] by (auto simp: U2B_def)
  qed
  ultimately have "sorted_wrt (\<lambda>x y. y \<notin># span x (U2B (units8 m' x))) (L @ [x])" by (simp add: sorted_wrt_append del: in_span)
  then have g': "glue8 A S B m' (L @ [x])"
    using g same(1) suc'' x(2) A(3) unfolding glue8_def cong by auto
  have "put_link m head prev (REF x) = (m', REF (hd (L @ [x])))"
    using l by (auto simp: put_link_def link_to8_def m'_def hd_append)
  moreover have "\<forall>y \<in> set A. y \<notin> set L \<longrightarrow> nNext8 m' y = nNext8 m y" using same(3) last by auto
  moreover have "\<forall>z. off_nodes A z \<longrightarrow> m' z = m z"
    using subsetD [OF A(2) last] by (auto simp: m'_def off_nodes_def node8_wr_frame)
  ultimately show thesis using that g' live same(2) A(3) by blast
qed

lemma free_chain_cong:
  "free_chain off m r ns \<Longrightarrow> \<forall>n \<in> set ns. rd32 m' (n + off) = rd32 m (n + off) \<Longrightarrow> free_chain off m' r ns"
  by (induction ns arbitrary: r) auto

lemma Glue_list8_spec:
  "glue8 A S B m L \<Longrightarrow> link_to8 head prev L \<Longrightarrow> free_chain 4 m nx ns \<Longrightarrow> set ns \<subseteq> set A \<Longrightarrow> distinct ns \<Longrightarrow>
     set ns \<inter> set L = {} \<Longrightarrow>
   \<exists>m' head' prev' L'. Glue_list8 m head prev nx = Some (m', head', prev') \<and> glue8 A S B m' L' \<and> link_to8 head' prev' L' \<and>
     set L \<subseteq> set L' \<and> set L' \<subseteq> set L \<union> set ns \<and> live A m' \<subseteq> live A m \<and> set ns \<inter> live A m' \<subseteq> set L' \<and>
     (\<forall>y \<in> set A - set L - set ns. nNext8 m' y = nNext8 m y) \<and> (\<forall>z. off_nodes A z \<longrightarrow> m' z = m z)"
proof (induction ns arbitrary: m L head prev nx)
  case Nil
  then show ?case by (subst Glue_list8.simps) auto
next
  case (Cons x ns)
  have nx: "nx \<noteq> 0" "GetPtr nx = x" "nx = REF x" and ch: "free_chain 4 m (nNext8 m x) ns"
    using Cons.prems(3) by (auto simp: nNext8_def)
  have x: "x \<in> set A" "x \<notin> set L" "x \<notin> set ns" using Cons.prems by auto
  show ?case
  proof (cases "nNU8 m x = 0")
    case True
    then have "Glue_list8 m head prev nx = Glue_list8 m head prev (nNext8 m x)"
      by (subst Glue_list8.simps) (simp add: nx(1,2) Let_def)
    moreover have dead: "x \<notin> live A m" using True by (simp add: live_def units8_def)
    moreover have dj: "set ns \<subseteq> set A" "distinct ns" "set ns \<inter> set L = {}" using Cons.prems(4-6) by auto
    obtain m' head' prev' L' where r: "Glue_list8 m head prev (nNext8 m x) = Some (m', head', prev')"
      "glue8 A S B m' L'" "link_to8 head' prev' L'" "set L \<subseteq> set L'" "set L' \<subseteq> set L \<union> set ns" "live A m' \<subseteq> live A m"
      "set ns \<inter> live A m' \<subseteq> set L'" "\<forall>y \<in> set A - set L - set ns. nNext8 m' y = nNext8 m y"
      "\<forall>z. off_nodes A z \<longrightarrow> m' z = m z"
      using Cons.IH [OF Cons.prems(1,2) ch dj] by blast
    moreover have "set L' \<subseteq> set L \<union> set (x # ns)" "set (x # ns) \<inter> live A m' \<subseteq> set L'" using r(5-7) dead by auto
    moreover have "\<forall>y \<in> set A - set L - set (x # ns). nNext8 m' y = nNext8 m y" using r(8) by auto
    ultimately show ?thesis by auto
  next
    case False
    then have lx: "x \<in> live A m" using x(1) by (simp add: live_def units8_def word_less_nat_alt unat_gt_0)
    obtain m1 where m1: "put_link m head prev (REF x) = (m1, REF (hd (L @ [x])))" "glue8 A S B m1 (L @ [x])" "live A m1 = live A m"
      "\<forall>y \<in> set A. y \<notin> set L \<longrightarrow> nNext8 m1 y = nNext8 m y" "units8 m1 x = units8 m x" "\<forall>z. off_nodes A z \<longrightarrow> m1 z = m z"
      by (rule put_link8_spec [OF Cons.prems(1,2) lx x(2)])
    have "0 < units8 m1 x" using lx m1(5) by (simp add: live_def)
    then obtain m2 where m2: "Glue_absorb8 m1 x = Some m2" "glue8 A S B m2 (L @ [x])" "\<forall>y \<in> set A. nNext8 m2 y = nNext8 m1 y"
      "live A m2 \<subseteq> live A m1" "\<forall>z. off_nodes A z \<longrightarrow> m2 z = m1 z"
      using Glue_absorb8_spec [OF m1(2)] by blast
    have nexts: "nNext8 m2 y = nNext8 m y" if "y \<in> set A" "y \<notin> set L" for y using m1(4) m2(3) that by simp
    have ch': "free_chain 4 m2 (nNext8 m2 x) ns"
      unfolding nexts [OF x(1,2)]
    proof (rule free_chain_cong [OF ch], intro ballI)
      fix n assume "n \<in> set ns"
      then show "rd32 m2 (n + 4) = rd32 m (n + 4)" using nexts [of n] Cons.prems(4,6) by (auto simp: nNext8_def)
    qed
    have l': "link_to8 (REF (hd (L @ [x]))) (NextOf x) (L @ [x])" by (simp add: link_to8_def)
    have dj: "set ns \<subseteq> set A" "distinct ns" "set ns \<inter> set (L @ [x]) = {}" using Cons.prems(4-6) by auto
    obtain m' head' prev' L' where r: "Glue_list8 m2 (REF (hd (L @ [x]))) (NextOf x) (nNext8 m2 x) = Some (m', head', prev')"
      "glue8 A S B m' L'" "link_to8 head' prev' L'" "set (L @ [x]) \<subseteq> set L'" "set L' \<subseteq> set (L @ [x]) \<union> set ns" "live A m' \<subseteq> live A m2"
      "set ns \<inter> live A m' \<subseteq> set L'" "\<forall>y \<in> set A - set (L @ [x]) - set ns. nNext8 m' y = nNext8 m2 y"
      "\<forall>z. off_nodes A z \<longrightarrow> m' z = m2 z"
      using Cons.IH [OF m2(2) l' ch' dj] by blast
    have "Glue_list8 m head prev nx = Some (m', head', prev')"
      using False m1(1) m2(1) r(1) by (subst Glue_list8.simps) (simp add: nx(1,2) nx(3) [symmetric] Let_def)
    moreover have "set L \<subseteq> set L'" "set L' \<subseteq> set L \<union> set (x # ns)" "live A m' \<subseteq> live A m" "set (x # ns) \<inter> live A m' \<subseteq> set L'"
      using r(4-7) m2(4) m1(3) by auto
    moreover have "\<forall>y \<in> set A - set L - set (x # ns). nNext8 m' y = nNext8 m y" using r(8) nexts by auto
    moreover have "\<forall>z. off_nodes A z \<longrightarrow> m' z = m z" using r(9) m2(5) m1(6) by auto
    ultimately show ?thesis using r(2,3) by blast
  qed
qed

lemma Glue_lists8_spec:
  "glue8 A S B (mem p) L \<Longrightarrow> link_to8 head prev L \<Longrightarrow> \<forall>i \<in> set is. free_chain 4 (mem p) (FreeList p i) (F i) \<Longrightarrow> distinct is \<Longrightarrow>
     set (concat (map F is)) \<subseteq> set A \<Longrightarrow> distinct (concat (map F is)) \<Longrightarrow> set (concat (map F is)) \<inter> set L = {} \<Longrightarrow>
   \<exists>m' head' prev' L'. Glue_lists8 is p head prev =
       Some (p\<lparr>mem := m', FreeList := (\<lambda>i. if i \<in> set is then 0 else FreeList p i)\<rparr>, head', prev') \<and>
     glue8 A S B m' L' \<and> link_to8 head' prev' L' \<and> set L \<subseteq> set L' \<and> live A m' \<subseteq> live A (mem p) \<and>
     set (concat (map F is)) \<inter> live A m' \<subseteq> set L' \<and> (\<forall>z. off_nodes A z \<longrightarrow> m' z = mem p z)"
proof (induction "is" arbitrary: p L head prev)
  case Nil
  then show ?case by (intro exI [of _ "mem p"] exI [of _ head] exI [of _ prev] exI [of _ L]) simp
next
  case (Cons i "is")
  let ?G = "concat (map F is)"
  have Fi: "free_chain 4 (mem p) (FreeList p i) (F i)" "set (F i) \<subseteq> set A" "distinct (F i)" "set (F i) \<inter> set L = {}"
    using Cons.prems by auto
  obtain m1 head1 prev1 L1 where m1: "Glue_list8 (mem p) head prev (FreeList p i) = Some (m1, head1, prev1)" "glue8 A S B m1 L1"
    "link_to8 head1 prev1 L1" "set L \<subseteq> set L1" "set L1 \<subseteq> set L \<union> set (F i)" "live A m1 \<subseteq> live A (mem p)"
    "set (F i) \<inter> live A m1 \<subseteq> set L1" "\<forall>y \<in> set A - set L - set (F i). nNext8 m1 y = nNext8 (mem p) y"
    "\<forall>z. off_nodes A z \<longrightarrow> m1 z = mem p z"
    using Glue_list8_spec [OF Cons.prems(1,2) Fi] by blast
  let ?p = "p\<lparr>mem := m1, FreeList := (FreeList p)(i := 0)\<rparr>"
  have ch: "free_chain 4 (mem ?p) (FreeList ?p j) (F j)" if j: "j \<in> set is" for j
  proof -
    have "free_chain 4 m1 (FreeList p j) (F j)"
    proof (rule free_chain_cong)
      show "free_chain 4 (mem p) (FreeList p j) (F j)" using Cons.prems(3) j by simp
      show "\<forall>n \<in> set (F j). rd32 m1 (n + 4) = rd32 (mem p) (n + 4)"
      proof
        fix n assume n: "n \<in> set (F j)"
        then have "n \<in> set ?G" using j by auto
        then have "n \<in> set A - set L - set (F i)" using Cons.prems(5-7) by auto
        then show "rd32 m1 (n + 4) = rd32 (mem p) (n + 4)" using m1(8) by (simp add: nNext8_def)
      qed
    qed
    then show ?thesis using j Cons.prems(4) by auto
  qed
  have dj: "distinct is" "set ?G \<subseteq> set A" "distinct ?G" "set ?G \<inter> set (F i) = {}" "set ?G \<inter> set L = {}"
    using Cons.prems(4-7) by auto
  then have dj: "distinct is" "set ?G \<subseteq> set A" "distinct ?G" "set ?G \<inter> set L1 = {}" using m1(5) by blast+
  have upd: "?p\<lparr>mem := m', FreeList := (\<lambda>i. if i \<in> set is then 0 else FreeList ?p i)\<rparr> =
      p\<lparr>mem := m', FreeList := (\<lambda>j. if j \<in> set (i # is) then 0 else FreeList p j)\<rparr>" for m'
  proof -
    have "(\<lambda>i. if i \<in> set is then 0 else FreeList ?p i) = (\<lambda>j. if j \<in> set (i # is) then 0 else FreeList p j)" by auto
    then show ?thesis by simp
  qed
  have g1: "glue8 A S B (mem ?p) L1" and chs: "\<forall>j \<in> set is. free_chain 4 (mem ?p) (FreeList ?p j) (F j)" using m1(2) ch by auto
  obtain m' head' prev' L' where r: "Glue_lists8 is ?p head1 prev1 =
       Some (p\<lparr>mem := m', FreeList := (\<lambda>j. if j \<in> set (i # is) then 0 else FreeList p j)\<rparr>, head', prev')"
     "glue8 A S B m' L'" "link_to8 head' prev' L'" "set L1 \<subseteq> set L'" "live A m' \<subseteq> live A m1" "set ?G \<inter> live A m' \<subseteq> set L'"
     "\<forall>z. off_nodes A z \<longrightarrow> m' z = m1 z"
    using Cons.IH [OF g1 m1(3) chs dj] unfolding upd by auto
  have "Glue_lists8 (i # is) p head prev = Glue_lists8 is ?p head1 prev1" using m1(1) by simp
  moreover have "set L \<subseteq> set L'" "live A m' \<subseteq> live A (mem p)" using m1(4,6) r(4,5) by auto
  moreover have "set (concat (map F (i # is))) \<inter> live A m' \<subseteq> set L'" using m1(7) r(4-6) by auto
  moreover have "\<forall>z. off_nodes A z \<longrightarrow> m' z = mem p z" using r(7) m1(9) by auto
  ultimately show ?case using r(1-3) by (intro exI conjI) auto
qed

section \<open>Back into the lists\<close>

lemma Glue_put8_gives:
  assumes "heap_ok PPMd8 p F" "0 < nu" "room_for p F n (U2B nu)"
  obtains F' where "gives PPMd8 p F (Glue_put8 p n nu) F' n (U2B nu)"
proof -
  from fu8.cut_gives [OF assms] obtain F' where
    "gives PPMd8 p F (case Glue_cut8 p n nu of (q, b, l) \<Rightarrow> put_units InsertNode8 q b l) F' n (U2B nu)" .
  moreover have "(case Glue_cut8 p n nu of (q, b, l) \<Rightarrow> put_units InsertNode8 q b l) = Glue_put8 p n nu"
    by (simp add: Glue_put8_def put_units_def Let_def split: prod.split)
  ultimately show thesis using that by simp
qed

lemma Glue_fill8_spec:
  assumes "heap_ok PPMd8 p F" "free_chain 4 (mem p) head b" "sorted_wrt apart b"
    and "sorted_wrt (\<lambda>x y. y \<notin># span x (U2B (units8 (mem p) x))) b"
    and "\<forall>x. count (free_space p F + (\<Sum>y\<leftarrow>b. span y (U2B (units8 (mem p) y)))) x \<le> 1"
    and "\<forall>y \<in> set b. 0 < units8 (mem p) y \<longrightarrow> UnitsStart p \<le> y \<and> y + U2B (units8 (mem p) y) \<le> arena_top p"
  shows "\<exists>p' F'. Glue_fill8 p head = Some p' \<and> heap_ok PPMd8 p' F' \<and>
     free_space p' F' = free_space p F + (\<Sum>y\<leftarrow>b. span y (U2B (units8 (mem p) y))) \<and>
     same_model p p' \<and> regions p' = regions p \<and>
     (\<forall>z. z \<notin># (\<Sum>y\<leftarrow>b. span y (U2B (units8 (mem p) y))) \<longrightarrow> mem p' z = mem p z)"
  using assms
proof (induction b arbitrary: p F head)
  case Nil
  then show ?case by (subst Glue_fill8.simps) (auto simp: same_model_refl)
next
  case (Cons y b)
  let ?\<nu> = "units8 (mem p)"
  let ?rest = "\<Sum>y\<leftarrow>b. span y (U2B (?\<nu> y))"
  have head: "head \<noteq> 0" "GetPtr head = y" and ch: "free_chain 4 (mem p) (nNext8 (mem p) y) b"
    using Cons.prems(2) by (auto simp: nNext8_def)
  have all: "count (free_space p F) x + count (span y (U2B (?\<nu> y))) x + count ?rest x \<le> 1" for x
    using Cons.prems(5) by (simp add: ac_simps)
  have apart: "sorted_wrt apart b" "\<forall>x \<in> set b. apart y x" "sorted_wrt (\<lambda>x y. y \<notin># span x (U2B (?\<nu> x))) b"
    using Cons.prems(3,4) by auto
  show ?case
  proof (cases "?\<nu> y = 0")
    case True
    then have "Glue_fill8 p head = Glue_fill8 p (nNext8 (mem p) y)"
      using head by (subst Glue_fill8.simps) (simp add: Let_def units8_def)
    moreover have "span y (U2B (?\<nu> y)) = {#}" using True by (simp add: U2B_def)
    ultimately show ?thesis
      using Cons.IH [OF Cons.prems(1) ch apart(1,3)] Cons.prems(5,6) by simp
  next
    case False
    have y: "y + U2B (?\<nu> y) \<le> arena_top p" "UnitsStart p \<le> y" using Cons.prems(6) False by auto
    have "room_for p F y (U2B (?\<nu> y))"
      using all y unfolding room_for_def count_union by (meson le_add1 order_trans)
    then obtain F1 where g: "gives PPMd8 p F (Glue_put8 p y (?\<nu> y)) F1 y (U2B (?\<nu> y))"
      using Glue_put8_gives [OF Cons.prems(1), of "?\<nu> y" y] False by auto
    let ?p = "Glue_put8 p y (?\<nu> y)"
    have fr: "mem ?p z = mem p z" if "z < y \<or> y + U2B (?\<nu> y) \<le> z" for z using g that by (auto simp: gives_def)
    have other: "z < y \<or> y + U2B (?\<nu> y) \<le> z" if x: "x \<in> set b" and z: "x \<le> z" "z < x + 12" for x z
    proof -
      have "x \<notin># span y (U2B (?\<nu> y))" "apart y x" using Cons.prems(3,4) x by auto
      then show ?thesis using z by (auto simp: apart_def)
    qed
    have node: "units8 (mem ?p) x = ?\<nu> x" "nNext8 (mem ?p) x = nNext8 (mem p) x" if "x \<in> set b" for x
      using node8_frame [of x "mem ?p" "mem p"] fr other [OF that] by (auto simp: units8_def)
    have rest: "(\<Sum>y\<leftarrow>b. span y (U2B (units8 (mem ?p) y))) = ?rest"
      by (intro arg_cong [where f = sum_list] map_cong) (simp_all add: node)
    have same: "same_model p ?p" "regions ?p = regions p" "heap_ok PPMd8 ?p F1"
      "free_space ?p F1 = free_space p F + span y (U2B (?\<nu> y))" using g by (auto simp: gives_def)
    note d = same_modelD [OF same(1)] same_regionsD(3) [OF same(1,2)]
    have ch': "free_chain 4 (mem ?p) (nNext8 (mem p) y) b"
      by (rule free_chain_cong [OF ch]) (use node(2) in \<open>simp add: nNext8_def\<close>)
    have so: "sorted_wrt (\<lambda>x y. y \<notin># span x (U2B (units8 (mem ?p) x))) b"
      by (rule sorted_wrt_change [OF apart(3) apart_distinct [OF apart(1)]]) (use node(1) in \<open>auto dest!: in_set_butlastD\<close>)
    have cnt: "\<forall>x. count (free_space ?p F1 + ?rest) x \<le> 1" using all same(4) by simp
    have rng: "\<forall>x \<in> set b. 0 < units8 (mem ?p) x \<longrightarrow> UnitsStart ?p \<le> x \<and> x + U2B (units8 (mem ?p) x) \<le> arena_top ?p"
      using Cons.prems(6) node(1) d by auto
    obtain p' F' where r: "Glue_fill8 ?p (nNext8 (mem p) y) = Some p'" "heap_ok PPMd8 p' F'"
       "free_space p' F' = free_space ?p F1 + ?rest" "same_model ?p p'" "regions p' = regions ?p"
       "\<forall>z. z \<notin># ?rest \<longrightarrow> mem p' z = mem ?p z"
      using Cons.IH [OF same(3) ch' apart(1) so, unfolded rest, OF cnt rng] by blast
    have "Glue_fill8 p head = Some p'"
      using head False r(1) by (subst Glue_fill8.simps) (simp add: Let_def units8_def)
    then show ?thesis
      using r same same_model_trans [OF same(1) r(4)] fr by (intro exI [of _ p'] exI [of _ F']) (auto simp: ac_simps)
  qed
qed

section \<open>\<open>GlueFreeBlocks\<close>\<close>

lemma free_chain_list:
  "successively (node_link8 m) L \<Longrightarrow> L \<noteq> [] \<Longrightarrow> nNext8 m (last L) = 0 \<Longrightarrow> \<forall>y \<in> set L. 0 < y \<and> y < 2 ^ 32 \<Longrightarrow>
   free_chain 4 m (REF (hd L)) L"
proof (induction L)
  case (Cons x L)
  have x: "GetPtr (REF x) = x" "0 < x" using Cons.prems(4) GetPtr_REF [of x] by auto
  then have "REF x \<noteq> 0" by (auto simp: GetPtr_def)
  moreover have "free_chain 4 m (nNext8 m x) L"
  proof (cases "L = []")
    case False
    then have "nNext8 m x = REF (hd L)" using Cons.prems(1) by (simp add: successively_Cons node_link8_def)
    then show ?thesis using Cons False by (auto simp: successively_Cons)
  qed (use Cons.prems(3) in simp)
  ultimately show ?case using x by (simp add: nNext8_def)
qed simp

text \<open>The state when the gap is marked.\<close>

lemma glue8_start:
  assumes h: "heap_ok PPMd8 p F" and mk: "marked PPMd8 p F"
  defines "m \<equiv> (if LoUnit p \<noteq> HiUnit p then wr_Stamp8 (mem p) (LoUnit p) 0 else mem p)"
  shows "glue8 (concat (map F [0..<38])) (free_ends p F) (blocks p F) m []"
    and "i < 38 \<Longrightarrow> free_chain 4 m (FreeList p i) (F i)"
    and "z \<notin># free_space p F \<Longrightarrow> m z = mem p z"
proof -
  let ?A = "concat (map F [0..<38])"
  have gap: "LoUnit p \<le> HiUnit p" "12 dvd HiUnit p - LoUnit p" and top: "arena_top p < 2 ^ 32"
    using h by (auto simp: heap_ok_def)
  have node: "\<forall>x. y \<le> x \<and> x < y + 12 \<longrightarrow> x \<in># blocks p F" if "y \<in> set ?A" for y
    using node_in_blocks [OF h that] by blast
  have g12: "LoUnit p + 12 \<le> HiUnit p" if "LoUnit p \<noteq> HiUnit p" using gap that by (auto dest: dvd_imp_le)
  have gap_apart: "apart y (LoUnit p)" if "LoUnit p \<noteq> HiUnit p" "y \<in> set ?A" for y
  proof -
    have "x \<notin># blocks p F" if x: "LoUnit p \<le> x" "x < LoUnit p + 12" for x
      using free_once [OF h, of x] x g12 [OF \<open>LoUnit p \<noteq> HiUnit p\<close>]
      by (auto simp: free_space_def not_in_iff split: if_splits)
    then show ?thesis using node [OF that(2)] by (subst apart_sym) (intro apart_regions [of _ "blocks p F"]; auto)
  qed
  have same: "nStamp8 m y = nStamp8 (mem p) y" "nNext8 m y = nNext8 (mem p) y" "nNU8 m y = nNU8 (mem p) y" if "y \<in> set ?A" for y
    using gap_apart [OF _ that] by (auto simp: m_def node8_rw)
  have good: "nStamp8 m n = EMPTY_NODE" "units8 m n = I2U p i" if i: "i < 38" "n \<in> set (F i)" for i n
  proof -
    have "node_good PPMd8 (mem p) n (I2U p i)" "I2U p i \<le> 128" using h i I2U_bounds [of p i] by (auto simp: heap_ok_def)
    moreover have "n \<in> set ?A" using i by auto
    ultimately show "nStamp8 m n = EMPTY_NODE" "units8 m n = I2U p i" using same by (simp_all add: units8_def unat_of_nat)
  qed
  have "0 < I2U p i" if "i < 38" for i using I2U_bounds [OF _ that, of p] h by (auto simp: heap_ok_def)
  then have live: "live ?A m = set ?A" using good(2) by (auto simp: live_def)
  have ends: "nStamp8 m e \<noteq> EMPTY_NODE \<and> (\<forall>y \<in> set ?A. apart e y)" if e: "e \<in> free_ends p F" for e
  proof -
    consider "e = LoUnit p" "LoUnit p < HiUnit p" | "in_use PPMd8 p F e"
      using mk e by (auto simp: marked_def)
    then show ?thesis
    proof cases
      case 1
      then show ?thesis using gap_apart by (auto simp: m_def node8_rw EMPTY_NODE_def apart_sym)
    next
      case 2
      then have u: "nStamp8 (mem p) e \<noteq> EMPTY_NODE" "\<forall>x. e \<le> x \<and> x < e + 12 \<longrightarrow> x \<notin># free_space p F"
        by (auto simp: in_use_def)
      have "apart e y" if "y \<in> set ?A" for y
        using u(2) node [OF that] by (intro apart_regions) (auto simp: free_space_def)
      moreover have "apart e (LoUnit p)" if "LoUnit p \<noteq> HiUnit p"
        using g12 [OF that] by (intro apart_regions [OF u(2)]) (auto simp: free_space_def)
      ultimately show ?thesis using u(1) by (auto simp: m_def node8_rw)
    qed
  qed
  have low: "x < 2 ^ 32" if "x \<in># blocks p F" for x using h that top by (auto simp: heap_ok_def)
  have nodes: "y < 2 ^ 32" if "y \<in> set ?A" for y using low [of y] node [OF that] by auto
  show "glue8 ?A (free_ends p F) (blocks p F) m []"
    unfolding glue8_def live
  proof (intro conjI ballI)
    show "pool_ok (\<lambda>e. e \<in> free_ends p F) (set ?A) (units8 m)" using h good(2) by (rule free_pool_ok)
    show "pool_space (set ?A) (units8 m) = blocks p F" using h good(2) by (rule free_pool)
    show "sorted_wrt apart ?A" by (rule free_nodes_apart [OF h])
    show "nStamp8 m y = EMPTY_NODE" if "y \<in> set ?A" for y using that good(1) by auto
  qed (use ends low nodes in auto)
  show "free_chain 4 m (FreeList p i) (F i)" if i: "i < 38"
  proof (rule free_chain_cong)
    show "free_chain 4 (mem p) (FreeList p i) (F i)" using h i by (auto simp: heap_ok_def)
    show "\<forall>n \<in> set (F i). rd32 m (n + 4) = rd32 (mem p) (n + 4)" using same(2) i by (force simp: nNext8_def)
  qed
  show "m z = mem p z" if "z \<notin># free_space p F"
    using that g12 by (auto simp: m_def free_space_def node8_wr_frame)
qed

theorem GlueFreeBlocks8_glues:
  assumes h: "heap_ok PPMd8 p F" and mk: "marked PPMd8 p F"
  obtains p' F' where "GlueFreeBlocks8 p = Some p'" "glues PPMd8 p F p' F'"
proof -
  let ?A = "concat (map F [0..<38])" and ?S = "free_ends p F" and ?B = "blocks p F"
  define m0 where "m0 = (if LoUnit p \<noteq> HiUnit p then wr_Stamp8 (mem p) (LoUnit p) 0 else mem p)"
  note start = glue8_start [OF h mk, folded m0_def]
  define q where "q = p\<lparr>GlueCount := push_bit 13 1, Stamps := (\<lambda>i. if i < PPMD_NUM_INDEXES then 0 else Stamps p i), mem := m0\<rparr>"
  have q: "FreeList q = FreeList p" "mem q = m0" by (simp_all add: q_def)
  have d: "distinct ?A" by (rule apart_distinct [OF free_nodes_apart [OF h]])
  have chs: "\<forall>i \<in> set [0..<38]. free_chain 4 (mem q) (FreeList q i) (F i)" using start(2) by (simp add: q)
  obtain m1 head prev L where l: "Glue_lists8 [0..<38] q 0 Head =
      Some (q\<lparr>mem := m1, FreeList := (\<lambda>i. if i \<in> set [0..<38] then 0 else FreeList q i)\<rparr>, head, prev)"
    "glue8 ?A ?S ?B m1 L" "link_to8 head prev L" "live ?A m1 \<subseteq> live ?A m0" "set ?A \<inter> live ?A m1 \<subseteq> set L"
    "\<forall>z. off_nodes ?A z \<longrightarrow> m1 z = m0 z"
    using Glue_lists8_spec [of ?A ?S ?B q "[]" 0 Head "[0..<38]" F] start(1) chs d by (auto simp: q link_to8_def)
  have L: "set L \<subseteq> set ?A" "distinct L" "successively (node_link8 m1) L" "sorted_wrt apart ?A"
    "sorted_wrt (\<lambda>x y. y \<notin># span x (U2B (units8 m1 x))) L" "pool_space (live ?A m1) (units8 m1) = ?B"
    "pool_ok (\<lambda>e. e \<in> ?S) (live ?A m1) (units8 m1)" "\<forall>y \<in> set ?A. y < 2 ^ 32"
    using l(2) by (auto simp only: glue8_def)
  define m where "m = (if L = [] then m1 else wr_Next8 m1 (last L) 0)"
  define hd' where "hd' = (if L = [] then 0 else REF (hd L))"
  have put: "put_link m1 head prev 0 = (m, hd')" using l(3) by (auto simp: put_link_def link_to8_def m_def hd'_def)
  have last: "last L \<in> set ?A" if "L \<noteq> []" using last_in_set [OF that] L(1) by blast
  have pairs: "y = last L \<or> apart y (last L)" if "L \<noteq> []" "y \<in> set ?A" for y
    using apart_pairs [OF L(4) that(2) last [OF that(1)]] .
  have un: "units8 m y = units8 m1 y" if "y \<in> set ?A" for y
    using pairs [OF _ that] by (auto simp: m_def units8_def node8_rw)
  have unL: "units8 m y = units8 m1 y" if "y \<in> set L" for y using un subsetD [OF L(1) that] .
  have nx: "nNext8 m y = (if L \<noteq> [] \<and> y = last L then 0 else nNext8 m1 y)" if "y \<in> set ?A" for y
    using pairs [OF _ that] by (auto simp: m_def node8_rw)
  have pos: "0 < y" if "y \<in> set ?A" for y
    using h node_in_blocks [OF h that, of y] by (auto simp: heap_ok_def)
  have "successively (node_link8 m) L"
  proof (rule successively_change [OF L(3)])
    fix a b assume a: "a \<in> set (butlast L)" "node_link8 m1 a b"
    have "L \<noteq> []" using a by auto
    then have "distinct (butlast L @ [last L])" using L(2) by simp
    then have "a \<noteq> last L" using a by auto
    moreover have "a \<in> set ?A" using L(1) in_set_butlastD [OF a(1)] by blast
    ultimately show "node_link8 m a b" using a(2) nx by (simp add: node_link8_def)
  qed
  have ch: "free_chain 4 m hd' L"
  proof (cases "L = []")
    case False
    have "\<forall>y \<in> set L. 0 < y \<and> y < 2 ^ 32" using pos L(1,8) by blast
    then show ?thesis
      using free_chain_list [of m L] \<open>successively (node_link8 m) L\<close> nx [OF last] False by (simp add: hd'_def)
  qed (simp add: hd'_def)
  define r where "r = q\<lparr>FreeList := (\<lambda>i. if i \<in> set [0..<38] then 0 else FreeList q i), mem := m\<rparr>"
  have G: "GlueFreeBlocks8 p = Glue_fill8 r hd'"
  proof -
    have "(let p = p\<lparr>GlueCount := push_bit 13 1, Stamps := (\<lambda>i. if i < PPMD_NUM_INDEXES then 0 else Stamps p i)\<rparr>
        in if LoUnit p \<noteq> HiUnit p then p\<lparr>mem := wr_Stamp8 (mem p) (LoUnit p) 0\<rparr> else p) = q"
      by (simp add: q_def m0_def)
    then show ?thesis
      unfolding GlueFreeBlocks8_def Let_def using l(1) put by (simp add: r_def del: set_upt)
  qed
  have rf: "UnitsStart r = UnitsStart p" "arena_top r = arena_top p" "mem r = m" "same_model p r" "regions r = regions p"
    by (simp_all add: r_def q_def arena_top_def same_model_def ppmd.truncate_def regions_def)
  have free0: "blocks r (\<lambda>_. []) = {#}" by (simp add: blocks_def)
  then have free: "free_space r (\<lambda>_. []) + ?B = free_space p F" by (simp add: free_space_def r_def q_def)
  have once: "count (free_space r (\<lambda>_. [])) x \<le> 1" for x
    using free_once [OF h, of x] unfolding free [symmetric] by simp
  have hr: "heap_ok PPMd8 r (\<lambda>_. [])"
    using h once free0 by (simp add: heap_ok_def r_def q_def tables_ok_def arena_top_def)
  have apL: "sorted_wrt apart L" using L(1,2) apart_pairs [OF L(4)] unfolding apart_iff by blast
  have sum: "(\<Sum>y\<leftarrow>L. span y (U2B (units8 (mem r) y))) = ?B"
  proof -
    have "(\<Sum>y\<leftarrow>L. span y (U2B (units8 (mem r) y))) = (\<Sum>y\<in>set L. span y (U2B (units8 m1 y)))"
      unfolding sum.distinct_set_conv_list [OF L(2)] using unL by (simp add: rf cong: map_cong)
    also have "\<dots> = (\<Sum>y\<in>live ?A m1. span y (U2B (units8 m1 y)))"
    proof (rule sum.mono_neutral_right)
      show "live ?A m1 \<subseteq> set L" using l(5) by (auto simp: live_def)
      show "\<forall>y \<in> set L - live ?A m1. span y (U2B (units8 m1 y)) = {#}"
      proof
        fix y assume "y \<in> set L - live ?A m1"
        then have "units8 m1 y = 0" using L(1) by (auto simp: live_def)
        then show "span y (U2B (units8 m1 y)) = {#}" by (simp add: U2B_def)
      qed
    qed simp
    also have "\<dots> = ?B" using L(6) by (simp add: pool_space_def)
    finally show ?thesis .
  qed
  have rng: "\<forall>y \<in> set L. 0 < units8 (mem r) y \<longrightarrow> UnitsStart r \<le> y \<and> y + U2B (units8 (mem r) y) \<le> arena_top r"
  proof (intro ballI impI)
    fix y assume y: "y \<in> set L" "0 < units8 (mem r) y"
    let ?k = "U2B (units8 (mem r) y)"
    have k: "0 < ?k" using y(2) by (simp add: U2B_def UNIT_SIZE_def)
    have in_B: "x \<in># ?B" if "y \<le> x" "x < y + ?k" for x
      unfolding sum [symmetric] using that y(1) by (auto intro!: bexI [of _ y])
    have "y \<in># ?B" "y + ?k - 1 \<in># ?B" using in_B [of y] in_B [of "y + ?k - 1"] k by auto
    then have "UnitsStart p \<le> y" "y + ?k - 1 < arena_top p" using h by (auto simp: heap_ok_def)
    then show "UnitsStart r \<le> y \<and> y + ?k \<le> arena_top r" using k rf by simp
  qed
  have so: "sorted_wrt (\<lambda>x y. y \<notin># span x (U2B (units8 (mem r) x))) L"
    by (rule sorted_wrt_change [OF L(5,2)]) (use unL in \<open>auto simp: rf dest!: in_set_butlastD\<close>)
  have cnt: "\<forall>x. count (free_space r (\<lambda>_. []) + (\<Sum>y\<leftarrow>L. span y (U2B (units8 (mem r) y)))) x \<le> 1"
    unfolding sum free using free_once [OF h] by blast
  obtain p' F' where f: "Glue_fill8 r hd' = Some p'" "heap_ok PPMd8 p' F'" "free_space p' F' = free_space r (\<lambda>_. []) + ?B"
    "same_model r p'" "regions p' = regions r" "\<forall>z. z \<notin># ?B \<longrightarrow> mem p' z = mem r z"
    using Glue_fill8_spec [OF hr ch [folded rf(3)] apL so cnt rng, unfolded sum] by blast
  have same: "same_model p p'" "regions p' = regions p" using same_model_trans [OF rf(4) f(4)] f(5) rf(5) by auto
  have sp: "free_space p' F' = free_space p F" unfolding f(3) free ..
  have bl: "blocks p' F' = ?B"
    using sp same_modelD(1) [OF same(1)] same(2) by (simp add: free_space_def regions_def)
  have fr: "mem p' z = mem p z" if z: "z \<notin># free_space p F" for z
  proof -
    have nb: "z \<notin># ?B" using z by (auto simp: free_space_def)
    have o: "off_nodes ?A z" using h nb by (rule off_free)
    then have "m z = m1 z" using last by (auto simp: m_def off_nodes_def node8_wr_frame)
    then show ?thesis using f(6) nb l(6) o start(3) [OF z] by (simp add: rf)
  qed
  show thesis using that [of p' F'] G f(1,2) same sp bl fr by (simp add: glues_def)
qed

end
