(* ===== verification/Allocation.thy ===== *)
theory Allocation
  imports Glue7 Glue8
begin

text \<open>
  Allocation over the free lists: \<^verbatim>\<open>SplitBlock\<close>, \<^verbatim>\<open>AllocUnitsRare\<close>, \<^verbatim>\<open>AllocUnits\<close>, \<^verbatim>\<open>ShrinkUnits\<close> and the allocation
  of a context, which \<^verbatim>\<open>Ppmd7.c\<close> and \<^verbatim>\<open>Ppmd8.c\<close> write alike over their own nodes (locale \<open>suballocator\<close>, on
  \<open>free_units\<close>).
\<close>

section \<open>The contract\<close>

text \<open>The invariant between calls: the heap is in order, and glueing can see where free blocks end.\<close>

definition ready :: "variant \<Rightarrow> 'a ppmd_scheme \<Rightarrow> (nat \<Rightarrow> nat list) \<Rightarrow> bool" where
  "ready v p F \<longleftrightarrow> heap_ok v p F \<and> marked v p F"

text \<open>\<open>exhausted\<close>: nothing is free that an allocation of blocks of index \<open>i\<close> looks at.\<close>

definition exhausted :: "'a ppmd_scheme \<Rightarrow> (nat \<Rightarrow> nat list) \<Rightarrow> nat \<Rightarrow> bool" where
  "exhausted p F i \<longleftrightarrow> (\<forall>j. i \<le> j \<and> j < 38 \<longrightarrow> F j = []) \<and> UnitsStart p - Text p \<le> U2B (I2U p i)"

definition allocates :: "variant \<Rightarrow> 'a ppmd_scheme \<Rightarrow> (nat \<Rightarrow> nat list) \<Rightarrow> nat \<Rightarrow> nat option \<times> 'a ppmd_scheme \<Rightarrow> bool" where
  "allocates v p F i = (\<lambda>(r, p'). \<exists>F'. case r of
     None \<Rightarrow> glues v p F p' F' \<and> exhausted p' F' i
   | Some a \<Rightarrow> takes v p F p' F' a (U2B (I2U p i)))"

text \<open>A block of \<open>k\<close> bytes at \<open>a\<close> becomes one of \<open>k'\<close> bytes at \<open>r\<close> that begins with the same \<open>n\<close> bytes.\<close>

definition shrinks :: "variant \<Rightarrow> 'a ppmd_scheme \<Rightarrow> (nat \<Rightarrow> nat list) \<Rightarrow> nat \<Rightarrow> nat \<Rightarrow> nat \<Rightarrow> nat \<Rightarrow> nat \<times> 'a ppmd_scheme \<Rightarrow> bool" where
  "shrinks v p F a k n k' = (\<lambda>(r, p'). \<exists>F'. heap_ok v p' F' \<and> free_space p' F' + span r k' = free_space p F + span a k \<and>
     room_for p' F' r k' \<and> same_model p p' \<and> regions p' = regions p \<and> (\<forall>j < n. mem p' (r + j) = mem p (a + j)) \<and>
     (\<forall>x. x \<notin># free_space p F \<and> (x < a \<or> a + k \<le> x) \<longrightarrow> mem p' x = mem p x))"

lemma glues_refl: "heap_ok v p F \<Longrightarrow> glues v p F p F"
  by (simp add: glues_def same_model_refl)

lemma glues_takes:
  assumes "glues v p F p1 F1" "takes v p1 F1 p' F' a k"
  shows "takes v p F p' F' a k"
proof -
  have "same_model p p1" "same_model p1 p'" using assms by (auto simp: glues_def takes_def)
  note s = same_model_trans [OF this] same_modelD [OF this(1)]
  show ?thesis using assms s by (auto simp: glues_def takes_def regions_def)
qed

lemma glues_trans:
  assumes "glues v p F p1 F1" "glues v p1 F1 p' F'"
  shows "glues v p F p' F'"
proof -
  have "same_model p p1" "same_model p1 p'" using assms by (auto simp: glues_def)
  note s = same_model_trans [OF this] same_modelD [OF this(1)]
  show ?thesis using assms s by (auto simp: glues_def)
qed

lemma glues_allocates:
  assumes "glues v p F p1 F1" "allocates v p1 F1 i x"
  shows "allocates v p F i x"
proof -
  have "I2U p1 = I2U p" using assms(1) same_modelD(4) by (auto simp: glues_def)
  then show ?thesis
    using assms(2) glues_takes [OF assms(1)] glues_trans [OF assms(1)]
    by (fastforce simp: allocates_def split: prod.splits option.splits)
qed

lemma glues_count:
  assumes "glues v p F p' F'"
  shows "glues v p F (p'\<lparr>GlueCount := c\<rparr>) F'"
proof -
  have e: "free_space (p'\<lparr>GlueCount := c\<rparr>) F' = free_space p' F'" "blocks (p'\<lparr>GlueCount := c\<rparr>) F' = blocks p' F'"
    "arena_top (p'\<lparr>GlueCount := c\<rparr>) = arena_top p'" "tables_ok (p'\<lparr>GlueCount := c\<rparr>) = tables_ok p'"
    "I2U (p'\<lparr>GlueCount := c\<rparr>) = I2U p'" "same_model p' (p'\<lparr>GlueCount := c\<rparr>)" "regions (p'\<lparr>GlueCount := c\<rparr>) = regions p'"
    by (simp_all add: free_space_def blocks_def I2U_def arena_top_def tables_ok_def fun_eq_iff same_model_def ppmd.truncate_def regions_def)
  have "heap_ok v p' F'" using assms by (simp add: glues_def)
  then have "heap_ok v (p'\<lparr>GlueCount := c\<rparr>) F'" unfolding heap_ok_def e by simp
  then show ?thesis using assms e same_model_trans [of p p' "p'\<lparr>GlueCount := c\<rparr>"] by (simp add: glues_def)
qed

text \<open>An allocation from the gap or from below \<^verbatim>\<open>UnitsStart\<close>: the lists stay.\<close>

lemma takes_region:
  assumes "heap_ok v p F" "same_model p p'" "\<And>i. i < 38 \<Longrightarrow> FreeList p' i = FreeList p i" "mem p' = mem p"
    and "free_space p F = free_space p' F + span a k" "UnitsStart p' \<le> a" "a + k \<le> arena_top p"
    and "Text p' \<le> UnitsStart p'" "UnitsStart p' \<le> LoUnit p'" "LoUnit p' \<le> HiUnit p'" "HiUnit p' \<le> HiUnit p"
    and "LoUnit p \<le> LoUnit p'" "UnitsStart p' \<le> UnitsStart p" "12 dvd HiUnit p' - LoUnit p'"
  shows "takes v p F p' F a k"
proof -
  note d = same_modelD [OF assms(2)]
  have b: "blocks p' F = blocks p F" by (simp add: blocks_def d)
  have c: "count (free_space p' F + span a k) x \<le> 1" for x
    using free_once [OF assms(1), of x] unfolding assms(5) .
  have c': "count (free_space p' F) x \<le> 1" for x using c [of x] by simp
  have "heap_ok v p' F" using assms c' by (auto simp: heap_ok_def d b)
  then show ?thesis using assms c by (simp add: takes_def room_for_def d b)
qed

lemma heap_empty:
  assumes "heap_ok v p F" "i < 38"
  shows "FreeList p i = 0 \<longleftrightarrow> F i = []"
proof -
  have "free_chain (link_off v) (mem p) (FreeList p i) (F i)" using assms by (simp add: heap_ok_def)
  then show ?thesis by (cases "F i") auto
qed

subsection \<open>The invariant after an allocation\<close>

lemma free_stamp_frame:
  assumes "\<And>x. e \<le> x \<Longrightarrow> x < e + 12 \<Longrightarrow> m' x = m x"
  shows "free_stamp v m' e = free_stamp v m e"
proof -
  have "rd16 m' e = rd16 m e" "rd32 m' e = rd32 m e" using assms by (auto intro!: rd16_cong rd32_cong)
  then show ?thesis by (cases v) (auto simp: nStamp_def nStamp8_def)
qed

text \<open>When the caller has written to its block, beginning it with something else than the stamp of a free node.\<close>

lemma takes_ready:
  assumes r: "ready v p F" and t: "takes v p F p' F' a k" and k: "12 \<le> k"
    and m: "\<And>x. x < a \<or> a + k \<le> x \<Longrightarrow> m x = mem p' x" "\<not> free_stamp v m a"
  shows "ready v (p'\<lparr>mem := m\<rparr>) F'"
proof -
  let ?q = "p'\<lparr>mem := m\<rparr>"
  have h: "heap_ok v p F" "heap_ok v p' F'" and room: "room_for p' F' a k" and sp: "free_space p F = free_space p' F' + span a k"
    and sub: "blocks p' F' \<subseteq># blocks p F" and reg: "LoUnit p \<le> LoUnit p'" "HiUnit p' \<le> HiUnit p" "UnitsStart p' \<le> UnitsStart p"
    and same: "same_model p p'" and fr: "\<And>x. x < arena_top p \<Longrightarrow> x \<notin># free_space p F \<Longrightarrow> mem p' x = mem p x"
    using r t by (auto simp: ready_def takes_def)
  note d = same_modelD [OF same]
  have q: "blocks ?q F' = blocks p' F'" "free_space ?q F' = free_space p' F'" "arena_top ?q = arena_top p'"
    "same_model p' ?q" "regions ?q = regions p'"
    by (simp_all add: blocks_def free_space_def I2U_def arena_top_def same_model_def ppmd.truncate_def regions_def)
  have hq: "heap_ok v ?q F'"
    using h(2) q(4,5)
  proof (rule heap_frame)
    show "mem ?q x = mem p' x" if x: "x \<in># blocks p' F'" for x
    proof -
      have "\<not> (a \<le> x \<and> x < a + k)" using room_apart(2) [OF room, of x] x by blast
      then show ?thesis using m(1) [of x] by auto
    qed
  qed simp
  have mk: "marked v p F" using r by (simp add: ready_def)
  have order: "Text p \<le> UnitsStart p" "UnitsStart p \<le> LoUnit p" "LoUnit p' \<le> HiUnit p'" "UnitsStart p' \<le> LoUnit p'"
    using h by (auto simp: heap_ok_def)
  have good: "e = LoUnit p' \<and> LoUnit p' < HiUnit p' \<or> v = PPMd7 \<and> e = arena_top p' \<or> in_use v ?q F' e"
    if e: "0 < e" "e - 1 \<in># blocks p' F'" "e \<notin># blocks p' F'" for e
  proof (cases "e = a")
    case True
    have "a + 12 \<le> arena_top p'" using room k by (auto simp: room_for_def)
    moreover have "x \<notin># free_space p' F'" if "a \<le> x" "x < a + 12" for x
      using room_apart(1) [OF room, of x] that k by auto
    ultimately show ?thesis using True m(2) by (simp add: in_use_def q)
  next
    case False
    have out: "\<not> (a \<le> e \<and> e < a + k)"
    proof
      assume "a \<le> e \<and> e < a + k"
      then have "a \<le> e - 1" "e - 1 < a + k" using False by auto
      then show False using room_apart(2) [OF room, of "e - 1"] e(2) by blast
    qed
    have eb: "e - 1 \<in># blocks p F" by (rule mset_subset_eqD [OF sub e(2)])
    have "e \<notin># blocks p F"
    proof
      assume b: "e \<in># blocks p F"
      then have "e \<in># free_space p F" by (simp add: free_space_def)
      then have "e \<in># free_space p' F'" unfolding sp using out by auto
      then have "LoUnit p \<le> e \<and> e < HiUnit p \<or> Text p \<le> e \<and> e < UnitsStart p"
        using e(3) reg order by (auto simp: free_space_def d)
      then have "2 \<le> count (free_space p F) e" using b order h by (auto simp: free_space_def heap_ok_def Suc_le_eq)
      then show False using free_once [OF h(1), of e] by simp
    qed
    then consider "e = LoUnit p" "LoUnit p < HiUnit p" | "v = PPMd7" "e = arena_top p" | "in_use v p F e"
      using mk eb e(1) by (auto simp: marked_def free_ends_def)
    then show ?thesis
    proof cases
      case 1
      then have "e \<in># free_space p F" by (auto simp: free_space_def)
      then have "e \<in># free_space p' F'" unfolding sp using out by auto
      then have "LoUnit p' \<le> e \<and> e < HiUnit p'" using e(3) 1 reg order by (auto simp: free_space_def)
      then show ?thesis using 1(1) reg(1) by auto
    next
      case 3
      then have u: "\<not> free_stamp v (mem p) e" "e + 12 \<le> arena_top p" "\<And>x. e \<le> x \<Longrightarrow> x < e + 12 \<Longrightarrow> x \<notin># free_space p F"
        by (auto simp: in_use_def)
      have "m x = mem p x" if "e \<le> x" "x < e + 12" for x
      proof -
        have x: "x \<notin># free_space p F" "x < arena_top p" using u(2,3) that by auto
        then have "\<not> (a \<le> x \<and> x < a + k)" unfolding sp by auto
        then show ?thesis using m(1) [of x] fr [OF x(2,1)] by auto
      qed
      then have "\<not> free_stamp v m e" using u(1) free_stamp_frame by metis
      then show ?thesis using u(2,3) unfolding sp by (auto simp: in_use_def q d)
    qed (simp add: d)
  qed
  then show ?thesis using hq by (simp add: ready_def marked_def free_ends_def q)
qed

lemma glues_ready:
  assumes "ready v p F" "glues v p F p' F'"
  shows "ready v p' F'"
proof -
  have g: "heap_ok v p' F'" "free_space p' F' = free_space p F" "blocks p' F' = blocks p F" "same_model p p'" "regions p' = regions p"
    and fr: "\<And>x. x < arena_top p \<Longrightarrow> x \<notin># free_space p F \<Longrightarrow> mem p' x = mem p x"
    using assms(2) by (auto simp: glues_def)
  note d = same_modelD [OF g(4)] same_regionsD(3-5) [OF g(4,5)]
  have "in_use v p' F' e" if "in_use v p F e" for e
    using that free_stamp_frame [of e "mem p'" "mem p" v] fr by (auto simp: in_use_def g(2) d)
  then show ?thesis using assms(1) g by (fastforce simp: ready_def marked_def free_ends_def d)
qed

section \<open>Copies\<close>

lemma wr16_rd16: "wr16 m d (rd16 m' s) = m(d := m' s, d + 1 := m' (s + 1))"
proof -
  have "ucast (rd16 m' s) = m' s" "ucast (drop_bit 8 (rd16 m' s)) = m' (s + 1)"
    unfolding rd16_def by (intro bit_word_eqI; auto simp: bit_simps not_less dest: bit_imp_le_length)+
  then show ?thesis by (simp add: wr16_def)
qed

lemma wr32_rd32: "wr32 m d (rd32 m' s) = m(d := m' s, d + 1 := m' (s + 1), d + 2 := m' (s + 2), d + 3 := m' (s + 3))"
proof -
  have "ucast (rd32 m' s) = rd16 m' s" "ucast (drop_bit 16 (rd32 m' s)) = rd16 m' (s + 2)"
    unfolding rd32_def by (intro bit_word_eqI; auto simp: bit_simps not_less dest: bit_imp_le_length)+
  then show ?thesis by (simp add: wr32_def wr16_rd16 numeral_eq_Suc)
qed

lemma wr32_copy:
  "wr32 m d (rd32 m' s) x = (if d \<le> x \<and> x < d + 4 then m' (s + (x - d)) else m x)"
proof -
  consider "x = d" | "x = d + 1" | "x = d + 2" | "x = d + 3" | "x < d \<or> d + 4 \<le> x" by linarith
  then show ?thesis by cases (auto simp: wr32_rd32)
qed

lemma MyMem12Cpy_units_spec:
  "d + 12 * n \<le> s \<or> s + 12 * n \<le> d \<Longrightarrow>
   MyMem12Cpy_units n d s m x = (if d \<le> x \<and> x < d + 12 * n then m (s + (x - d)) else m x)"
proof (induction n arbitrary: d s m)
  case (Suc n)
  define m1 where "m1 = wr32 m d (rd32 m s)"
  define m2 where "m2 = wr32 m1 (d + 4) (rd32 m1 (s + 4))"
  define m3 where "m3 = wr32 m2 (d + 8) (rd32 m2 (s + 8))"
  have m3: "m3 y = (if d \<le> y \<and> y < d + 12 then m (s + (y - d)) else m y)" for y
    using Suc.prems by (auto simp: m3_def m2_def m1_def wr32_copy)
  have "MyMem12Cpy_units n (d + 12) (s + 12) m3 x =
      (if d + 12 \<le> x \<and> x < d + 12 + 12 * n then m3 (s + 12 + (x - (d + 12))) else m3 x)"
    using Suc.prems by (intro Suc.IH) auto
  moreover have "MyMem12Cpy_units (Suc n) d s m x = MyMem12Cpy_units n (d + 12) (s + 12) m3 x"
    by (simp add: m3_def m2_def m1_def Let_def)
  ultimately show ?case using Suc.prems by (auto simp: m3)
qed auto

lemma U2I_mono:
  assumes "tables_ok p" "0 < n" "n \<le> n'" "n' \<le> 128"
  shows "U2I p n \<le> U2I p n'"
proof -
  have "units_upto (U2I p n) < n" "n' \<le> units_upto (Suc (U2I p n'))"
    using U2I_spec(2) [OF assms(1), of n] U2I_spec(3) [OF assms(1), of n'] assms(2-4) by auto
  moreover have "\<not> Suc (U2I p n') \<le> U2I p n \<or> units_upto (Suc (U2I p n')) \<le> units_upto (U2I p n)"
    using units_upto_mono by blast
  ultimately show ?thesis using assms(3) by linarith
qed

section \<open>The operations\<close>

locale suballocator = free_lists v ins rem
  for v :: variant and ins :: "'a ppmd_scheme \<Rightarrow> nat \<Rightarrow> nat \<Rightarrow> 'a ppmd_scheme" and rem +
  fixes split :: "'a ppmd_scheme \<Rightarrow> nat \<Rightarrow> nat \<Rightarrow> nat \<Rightarrow> 'a ppmd_scheme"
    and glue :: "'a ppmd_scheme \<Rightarrow> 'a ppmd_scheme option"
    and rare :: "'a ppmd_scheme \<Rightarrow> nat \<Rightarrow> (nat option \<times> 'a ppmd_scheme) option"
    and alloc :: "'a ppmd_scheme \<Rightarrow> nat \<Rightarrow> (nat option \<times> 'a ppmd_scheme) option"
    and shrink :: "'a ppmd_scheme \<Rightarrow> nat \<Rightarrow> nat \<Rightarrow> nat \<Rightarrow> (nat \<times> 'a ppmd_scheme) option"
  assumes split_eq: "split p a i j = put_units ins p (a + U2B (I2U p j)) (I2U p i - I2U p j)"
    and glue_glues: "ready v p F \<Longrightarrow> \<exists>p' F'. glue p = Some p' \<and> glues v p F p' F'"
    and rare_eq: "rare p i = (case (if GlueCount p = 0 then glue p else Some p) of None \<Rightarrow> None
      | Some q \<Rightarrow> (if GlueCount p = 0 \<and> FreeList q i \<noteq> 0 then Some (Some (fst (rem q i)), snd (rem q i))
          else case find (\<lambda>j. FreeList q j \<noteq> 0) [i + 1..<38] of
            None \<Rightarrow> Some (if word_of_nat (U2B (I2U q i)) < ptr_diff (UnitsStart q) (Text q)
              then (Some (UnitsStart q - U2B (I2U q i)),
                q\<lparr>GlueCount := GlueCount q - 1, UnitsStart := UnitsStart q - U2B (I2U q i)\<rparr>)
              else (None, q\<lparr>GlueCount := GlueCount q - 1\<rparr>))
          | Some j \<Rightarrow> Some (Some (fst (rem q j)), split (snd (rem q j)) (fst (rem q j)) j i)))"
    and alloc_eq: "alloc p i = (if FreeList p i \<noteq> 0 then Some (Some (fst (rem p i)), snd (rem p i))
      else if word_of_nat (U2B (I2U p i)) \<le> ptr_diff (HiUnit p) (LoUnit p)
      then Some (Some (LoUnit p), p\<lparr>LoUnit := LoUnit p + U2B (I2U p i)\<rparr>) else rare p i)"
    and shrink_eq: "shrink p a old new = (if U2I p old = U2I p new then Some (a, p)
      else if FreeList p (U2I p new) \<noteq> 0 then let (r, q) = rem p (U2I p new)
        in (case MyMem12Cpy r a new (mem q) of None \<Rightarrow> None | Some m \<Rightarrow> Some (r, ins (q\<lparr>mem := m\<rparr>) a (U2I p old)))
      else Some (a, split p a (U2I p old) (U2I p new)))"
begin

lemma remove_allocates:
  assumes "heap_ok v p F" "i < 38" "FreeList p i \<noteq> 0"
  shows "allocates v p F i (Some (fst (rem p i)), snd (rem p i))"
proof -
  obtain n F' where "rem p i = (n, snd (rem p i))" "takes v p F (snd (rem p i)) F' n (U2B (I2U p i))"
    by (rule remove_takes [OF assms])
  then show ?thesis by (metis (mono_tags, lifting) allocates_def case_prod_conv fst_conv option.simps(5))
qed

lemma split_takes:
  assumes h: "heap_ok v p F" and i: "i < j" "j < 38" and t: "takes v p F q F1 a (U2B (I2U p j))" "regions q = regions p"
  obtains F' where "takes v p F (split q a j i) F' a (U2B (I2U p i))"
proof -
  have tab: "tables_ok p" using h by (simp add: heap_ok_def)
  have lt: "I2U p i < I2U p j" "I2U p j \<le> 128" using I2U_strict [OF tab i] I2U_bounds [OF tab i(2)] by auto
  then have k: "U2B (I2U p j) = U2B (I2U p i) + U2B (I2U p j - I2U p i)" by (simp add: U2B_def flip: add_mult_distrib)
  have q: "heap_ok v q F1" "room_for q F1 a (U2B (I2U p j))" "I2U q = I2U p"
    using t(1) same_modelD(4) by (auto simp: takes_def)
  have "room_for q F1 (a + U2B (I2U p i)) (U2B (I2U p j - I2U p i))" using q(2) room_for_part unfolding k by blast
  then obtain F' where g: "gives v q F1 (put_units ins q (a + U2B (I2U p i)) (I2U p j - I2U p i)) F' (a + U2B (I2U p i)) (U2B (I2U p j - I2U p i))"
    using put_gives [OF q(1), of "I2U p j - I2U p i" "a + U2B (I2U p i)"] lt by (metis diff_le_self le_trans zero_less_diff)
  have "takes v p F q F1 a (U2B (I2U p i) + U2B (I2U p j - I2U p i))" using t(1) unfolding k .
  from takes_part [OF this t(2) g] show thesis using that by (simp add: split_eq q(3))
qed

lemma word_le_size:
  assumes "heap_ok v p F" "i < 38" "b \<le> a" "a < 2 ^ 32"
  shows "word_of_nat (U2B (I2U p i)) \<le> ptr_diff a b \<longleftrightarrow> U2B (I2U p i) \<le> a - b"
    and "word_of_nat (U2B (I2U p i)) < ptr_diff a b \<longleftrightarrow> U2B (I2U p i) < a - b"
proof -
  have "U2B (I2U p i) \<le> 1536" using assms(1,2) by (intro block_max) (auto simp: heap_ok_def)
  then have "unat (word_of_nat (U2B (I2U p i)) :: UInt32) = U2B (I2U p i)" by (simp add: unat_of_nat)
  then show "word_of_nat (U2B (I2U p i)) \<le> ptr_diff a b \<longleftrightarrow> U2B (I2U p i) \<le> a - b"
    "word_of_nat (U2B (I2U p i)) < ptr_diff a b \<longleftrightarrow> U2B (I2U p i) < a - b"
    using unat_ptr_diff [OF assms(3,4)] by (simp_all add: word_le_nat_alt word_less_nat_alt)
qed

lemma below_units_allocates:
  assumes h: "heap_ok v p F" and i: "i < 38" and k: "U2B (I2U p i) < UnitsStart p - Text p"
  shows "allocates v p F i (Some (UnitsStart p - U2B (I2U p i)),
    p\<lparr>GlueCount := c, UnitsStart := UnitsStart p - U2B (I2U p i)\<rparr>)"
proof -
  let ?k = "U2B (I2U p i)" and ?p = "p\<lparr>GlueCount := c, UnitsStart := UnitsStart p - U2B (I2U p i)\<rparr>"
  have o: "Text p \<le> UnitsStart p" "UnitsStart p \<le> LoUnit p" "LoUnit p \<le> HiUnit p" "HiUnit p \<le> arena_top p" "12 dvd HiUnit p - LoUnit p"
    using h by (auto simp: heap_ok_def)
  have "span (Text p) (UnitsStart p - Text p) = span (Text p) (UnitsStart ?p - Text p) + span (UnitsStart ?p) ?k"
    using span_split [of "UnitsStart ?p - Text p" "UnitsStart p - Text p" "Text p"] k by simp
  then have sp: "free_space p F = free_space ?p F + span (UnitsStart p - ?k) ?k"
    by (simp add: free_space_def blocks_def I2U_def ac_simps)
  have "takes v p F ?p F (UnitsStart p - ?k) ?k"
    by (rule takes_region [OF h _ _ _ sp]) (use o k in \<open>auto simp: same_model_def ppmd.truncate_def\<close>)
  then show ?thesis by (auto simp: allocates_def)
qed

lemma gap_allocates:
  assumes h: "heap_ok v p F" and i: "i < 38" and k: "U2B (I2U p i) \<le> HiUnit p - LoUnit p"
  shows "allocates v p F i (Some (LoUnit p), p\<lparr>LoUnit := LoUnit p + U2B (I2U p i)\<rparr>)"
proof -
  let ?k = "U2B (I2U p i)" and ?p = "p\<lparr>LoUnit := LoUnit p + U2B (I2U p i)\<rparr>"
  have o: "Text p \<le> UnitsStart p" "UnitsStart p \<le> LoUnit p" "LoUnit p \<le> HiUnit p" "HiUnit p \<le> arena_top p" "12 dvd HiUnit p - LoUnit p"
    using h by (auto simp: heap_ok_def)
  have sp: "free_space p F = free_space ?p F + span (LoUnit p) ?k"
    using span_split [OF k, of "LoUnit p"] by (simp add: free_space_def blocks_def I2U_def ac_simps)
  have "12 dvd ?k" by (simp add: U2B_def UNIT_SIZE_def)
  then have "12 dvd HiUnit p - LoUnit p - ?k" using o(5) by (rule dvd_diff_nat [rotated])
  then have "takes v p F ?p F (LoUnit p) ?k"
    by (intro takes_region [OF h _ _ _ sp]) (use o k in \<open>auto simp: same_model_def ppmd.truncate_def\<close>)
  then show ?thesis by (auto simp: allocates_def)
qed

lemma rare_allocates:
  assumes r: "ready v p F" and i: "i < 38" and empty: "FreeList p i = 0"
  shows "\<exists>x. rare p i = Some x \<and> allocates v p F i x"
proof -
  have h: "heap_ok v p F" using r by (simp add: ready_def)
  obtain q F1 where q: "(if GlueCount p = 0 then glue p else Some p) = Some q" "glues v p F q F1" "GlueCount p \<noteq> 0 \<Longrightarrow> q = p"
    using glue_glues [OF r] glues_refl [OF h] by (cases "GlueCount p = 0") auto
  have hq: "heap_ok v q F1" using q(2) by (simp add: glues_def)
  have o: "Text q \<le> UnitsStart q" "UnitsStart q < 2 ^ 32" using hq by (auto simp: heap_ok_def)
  note size = word_le_size(2) [OF hq i o]
  have "\<exists>x. rare p i = Some x \<and> allocates v q F1 i x"
  proof (cases "GlueCount p = 0 \<and> FreeList q i \<noteq> 0")
    case True
    then show ?thesis using remove_allocates [OF hq i] q(1) by (simp add: rare_eq)
  next
    case False
    then have empty_q: "FreeList q i = 0" using empty q(3) by auto
    show ?thesis
    proof (cases "find (\<lambda>j. FreeList q j \<noteq> 0) [i + 1..<38]")
      case None
      then have no: "FreeList q j = 0" if "i < j" "j < 38" for j using that by (auto simp: find_None_iff)
      show ?thesis
      proof (cases "U2B (I2U q i) < UnitsStart q - Text q")
        case True
        then show ?thesis
          using below_units_allocates [OF hq i] False None q(1) size by (auto simp: rare_eq)
      next
        case full: False
        have "F1 j = []" if "i \<le> j" "j < 38" for j
          using no [of j] empty_q that heap_empty [OF hq that(2)] by (cases "i = j") auto
        then have "exhausted (q\<lparr>GlueCount := GlueCount q - 1\<rparr>) F1 i"
          using full by (simp add: exhausted_def I2U_def)
        then have "allocates v q F1 i (None, q\<lparr>GlueCount := GlueCount q - 1\<rparr>)"
          using glues_count [OF glues_refl [OF hq]] by (auto simp: allocates_def)
        then show ?thesis using False None full q(1) size by (auto simp: rare_eq)
      qed
    next
      case (Some j)
      then have j: "i < j" "j < 38" "FreeList q j \<noteq> 0" by (auto simp: find_Some_iff)
      obtain n F2 where rm: "rem q j = (n, snd (rem q j))" "takes v q F1 (snd (rem q j)) F2 n (U2B (I2U q j))"
        by (rule remove_takes [OF hq j(2,3)])
      obtain F' where "takes v q F1 (split (snd (rem q j)) n j i) F' n (U2B (I2U q i))"
        by (rule split_takes [OF hq j(1,2) rm(2) rem_same(2)])
      then have "allocates v q F1 i (Some n, split (snd (rem q j)) n j i)" by (auto simp: allocates_def)
      moreover have "fst (rem q j) = n" using rm(1) by (metis fst_conv)
      ultimately show ?thesis using False Some q(1) by (auto simp: rare_eq)
    qed
  qed
  then show ?thesis using glues_allocates [OF q(2)] by blast
qed

lemma alloc_allocates:
  assumes r: "ready v p F" and i: "i < 38"
  shows "\<exists>x. alloc p i = Some x \<and> allocates v p F i x"
proof -
  have h: "heap_ok v p F" using r by (simp add: ready_def)
  then have o: "LoUnit p \<le> HiUnit p" "HiUnit p < 2 ^ 32" by (auto simp: heap_ok_def)
  consider "FreeList p i \<noteq> 0" | "FreeList p i = 0" "U2B (I2U p i) \<le> HiUnit p - LoUnit p"
    | "FreeList p i = 0" "\<not> U2B (I2U p i) \<le> HiUnit p - LoUnit p" by blast
  then show ?thesis
    using remove_allocates [OF h i] gap_allocates [OF h i] rare_allocates [OF r i] word_le_size(1) [OF h i o]
    by cases (simp_all add: alloc_eq)
qed

text \<open>The allocation of a context's unit: from the top of the gap, then from the lists.\<close>

lemma context_allocates:
  assumes r: "ready v p F"
    and e: "c = (if HiUnit p \<noteq> LoUnit p then Some (Some (HiUnit p - 12), p\<lparr>HiUnit := HiUnit p - 12\<rparr>)
      else if FreeList p 0 \<noteq> 0 then Some (Some (fst (rem p 0)), snd (rem p 0)) else rare p 0)"
  shows "\<exists>x. c = Some x \<and> allocates v p F 0 x"
proof -
  have h: "heap_ok v p F" using r by (simp add: ready_def)
  then have o: "Text p \<le> UnitsStart p" "UnitsStart p \<le> LoUnit p" "LoUnit p \<le> HiUnit p" "HiUnit p \<le> arena_top p" "12 dvd HiUnit p - LoUnit p"
    and k: "U2B (I2U p 0) = 12"
    by (auto simp: heap_ok_def tables_ok_def I2U_def units_i2u_eq U2B_def UNIT_SIZE_def)
  show ?thesis
  proof (cases "HiUnit p = LoUnit p")
    case False
    let ?p = "p\<lparr>HiUnit := HiUnit p - 12\<rparr>"
    have g: "12 \<le> HiUnit p - LoUnit p" using o False by (auto dest: dvd_imp_le)
    have "span (LoUnit p) (HiUnit p - LoUnit p) = span (LoUnit p) (HiUnit p - 12 - LoUnit p) + span (HiUnit p - 12) 12"
      using span_split [of "HiUnit p - 12 - LoUnit p" "HiUnit p - LoUnit p" "LoUnit p"] g by simp
    then have sp: "free_space p F = free_space ?p F + span (HiUnit p - 12) 12"
      by (simp add: free_space_def blocks_def I2U_def ac_simps)
    have "12 dvd HiUnit p - LoUnit p - 12" using o(5) by (rule dvd_diff_nat) simp
    then have "12 dvd HiUnit p - 12 - LoUnit p" by (simp add: add.commute)
    then have "takes v p F ?p F (HiUnit p - 12) 12"
      by (intro takes_region [OF h _ _ _ sp]) (use o g in \<open>auto simp: same_model_def ppmd.truncate_def\<close>)
    then show ?thesis using False by (auto simp: e allocates_def k)
  next
    case True
    then show ?thesis using remove_allocates [OF h, of 0] rare_allocates [OF r, of 0] by (auto simp: e)
  qed
qed

lemma shrink_shrinks:
  assumes h: "heap_ok v p F" and n: "0 < new" "new \<le> old" "old \<le> 128" and room: "room_for p F a (U2B (I2U p (U2I p old)))"
  shows "\<exists>x. shrink p a old new = Some x \<and> shrinks v p F a (U2B (I2U p (U2I p old))) (U2B new) (U2B (I2U p (U2I p new))) x"
proof -
  let ?i0 = "U2I p old" and ?i1 = "U2I p new"
  let ?k0 = "U2B (I2U p ?i0)" and ?k1 = "U2B (I2U p ?i1)"
  have t: "tables_ok p" using h by (simp add: heap_ok_def)
  have i: "?i0 < 38" "?i1 < 38" "?i1 \<le> ?i0" using U2I_spec(1) [OF t] U2I_mono [OF t] n by auto
  have "new \<le> I2U p ?i1" using U2I_spec(3) [OF t, of new] n i(2) by (simp add: I2U_eq [OF t])
  moreover have "I2U p ?i1 \<le> I2U p ?i0" using i I2U_strict [OF t, of ?i1 ?i0] by (cases "?i1 = ?i0") auto
  ultimately have le: "U2B new \<le> ?k1" "?k1 \<le> ?k0" by (simp_all add: U2B_def)
  have once: "count (free_space p F + span a ?k0) x \<le> 1" for x using room by (simp add: room_for_def)
  consider "?i0 = ?i1" | "?i0 \<noteq> ?i1" "FreeList p ?i1 \<noteq> 0" | "?i0 \<noteq> ?i1" "FreeList p ?i1 = 0" by blast
  then show ?thesis
  proof cases
    case 1
    then show ?thesis using h room by (auto simp: shrink_eq shrinks_def same_model_refl)
  next
    case 2
    obtain r F1 where rm: "rem p ?i1 = (r, snd (rem p ?i1))" "takes v p F (snd (rem p ?i1)) F1 r ?k1"
      by (rule remove_takes [OF h i(2) 2(2)])
    define q where "q = snd (rem p ?i1)"
    have q: "heap_ok v q F1" "room_for q F1 r ?k1" "free_space p F = free_space q F1 + span r ?k1" "same_model p q" "regions q = regions p"
      "mem q = mem p" using rm(2) rem_same rem_mem by (auto simp: takes_def q_def)
    have r_free: "x \<in># free_space p F" if "r \<le> x" "x < r + ?k1" for x using that by (simp add: q(3))
    have a_used: "x \<notin># free_space p F" if "a \<le> x" "x < a + ?k0" for x using room_apart(1) [OF room that] .
    have pos: "0 < ?k1" "0 < U2B new" using le n by (auto simp: U2B_def UNIT_SIZE_def)
    have apart: "r + ?k1 \<le> a \<or> a + ?k0 \<le> r"
    proof (rule ccontr)
      assume "\<not> ?thesis"
      then have "r \<le> max r a" "max r a < r + ?k1" "a \<le> max r a" "max r a < a + ?k0" using pos le by auto
      then show False using r_free a_used by blast
    qed
    define m where "m = MyMem12Cpy_units new r a (mem q)"
    have m: "m x = (if r \<le> x \<and> x < r + U2B new then mem p (a + (x - r)) else mem p x)" for x
      using MyMem12Cpy_units_spec [of r new a "mem q" x] apart le by (auto simp: m_def q(6) U2B_def UNIT_SIZE_def mult.commute)
    let ?q = "q\<lparr>mem := m\<rparr>"
    have q': "same_model q ?q" "regions ?q = regions q" "FreeList ?q = FreeList q"
      by (simp_all add: same_model_def ppmd.truncate_def regions_def)
    note d = same_modelD [OF same_model_trans [OF q(4) q'(1)]]
    have hq: "heap_ok v ?q F1"
    proof (rule heap_frame [OF q(1) q'(1,2)])
      show "mem ?q x = mem q x" if "x \<in># blocks q F1" for x
        using room_apart(2) [OF q(2), of x] that le by (auto simp: m q(6))
    qed simp
    have fq: "free_space ?q F1 = free_space q F1" by (rule same_regionsD(1) [OF q'(1,2)])
    have "count (free_space ?q F1 + span a ?k0) x \<le> 1" for x
      using once [of x] unfolding fq q(3) by simp
    then have "room_for ?q F1 a (U2B (I2U ?q ?i0))"
      using room q(5) q'(2) by (simp add: room_for_def d regions_def)
    from insert_gives [OF hq i(1) this] obtain F' where
      g: "gives v ?q F1 (ins ?q a ?i0) F' a ?k0" unfolding d by blast
    let ?p = "ins ?q a ?i0"
    have sp: "free_space ?p F' + span r ?k1 = free_space p F + span a ?k0"
      using g by (simp add: gives_def fq q(3))
    have same: "same_model p ?p" "regions ?p = regions p"
      using g q(4,5) q' by (auto simp: gives_def intro: same_model_trans)
    have "UnitsStart ?p = UnitsStart q" "arena_top ?p = arena_top q"
      using same(2) q(5) same_modelD(2) [OF same(1)] same_modelD(2) [OF q(4)] by (simp_all add: regions_def)
    moreover have "UnitsStart q \<le> r \<and> r + ?k1 \<le> arena_top q" using q(2) unfolding room_for_def by blast
    ultimately have "UnitsStart ?p \<le> r \<and> r + ?k1 \<le> arena_top ?p" by presburger
    moreover have "\<forall>x. count (free_space ?p F' + span r ?k1) x \<le> 1" unfolding sp using once by blast
    ultimately have room': "room_for ?p F' r ?k1" unfolding room_for_def by blast
    have fr: "mem ?p x = m x" if "x < a \<or> a + ?k0 \<le> x" for x using g that by (auto simp: gives_def)
    have copy: "mem ?p (r + j) = mem p (a + j)" if "j < U2B new" for j
      using fr [of "r + j"] apart le that by (auto simp: m)
    have out: "mem ?p x = mem p x" if "x \<notin># free_space p F" "x < a \<or> a + ?k0 \<le> x" for x
      using fr [OF that(2)] r_free [of x] that(1) le by (auto simp: m)
    have "shrink p a old new = Some (r, ?p)"
    proof -
      have rq: "rem p ?i1 = (r, q)" using rm(1) by (simp only: q_def)
      show ?thesis using 2 n by (simp add: shrink_eq MyMem12Cpy_def rq m_def)
    qed
    moreover have "shrinks v p F a ?k0 (U2B new) ?k1 (r, ?p)"
      using g sp room' same copy out by (auto simp: shrinks_def gives_def)
    ultimately show ?thesis by blast
  next
    case 3
    then have lt: "?i1 < ?i0" using i(3) by simp
    have u: "I2U p ?i1 < I2U p ?i0" "I2U p ?i0 \<le> 128" using I2U_strict [OF t lt i(1)] I2U_bounds [OF t i(1)] by auto
    let ?l = "I2U p ?i0 - I2U p ?i1"
    have k: "?k0 = ?k1 + U2B ?l" using u by (simp add: U2B_def flip: add_mult_distrib)
    have "room_for p F (a + ?k1) (U2B ?l)" using room room_for_part unfolding k by blast
    then obtain F' where g: "gives v p F (put_units ins p (a + ?k1) ?l) F' (a + ?k1) (U2B ?l)"
      using put_gives [OF h, of ?l "a + ?k1"] u by (metis diff_le_self le_trans zero_less_diff)
    have sp: "free_space (put_units ins p (a + ?k1) ?l) F' + span a ?k1 = free_space p F + span a ?k0"
      using g unfolding k by (simp add: gives_def span_add ac_simps)
    have room': "room_for (put_units ins p (a + ?k1) ?l) F' a ?k1" using gives_room [OF _ g] room unfolding k by blast
    have "shrinks v p F a ?k0 (U2B new) ?k1 (a, put_units ins p (a + ?k1) ?l)"
      unfolding shrinks_def prod.case
    proof (intro exI [of _ F'] conjI allI impI)
      show "mem (put_units ins p (a + ?k1) ?l) (a + j) = mem p (a + j)" if "j < U2B new" for j
        using g that le by (simp add: gives_def)
      show "mem (put_units ins p (a + ?k1) ?l) x = mem p x" if "x \<notin># free_space p F \<and> (x < a \<or> a + ?k0 \<le> x)" for x
        using g that k by (auto simp: gives_def)
    qed (use g sp room' in \<open>auto simp: gives_def\<close>)
    then show ?thesis using 3 by (simp add: shrink_eq split_eq)
  qed
qed

end

section \<open>The two suballocators\<close>

lemma AllocUnitsRare7_eq:
  "AllocUnitsRare7 p i = (case (if GlueCount p = 0 then GlueFreeBlocks7 p else Some p) of None \<Rightarrow> None
    | Some q \<Rightarrow> (if GlueCount p = 0 \<and> FreeList q i \<noteq> 0 then Some (Some (fst (RemoveNode7 q i)), snd (RemoveNode7 q i))
        else case find (\<lambda>j. FreeList q j \<noteq> 0) [i + 1..<38] of
          None \<Rightarrow> Some (if word_of_nat (U2B (I2U q i)) < ptr_diff (UnitsStart q) (Text q)
            then (Some (UnitsStart q - U2B (I2U q i)),
              q\<lparr>GlueCount := GlueCount q - 1, UnitsStart := UnitsStart q - U2B (I2U q i)\<rparr>)
            else (None, q\<lparr>GlueCount := GlueCount q - 1\<rparr>))
        | Some j \<Rightarrow> Some (Some (fst (RemoveNode7 q j)), SplitBlock7 (snd (RemoveNode7 q j)) (fst (RemoveNode7 q j)) j i)))"
  unfolding AllocUnitsRare7_def Let_def
  by (auto split: option.splits prod.splits simp: case_prod_beta)

lemma AllocUnitsRare8_eq:
  "AllocUnitsRare8 p i = (case (if GlueCount p = 0 then GlueFreeBlocks8 p else Some p) of None \<Rightarrow> None
    | Some q \<Rightarrow> (if GlueCount p = 0 \<and> FreeList q i \<noteq> 0 then Some (Some (fst (RemoveNode8 q i)), snd (RemoveNode8 q i))
        else case find (\<lambda>j. FreeList q j \<noteq> 0) [i + 1..<38] of
          None \<Rightarrow> Some (if word_of_nat (U2B (I2U q i)) < ptr_diff (UnitsStart q) (Text q)
            then (Some (UnitsStart q - U2B (I2U q i)),
              q\<lparr>GlueCount := GlueCount q - 1, UnitsStart := UnitsStart q - U2B (I2U q i)\<rparr>)
            else (None, q\<lparr>GlueCount := GlueCount q - 1\<rparr>))
        | Some j \<Rightarrow> Some (Some (fst (RemoveNode8 q j)), SplitBlock8 (snd (RemoveNode8 q j)) (fst (RemoveNode8 q j)) j i)))"
  unfolding AllocUnitsRare8_def Let_def
  by (auto split: option.splits prod.splits simp: case_prod_beta)

lemma SplitBlock7_eq:
  "SplitBlock7 p a i j = put_units InsertNode7 p (a + U2B (I2U p j)) (I2U p i - I2U p j)"
  by (simp add: SplitBlock7_def put_units_def Let_def)

lemma AllocUnits7_eq:
  "AllocUnits7 p i = (if FreeList p i \<noteq> 0 then Some (Some (fst (RemoveNode7 p i)), snd (RemoveNode7 p i))
    else if word_of_nat (U2B (I2U p i)) \<le> ptr_diff (HiUnit p) (LoUnit p)
    then Some (Some (LoUnit p), p\<lparr>LoUnit := LoUnit p + U2B (I2U p i)\<rparr>) else AllocUnitsRare7 p i)"
  by (simp add: AllocUnits7_def Let_def case_prod_beta)

lemma ShrinkUnits7_eq:
  "ShrinkUnits7 p a old new = (if U2I p old = U2I p new then Some (a, p)
    else if FreeList p (U2I p new) \<noteq> 0 then let (r, q) = RemoveNode7 p (U2I p new)
      in (case MyMem12Cpy r a new (mem q) of None \<Rightarrow> None | Some m \<Rightarrow> Some (r, InsertNode7 (q\<lparr>mem := m\<rparr>) a (U2I p old)))
    else Some (a, SplitBlock7 p a (U2I p old) (U2I p new)))"
  by (auto simp: ShrinkUnits7_def Let_def case_prod_beta split: option.splits Option.bind_splits)

lemma GlueFreeBlocks7_ready:
  "ready PPMd7 p F \<Longrightarrow> \<exists>p' F'. GlueFreeBlocks7 p = Some p' \<and> glues PPMd7 p F p' F'"
  using GlueFreeBlocks7_glues unfolding ready_def by metis

interpretation sa7: suballocator PPMd7 InsertNode7 RemoveNode7 SplitBlock7 GlueFreeBlocks7 AllocUnitsRare7 AllocUnits7 ShrinkUnits7
  by unfold_locales (rule SplitBlock7_eq AllocUnitsRare7_eq AllocUnits7_eq ShrinkUnits7_eq | erule GlueFreeBlocks7_ready)+

lemma SplitBlock8_eq:
  "SplitBlock8 p a i j = put_units InsertNode8 p (a + U2B (I2U p j)) (I2U p i - I2U p j)"
  by (simp add: SplitBlock8_def put_units_def Let_def)

lemma AllocUnits8_eq:
  "AllocUnits8 p i = (if FreeList p i \<noteq> 0 then Some (Some (fst (RemoveNode8 p i)), snd (RemoveNode8 p i))
    else if word_of_nat (U2B (I2U p i)) \<le> ptr_diff (HiUnit p) (LoUnit p)
    then Some (Some (LoUnit p), p\<lparr>LoUnit := LoUnit p + U2B (I2U p i)\<rparr>) else AllocUnitsRare8 p i)"
  by (simp add: AllocUnits8_def Let_def case_prod_beta)

lemma ShrinkUnits8_eq:
  "ShrinkUnits8 p a old new = (if U2I p old = U2I p new then Some (a, p)
    else if FreeList p (U2I p new) \<noteq> 0 then let (r, q) = RemoveNode8 p (U2I p new)
      in (case MyMem12Cpy r a new (mem q) of None \<Rightarrow> None | Some m \<Rightarrow> Some (r, InsertNode8 (q\<lparr>mem := m\<rparr>) a (U2I p old)))
    else Some (a, SplitBlock8 p a (U2I p old) (U2I p new)))"
  by (auto simp: ShrinkUnits8_def Let_def case_prod_beta split: option.splits Option.bind_splits)

lemma GlueFreeBlocks8_ready:
  "ready PPMd8 p F \<Longrightarrow> \<exists>p' F'. GlueFreeBlocks8 p = Some p' \<and> glues PPMd8 p F p' F'"
  using GlueFreeBlocks8_glues unfolding ready_def by metis

interpretation sa8: suballocator PPMd8 InsertNode8 RemoveNode8 SplitBlock8 GlueFreeBlocks8 AllocUnitsRare8 AllocUnits8 ShrinkUnits8
  by unfold_locales (rule SplitBlock8_eq AllocUnitsRare8_eq AllocUnits8_eq ShrinkUnits8_eq | erule GlueFreeBlocks8_ready)+

end
