(* ===== verification/Memory.thy ===== *)
theory Memory
  imports Allocation Ppmd7_Roundtrip Ppmd8_Roundtrip
begin

text \<open>
  The suballocators of the two models as a whole: they start in order, and every operation keeps to its
  contract over the free space.
\<close>

section \<open>What an allocation gives its caller\<close>

text \<open>
  \<open>serves v p F i (r, p')\<close>: the block \<open>a\<close> that is returned is taken out of the free space and nothing else is, no
  address in use is written, and the invariant holds again once the caller has begun its block with
  something else than the stamp of a free node; or nothing is returned, because all that could be used is used up, and
  nothing is lost.
\<close>

definition serves :: "variant \<Rightarrow> 'a ppmd_scheme \<Rightarrow> (nat \<Rightarrow> nat list) \<Rightarrow> nat \<Rightarrow> nat option \<times> 'a ppmd_scheme \<Rightarrow> bool" where
  "serves v p F i = (\<lambda>(r, p'). \<exists>F'. case r of
     None \<Rightarrow> ready v p' F' \<and> free_space p' F' = free_space p F \<and> exhausted p' F' i
   | Some a \<Rightarrow> takes v p F p' F' a (U2B (I2U p i)) \<and>
       (\<forall>m. (\<forall>x. x < a \<or> a + U2B (I2U p i) \<le> x \<longrightarrow> m x = mem p' x) \<and> \<not> free_stamp v m a \<longrightarrow> ready v (p'\<lparr>mem := m\<rparr>) F'))"

lemma allocates_serves:
  assumes "ready v p F" "i < 38" "allocates v p F i x"
  shows "serves v p F i x"
proof -
  have k: "12 \<le> U2B (I2U p i)" using assms(1,2) by (intro block_min) (auto simp: ready_def heap_ok_def)
  obtain r p' where x: "x = (r, p')" by (cases x)
  show ?thesis
  proof (cases r)
    case None
    then obtain F' where "glues v p F p' F'" "exhausted p' F' i" using assms(3) by (auto simp: x allocates_def)
    then show ?thesis using glues_ready [OF assms(1)] by (auto simp: x None serves_def glues_def)
  next
    case (Some a)
    then obtain F' where t: "takes v p F p' F' a (U2B (I2U p i))" using assms(3) by (auto simp: x allocates_def)
    then have "\<forall>m. (\<forall>x. x < a \<or> a + U2B (I2U p i) \<le> x \<longrightarrow> m x = mem p' x) \<and> \<not> free_stamp v m a \<longrightarrow> ready v (p'\<lparr>mem := m\<rparr>) F'"
      using takes_ready [OF assms(1) t k] by blast
    then show ?thesis unfolding x Some serves_def using t by (simp only: prod.case option.case) blast
  qed
qed

section \<open>The start\<close>

lemma start_ready:
  assumes "arena_fits p" "unat (AlignOffset p) + unat (Size p) < 2 ^ 32" "0 < unat (AlignOffset p)" "tables_ok q"
    and "Text q = unat (AlignOffset p)" "UnitsStart q = start_units p" "LoUnit q = start_units p + 1536" "HiUnit q = start_ctx p"
    and "AlignOffset q = AlignOffset p" "Size q = Size p" "\<And>i. i < 38 \<Longrightarrow> FreeList q i = 0"
  shows "ready v q (\<lambda>_. [])"
proof -
  note b = start_units_bounds [OF assms(1)]
  have top: "arena_top q = start_ctx p + 12" using b(4) by (simp add: arena_top_def assms(9,10))
  have "start_ctx p - (start_units p + 1536) = 12 * (unat (Size p) div 8 div 12 * 7 - 129)"
    using b(3,4) by (simp add: start_ctx_def start_units_def diff_mult_distrib2)
  then have "12 dvd HiUnit q - LoUnit q" by (simp add: assms(7,8))
  moreover have "blocks q (\<lambda>_. []) = {#}" by (simp add: blocks_def)
  moreover have "count (free_space q (\<lambda>_. [])) x \<le> 1" for x
    using b(1,3) calculation(2) by (auto simp: free_space_def assms(5-8))
  ultimately show ?thesis
    using b assms by (simp add: ready_def heap_ok_def marked_def free_ends_def top)
qed

lemma Ppmd7_Init_ready:
  assumes "Ppmd7_Alloc (Ppmd7_Construct p0) sz alloc = (True, p)" "2 ^ 11 \<le> unat sz" "unat sz \<le> 0xFFFFFFFF - 36"
  shows "ready PPMd7 (Ppmd7_Init p mo) (\<lambda>_. [])"
proof -
  note al = Ppmd7_Alloc_fresh [OF assms]
  have ok: "arena_ok7 p" "tables7 p" using al by auto
  show ?thesis
    using al arena_ok7_fits [OF ok(1)]
    by (intro start_ready [of p])
      (auto simp: Ppmd7_Init_def RestartModel7_def Let_def tables7_def tables_ok_def arena_ok7_def start_ctx_def start_units_def
        UNIT_SIZE_def U2B_def)
qed

lemma Ppmd8_Init_ready:
  assumes "Ppmd8_Alloc (Ppmd8_Construct p0) sz alloc = (True, p)" "2 ^ 11 \<le> unat sz" "unat sz \<le> 0xFFFFFFFF - 36"
  shows "ready PPMd8 (Ppmd8_Init p mo rm) (\<lambda>_. [])"
proof -
  note al = Ppmd8_Alloc_fresh [OF assms]
  show ?thesis
    using al assms(3)
    by (intro start_ready [of p])
      (auto simp: Ppmd8_Init_def RestartModel8_def RESET_TEXT_def Let_def tables8_def tables_ok_def start_ctx_def start_units_def
        UNIT_SIZE_def U2B_def)
qed

text \<open>
  C25.  The heaps of \<^verbatim>\<open>Ppmd7.c\<close> and \<^verbatim>\<open>Ppmd8.c\<close> start in order: with an arena of a size the headers allow and any content,
  the free lists are empty, the gap and the room for text are in the arena and apart, and the suballocator's invariant holds.
\<close>

theorem heap_start:
  assumes "Ppmd7_Alloc (Ppmd7_Construct p0) sz alloc = (True, p)" "Ppmd8_Alloc (Ppmd8_Construct q0) sz alloc = (True, q)"
    and "2 ^ 11 \<le> unat sz" "unat sz \<le> 0xFFFFFFFF - 36"
  shows "ready PPMd7 (Ppmd7_Init p mo) (\<lambda>_. []) \<and> ready PPMd8 (Ppmd8_Init q mo rm) (\<lambda>_. [])"
  using Ppmd7_Init_ready [OF assms(1,3,4)] Ppmd8_Init_ready [OF assms(2-4)] by blast

section \<open>Allocation\<close>

text \<open>
  C9.  \<^verbatim>\<open>AllocUnits\<close> of \<^verbatim>\<open>Ppmd7.c\<close>, and the allocation of a context, refine an abstract allocator over the set of
  free addresses, glueing included: a call returns; the block it hands out was free, is as large as asked for and is
  free no more, nothing else leaves the free space, and no address in use is written; the invariant holds again when the
  caller has begun its block with something else than a free node's (their first two bytes 0).  Where it returns NULL, the lists
  of blocks that are large enough are empty, the room for text is too small, and no free address is lost.
\<close>

theorem ppmd7_alloc_refines:
  assumes "ready PPMd7 p F" "i < 38"
  shows "(\<exists>x. AllocUnits7 p i = Some x \<and> serves PPMd7 p F i x) \<and>
    (\<exists>x. AllocContext7 p = Some x \<and> serves PPMd7 p F 0 x)"
proof -
  have "AllocContext7 p = (if HiUnit p \<noteq> LoUnit p then Some (Some (HiUnit p - 12), p\<lparr>HiUnit := HiUnit p - 12\<rparr>)
      else if FreeList p 0 \<noteq> 0 then Some (Some (fst (RemoveNode7 p 0)), snd (RemoveNode7 p 0)) else AllocUnitsRare7 p 0)"
    by (simp add: AllocContext7_def UNIT_SIZE_def case_prod_beta Let_def)
  from sa7.context_allocates [OF assms(1) this] sa7.alloc_allocates [OF assms] show ?thesis
    using allocates_serves [OF assms] allocates_serves [OF assms(1), of 0] zero_less_numeral by blast
qed

text \<open>
  C10.  \<^verbatim>\<open>AllocUnits\<close> of \<^verbatim>\<open>Ppmd8.c\<close>, and the allocation of a context, refine an abstract allocator over the set of
  free addresses, glueing included: a call returns; the block it hands out was free, is as large as asked for and is
  free no more, nothing else leaves the free space, and no address in use is written; the invariant holds again when the
  caller has begun its block with something else than a free node's (the stamp 0xFFFFFFFF).  Where it returns NULL, the lists
  of blocks that are large enough are empty, the room for text is too small, and no free address is lost.
\<close>

theorem ppmd8_alloc_refines:
  assumes "ready PPMd8 p F" "i < 38"
  shows "(\<exists>x. AllocUnits8 p i = Some x \<and> serves PPMd8 p F i x) \<and>
    (\<exists>x. AllocContext8 p = Some x \<and> serves PPMd8 p F 0 x)"
proof -
  have "AllocContext8 p = (if HiUnit p \<noteq> LoUnit p then Some (Some (HiUnit p - 12), p\<lparr>HiUnit := HiUnit p - 12\<rparr>)
      else if FreeList p 0 \<noteq> 0 then Some (Some (fst (RemoveNode8 p 0)), snd (RemoveNode8 p 0)) else AllocUnitsRare8 p 0)"
    by (simp add: AllocContext8_def UNIT_SIZE_def case_prod_beta Let_def)
  from sa8.context_allocates [OF assms(1) this] sa8.alloc_allocates [OF assms] show ?thesis
    using allocates_serves [OF assms] allocates_serves [OF assms(1), of 0] zero_less_numeral by blast
qed

text \<open>
  C11.  \<^verbatim>\<open>GlueFreeBlocks\<close> of \<^verbatim>\<open>Ppmd7.c\<close> returns: none of its loops over linked lists in the arena runs for ever, or leaves
  the nodes.  It keeps the free space, address for address, and writes to no address in use; the free lists it
  leaves are in order.
\<close>

theorem ppmd7_glue_returns:
  assumes "ready PPMd7 p F"
  shows "\<exists>p' F'. GlueFreeBlocks7 p = Some p' \<and> ready PPMd7 p' F' \<and> free_space p' F' = free_space p F \<and>
    (\<forall>x < arena_top p. x \<notin># free_space p F \<longrightarrow> mem p' x = mem p x)"
proof -
  obtain p' F' where "GlueFreeBlocks7 p = Some p'" "glues PPMd7 p F p' F'" using GlueFreeBlocks7_ready [OF assms] by blast
  then show ?thesis using glues_ready [OF assms] by (auto simp: glues_def)
qed

text \<open>
  C12.  \<^verbatim>\<open>GlueFreeBlocks\<close> of \<^verbatim>\<open>Ppmd8.c\<close> returns: none of its loops over linked lists in the arena runs for ever, or leaves
  the nodes.  It keeps the free space, address for address, and writes to no address in use; the free lists it
  leaves are in order.
\<close>

theorem ppmd8_glue_returns:
  assumes "ready PPMd8 p F"
  shows "\<exists>p' F'. GlueFreeBlocks8 p = Some p' \<and> ready PPMd8 p' F' \<and> free_space p' F' = free_space p F \<and>
    (\<forall>x < arena_top p. x \<notin># free_space p F \<longrightarrow> mem p' x = mem p x)"
proof -
  obtain p' F' where "GlueFreeBlocks8 p = Some p'" "glues PPMd8 p F p' F'" using GlueFreeBlocks8_ready [OF assms] by blast
  then show ?thesis using glues_ready [OF assms] by (auto simp: glues_def)
qed

text \<open>
  C23.  \<^verbatim>\<open>ShrinkUnits\<close> of \<^verbatim>\<open>Ppmd7.c\<close>: a block of \<open>old\<close> units in use becomes one of \<open>new\<close> units, moved or not, with the
  same first \<open>new\<close> units of content; what it no longer needs is free, and nothing in use besides is written.
\<close>

theorem ppmd7_shrink_keeps:
  assumes "ready PPMd7 p F" "0 < new" "new \<le> old" "old \<le> 128" "room_for p F a (U2B (I2U p (U2I p old)))"
  shows "\<exists>x. ShrinkUnits7 p a old new = Some x \<and>
    shrinks PPMd7 p F a (U2B (I2U p (U2I p old))) (U2B new) (U2B (I2U p (U2I p new))) x"
  using assms by (intro sa7.shrink_shrinks) (auto simp: ready_def)

text \<open>
  C24.  \<^verbatim>\<open>ShrinkUnits\<close> of \<^verbatim>\<open>Ppmd8.c\<close>: a block of \<open>old\<close> units in use becomes one of \<open>new\<close> units, moved or not, with the
  same first \<open>new\<close> units of content; what it no longer needs is free, and nothing in use besides is written.
\<close>

theorem ppmd8_shrink_keeps:
  assumes "ready PPMd8 p F" "0 < new" "new \<le> old" "old \<le> 128" "room_for p F a (U2B (I2U p (U2I p old)))"
  shows "\<exists>x. ShrinkUnits8 p a old new = Some x \<and>
    shrinks PPMd8 p F a (U2B (I2U p (U2I p old))) (U2B new) (U2B (I2U p (U2I p new))) x"
  using assms by (intro sa8.shrink_shrinks) (auto simp: ready_def)

section \<open>The tables\<close>

text \<open>
  C26.  The unit tables that \<^verbatim>\<open>Ppmd7_Construct\<close> and \<^verbatim>\<open>Ppmd8_Construct\<close> build: for 1 to 128 units, \<^verbatim>\<open>U2I\<close> is the least index
  whose blocks, of \<^verbatim>\<open>I2U\<close> units, are large enough, and they are at most 3 units too large.
\<close>

theorem unit_tables_fit:
  assumes "0 < n" "n \<le> 128" "p = Ppmd7_Construct p0 \<and> q = Ppmd8_Construct q0"
  shows "U2I p n < 38 \<and> n \<le> I2U p (U2I p n) \<and> I2U p (U2I p n) < n + 4 \<and> (\<forall>i < U2I p n. I2U p i < n) \<and>
    U2I q n = U2I p n \<and> (\<forall>i. I2U q i = I2U p i)"
proof -
  have t: "tables_ok p" "tables_ok q" using assms(3) by (simp_all add: Ppmd7_Construct_def Ppmd8_Construct_def tables_ok_def)
  note u = U2I_spec [OF t(1) assms(1,2)]
  have "I2U p i < n" if "i < U2I p n" for i
    using units_upto_mono [of "Suc i" "U2I p n"] u that by (simp add: I2U_eq [OF t(1)])
  moreover have "I2U p (U2I p n) = units_upto (Suc (U2I p n))" by (rule I2U_eq [OF t(1) u(1)])
  moreover have "U2I q n = U2I p n" "I2U q i = I2U p i" for i
    using t by (simp_all add: tables_ok_def U2I_def I2U_def)
  ultimately show ?thesis using u units_upto_step [of "U2I p n"] by auto
qed

section \<open>Witnesses\<close>

lemma model7_ready: "ready PPMd7 (Ppmd7_Init model7_2048 6) (\<lambda>_. [])"
  by (rule Ppmd7_Init_ready [OF model7_2048_alloc]) simp_all

theorem ppmd7_alloc_refines_witness:
  "\<exists>x y. AllocUnits7 (Ppmd7_Init model7_2048 6) 37 = Some x \<and> serves PPMd7 (Ppmd7_Init model7_2048 6) (\<lambda>_. []) 37 x \<and>
    AllocContext7 (Ppmd7_Init model7_2048 6) = Some y \<and> serves PPMd7 (Ppmd7_Init model7_2048 6) (\<lambda>_. []) 0 y"
  using ppmd7_alloc_refines [OF model7_ready, of 37] by auto

theorem ppmd7_glue_returns_witness:
  "\<exists>p' F'. GlueFreeBlocks7 (Ppmd7_Init model7_2048 6) = Some p' \<and> ready PPMd7 p' F'"
  using ppmd7_glue_returns [OF model7_ready] by blast

text \<open>The 256 states of the order-0 context, when half of them have gone.\<close>

lemma model7_states: "room_for (Ppmd7_Init model7_2048 6) (\<lambda>_. []) (start_units model7_2048) (U2B (I2U (Ppmd7_Init model7_2048 6) (U2I (Ppmd7_Init model7_2048 6) 128)))"
proof -
  let ?p = "Ppmd7_Init model7_2048 6" and ?q = "model7_2048\<lparr>MaxOrder := 6\<rparr>"
  note al = Ppmd7_Alloc_fresh [OF model7_2048_alloc]
  have t: "tables_ok ?p" using model7_ready by (simp add: ready_def heap_ok_def)
  have "U2I ?p 128 = 37" using units_upto_12 [of 25] units_upto_12 [of 26] by (intro U2I_unique [OF t]) simp_all
  then have k: "U2B (I2U ?p (U2I ?p 128)) = 1536"
    using I2U_eq [OF t, of 37] units_upto_38 by (simp add: U2B_def UNIT_SIZE_def)
  have fits: "arena_fits model7_2048" using al arena_ok7_fits by simp
  note b = start_units_bounds [OF fits]
  note f = Ppmd7_Init_fields(5-8) [OF refl, of model7_2048 6] RestartModel7_fields
  have s: "start_units ?q = start_units model7_2048" "start_ctx ?q = start_ctx model7_2048"
    by (simp_all add: start_units_def start_ctx_def)
  have top: "arena_top ?p = start_ctx model7_2048 + 12"
    using b(4) by (simp add: arena_top_def Ppmd7_Init_def RestartModel7_fields)
  have "blocks ?p (\<lambda>_. []) = {#}" by (simp add: blocks_def)
  then have "count (free_space ?p (\<lambda>_. []) + span (start_units model7_2048) 1536) x \<le> 1" for x
    using b(1,3) by (auto simp: free_space_def f s)
  then show ?thesis using b(3) top by (simp add: room_for_def k f s)
qed

theorem ppmd7_shrink_keeps_witness:
  "\<exists>x. ShrinkUnits7 (Ppmd7_Init model7_2048 6) (start_units model7_2048) 128 64 = Some x"
  using ppmd7_shrink_keeps [OF model7_ready _ _ _ model7_states, of 64] by auto

lemma model8_ready: "ready PPMd8 (Ppmd8_Init model8_2048 6 1) (\<lambda>_. [])"
  by (rule Ppmd8_Init_ready [OF model8_2048_alloc]) simp_all

theorem heap_start_witness:
  "ready PPMd7 (Ppmd7_Init model7_2048 6) (\<lambda>_. []) \<and> ready PPMd8 (Ppmd8_Init model8_2048 6 1) (\<lambda>_. []) \<and>
   Ppmd7_Alloc (Ppmd7_Construct blank7) 2048 full_alloc = (True, model7_2048)"
  using heap_start [OF model7_2048_alloc model8_2048_alloc] model7_2048_alloc by simp

theorem ppmd8_alloc_refines_witness:
  "\<exists>x y. AllocUnits8 (Ppmd8_Init model8_2048 6 1) 37 = Some x \<and> serves PPMd8 (Ppmd8_Init model8_2048 6 1) (\<lambda>_. []) 37 x \<and>
    AllocContext8 (Ppmd8_Init model8_2048 6 1) = Some y \<and> serves PPMd8 (Ppmd8_Init model8_2048 6 1) (\<lambda>_. []) 0 y"
  using ppmd8_alloc_refines [OF model8_ready, of 37] by auto

theorem ppmd8_glue_returns_witness:
  "\<exists>p' F'. GlueFreeBlocks8 (Ppmd8_Init model8_2048 6 1) = Some p' \<and> ready PPMd8 p' F'"
  using ppmd8_glue_returns [OF model8_ready] by blast

text \<open>The 256 states of the order-0 context, when half of them have gone.\<close>

lemma model8_states: "room_for (Ppmd8_Init model8_2048 6 1) (\<lambda>_. []) (start_units model8_2048) (U2B (I2U (Ppmd8_Init model8_2048 6 1) (U2I (Ppmd8_Init model8_2048 6 1) 128)))"
proof -
  let ?p = "Ppmd8_Init model8_2048 6 1" and ?q = "model8_2048\<lparr>MaxOrder := 6, RestoreMethod := 1\<rparr>"
  note al = Ppmd8_Alloc_fresh [OF model8_2048_alloc]
  have t: "tables_ok ?p" using model8_ready by (simp add: ready_def heap_ok_def)
  have "U2I ?p 128 = 37" using units_upto_12 [of 25] units_upto_12 [of 26] by (intro U2I_unique [OF t]) simp_all
  then have k: "U2B (I2U ?p (U2I ?p 128)) = 1536"
    using I2U_eq [OF t, of 37] units_upto_38 by (simp add: U2B_def UNIT_SIZE_def)
  have fits: "arena_fits model8_2048" using al by simp
  note b = start_units_bounds [OF fits]
  note f = Ppmd8_Init_fields(5-8) [OF refl, of model8_2048 6 1] RestartModel8_fields
  have s: "start_units ?q = start_units model8_2048" "start_ctx ?q = start_ctx model8_2048"
    by (simp_all add: start_units_def start_ctx_def)
  have top: "arena_top ?p = start_ctx model8_2048 + 12"
    using b(4) by (simp add: arena_top_def Ppmd8_Init_def RestartModel8_fields)
  have "blocks ?p (\<lambda>_. []) = {#}" by (simp add: blocks_def)
  then have "count (free_space ?p (\<lambda>_. []) + span (start_units model8_2048) 1536) x \<le> 1" for x
    using b(1,3) by (auto simp: free_space_def f s)
  then show ?thesis using b(3) top by (simp add: room_for_def k f s)
qed

theorem ppmd8_shrink_keeps_witness:
  "\<exists>x. ShrinkUnits8 (Ppmd8_Init model8_2048 6 1) (start_units model8_2048) 128 64 = Some x"
  using ppmd8_shrink_keeps [OF model8_ready _ _ _ model8_states, of 64] by auto

theorem unit_tables_fit_witness:
  "U2I (Ppmd7_Construct blank7) 5 < 38 \<and> 5 \<le> I2U (Ppmd7_Construct blank7) (U2I (Ppmd7_Construct blank7) 5) \<and>
   U2I (Ppmd8_Construct blank8) 5 = U2I (Ppmd7_Construct blank7) 5"
  using unit_tables_fit [of 5 "Ppmd7_Construct blank7" blank7 "Ppmd8_Construct blank8" blank8] by simp

end
