(* ===== verification/Cut_Off.thy ===== *)
theory Cut_Off
  imports Ppmd8_Model
begin

text \<open>
  The depth of \<^verbatim>\<open>CutOff\<close>: the code's recursion is not bounded by its data, but by \<open>order\<close>, which a call raises by one and
  which stops at \<^verbatim>\<open>MaxOrder\<close>.  The argument \<open>d\<close> of \<open>CutOff8\<close> is therefore no restriction when it is
  above \<open>MaxOrder - order\<close>, as it is in \<open>Cut_round8\<close>.
\<close>

section \<open>The order is a constant of the model\<close>

lemma Max_InsertNode8 [simp]: "MaxOrder (InsertNode8 p n i) = MaxOrder p"
  by (simp add: InsertNode8_def Let_def)

lemma Max_RemoveNode8 [simp]: "MaxOrder (snd (RemoveNode8 p i)) = MaxOrder p"
  by (simp add: RemoveNode8_def Let_def)

lemma Max_SplitBlock8 [simp]: "MaxOrder (SplitBlock8 p a i j) = MaxOrder p"
  by (simp add: SplitBlock8_def Let_def)

lemma Max_FreeUnits8 [simp]: "MaxOrder (FreeUnits8 p a n) = MaxOrder p"
  by (simp add: FreeUnits8_def)

lemma Max_SpecialFreeUnit8 [simp]: "MaxOrder (SpecialFreeUnit8 p a) = MaxOrder p"
  by (simp add: SpecialFreeUnit8_def)

lemma Max_ShrinkUnits8: "ShrinkUnits8 p a i j = Some (r, p') \<Longrightarrow> MaxOrder p' = MaxOrder p"
  by (auto simp: ShrinkUnits8_def Let_def case_prod_beta split: if_splits Option.bind_splits)

lemma Max_MoveUnitsUp8: "MoveUnitsUp8 p a n = Some (r, p') \<Longrightarrow> MaxOrder p' = MaxOrder p"
  by (auto simp: MoveUnitsUp8_def Let_def case_prod_beta split: if_splits Option.bind_splits)

lemma Max_Refresh8: "Refresh8 p ctx n sc = Some p' \<Longrightarrow> MaxOrder p' = MaxOrder p"
  by (auto simp: Refresh8_def Let_def case_prod_beta dest!: Max_ShrinkUnits8 split: if_splits Option.bind_splits)

text \<open>A call for a successor that agrees with another one on models of one order.\<close>

definition same_calls :: "UInt32 \<Rightarrow> (CPpmd8 \<Rightarrow> nat \<Rightarrow> (UInt32 \<times> CPpmd8) option) \<Rightarrow> (CPpmd8 \<Rightarrow> nat \<Rightarrow> (UInt32 \<times> CPpmd8) option) \<Rightarrow> bool" where
  "same_calls mo f g \<longleftrightarrow> (\<forall>p c. MaxOrder p = mo \<longrightarrow> f p c = g p c \<and> (\<forall>r p'. f p c = Some (r, p') \<longrightarrow> MaxOrder p' = mo))"

lemma CutOff_states8_same:
  assumes "order < mo \<Longrightarrow> same_calls mo f g" "MaxOrder p = mo"
  shows "CutOff_states8 f ctx order s i p = CutOff_states8 g ctx order s i p \<and>
    (\<forall>i' p'. CutOff_states8 f ctx order s i p = Some (i', p') \<longrightarrow> MaxOrder p' = mo)"
  using assms(2)
proof (induction s arbitrary: i p rule: less_induct)
  case (less s)
  have ih: "CutOff_states8 f ctx order (s - 6) j q = CutOff_states8 g ctx order (s - 6) j q"
    "\<And>i' p'. CutOff_states8 g ctx order (s - 6) j q = Some (i', p') \<Longrightarrow> MaxOrder p' = mo"
    if "\<not> s < 6" "MaxOrder q = mo" for j q
    using less.IH [of "s - 6" q j] that by fastforce+
  let ?t = "GetPtr (sSuccessor (mem p) s)"
  consider "s < STATS (mem p) ctx \<or> s < 6" | "\<not> (s < STATS (mem p) ctx \<or> s < 6)" "?t < UnitsStart p"
    | "\<not> (s < STATS (mem p) ctx \<or> s < 6)" "UnitsStart p \<le> ?t" "\<not> order < mo"
    | "\<not> (s < STATS (mem p) ctx \<or> s < 6)" "UnitsStart p \<le> ?t" "order < mo"
    by fastforce
  then show ?case
  proof cases
    case 1
    then show ?thesis by (auto simp: CutOff_states8.simps [of _ ctx order s] less.prems)
  next
    case 2
    then show ?thesis using less.prems by (auto simp: CutOff_states8.simps [of _ ctx order s] Let_def ih(1) dest: ih(2) [rotated 2])
  next
    case 3
    then show ?thesis using less.prems by (auto simp: CutOff_states8.simps [of _ ctx order s] Let_def ih(1) dest: ih(2) [rotated 2])
  next
    case 4
    then have e: "f p ?t = g p ?t" "\<And>r p'. g p ?t = Some (r, p') \<Longrightarrow> MaxOrder p' = mo"
      using assms(1) less.prems by (auto simp: same_calls_def)
    show ?thesis
    proof (cases "g p ?t")
      case None
      then show ?thesis using 4 e less.prems by (simp add: CutOff_states8.simps [of _ ctx order s] Let_def)
    next
      case (Some x)
      then show ?thesis using 4 e less.prems by (cases x) (auto simp: CutOff_states8.simps [of _ ctx order s] Let_def ih(1) dest: ih(2) [rotated 2])
    qed
  qed
qed

lemma CutOff_node8_same:
  assumes rec: "order < mo \<Longrightarrow> same_calls mo f g"
  shows "same_calls mo (\<lambda>p c. CutOff_node8 f p c order) (\<lambda>p c. CutOff_node8 g p c order)"
proof -
  have "CutOff_node8 f p c order = CutOff_node8 g p c order \<and> (\<forall>r p'. CutOff_node8 f p c order = Some (r, p') \<longrightarrow> MaxOrder p' = mo)"
    if mo: "MaxOrder p = mo" for p c
  proof (cases "NumStats8 (mem p) c = 0")
    case True
    let ?t = "GetPtr (sSuccessor (mem p) (ONE_STATE c))"
    show ?thesis
    proof (cases "UnitsStart p \<le> ?t \<and> order < mo")
      case b: True
      then have e: "f p ?t = g p ?t" "\<And>r p'. g p ?t = Some (r, p') \<Longrightarrow> MaxOrder p' = mo"
        using rec mo by (auto simp: same_calls_def)
      show ?thesis
        using True b e mo by (cases "g p ?t") (auto simp: CutOff_node8_def Let_def split: if_splits)
    next
      case False
      then show ?thesis using True mo by (auto simp: CutOff_node8_def Let_def split: if_splits)
    qed
  next
    case False
    let ?tmp = "(unat (NumStats8 (mem p) c) + 2) div 2"
    show ?thesis
    proof (cases "MoveUnitsUp8 p (STATS (mem p) c) ?tmp")
      case None
      then show ?thesis using False by (simp add: CutOff_node8_def Let_def)
    next
      case (Some x)
      obtain a q where x: "x = (a, q)" by (cases x)
      let ?q = "q\<lparr>mem := wr_Stats (mem q) c (REF a)\<rparr>"
      let ?n = "int (unat (NumStats8 (mem ?q) c))"
      let ?run = "\<lambda>f. CutOff_states8 f c order (STATS (mem ?q) c + 6 * nat ?n) ?n ?q"
      have "MaxOrder ?q = mo" using Max_MoveUnitsUp8 [OF Some [unfolded x]] mo by simp
      note s = CutOff_states8_same [OF rec this, where ctx = c and s = "STATS (mem ?q) c + 6 * nat ?n" and i = ?n]
      show ?thesis
      proof (cases "?run g")
        case None
        then show ?thesis using False Some s by (simp add: CutOff_node8_def Let_def x)
      next
        case run: (Some y)
        obtain j u where y: "y = (j, u)" by (cases y)
        have "MaxOrder u = mo" using s run by (simp add: y)
        have "?run f = Some (j, u)" "?run g = Some (j, u)" using s run by (simp_all add: y)
        then have "CutOff_node8 f p c order = CutOff_node8 g p c order"
          using False Some by (simp add: CutOff_node8_def Let_def x)
        moreover have "MaxOrder p' = mo" if "CutOff_node8 g p c order = Some (r, p')" for r p'
          using False Some \<open>?run g = Some (j, u)\<close> \<open>MaxOrder u = mo\<close> that
          by (simp add: CutOff_node8_def Let_def x) (auto simp: Let_def dest!: Max_Refresh8 split: if_splits Option.bind_splits)
        ultimately show ?thesis by simp
      qed
    qed
  qed
  then show ?thesis by (simp add: same_calls_def)
qed

section \<open>The depth\<close>

lemma CutOff8_deeper:
  assumes "unat mo \<le> unat order + d"
  shows "same_calls mo (\<lambda>p c. CutOff8 (Suc d) p c order) (\<lambda>p c. CutOff8 (Suc (d + k)) p c order)"
  using assms
proof (induction d arbitrary: order)
  case 0
  then show ?case using CutOff_node8_same [of order mo] by (simp add: word_less_nat_alt)
next
  case (Suc d)
  have "same_calls mo (\<lambda>p c. CutOff8 (Suc d) p c (order + 1)) (\<lambda>p c. CutOff8 (Suc (d + k)) p c (order + 1))" if o: "order < mo"
  proof (rule Suc.IH)
    have "unat (order + 1) = unat order + 1"
      using o unsigned_less [of mo, where 'a = nat] by (simp add: unat_word_ariths word_less_nat_alt)
    then show "unat mo \<le> unat (order + 1) + d" using Suc.prems by simp
  qed
  from CutOff_node8_same [OF this] show ?case by simp
qed

text \<open>
  C13.  The depth of \<^verbatim>\<open>CutOff\<close>'s recursion is at most the order of the model plus one, whatever the arena holds: a call
  from the root that may descend further does, and returns, the same.  The bound given by \<^verbatim>\<open>RestoreModel\<close>'s loop is therefore
  none on the code.
\<close>

theorem CutOff_depth:
  "CutOff8 (unat (MaxOrder p) + 1 + k) p ctx 0 = CutOff8 (unat (MaxOrder p) + 1) p ctx 0"
proof -
  have "same_calls (MaxOrder p) (\<lambda>q c. CutOff8 (Suc (unat (MaxOrder p))) q c 0) (\<lambda>q c. CutOff8 (Suc (unat (MaxOrder p) + k)) q c 0)"
    by (rule CutOff8_deeper) simp
  then have "CutOff8 (Suc (unat (MaxOrder p))) p ctx 0 = CutOff8 (Suc (unat (MaxOrder p) + k)) p ctx 0"
    unfolding same_calls_def by blast
  then show ?thesis by (simp only: Suc_eq_plus1 add.assoc add.commute [of k])
qed

end
