(* ===== verification/Timed_Wait.thy ===== *)
theory Timed_Wait
  imports Ppmd_Prelude
begin

text \<open>
  The time limits of \<^verbatim>\<open>ppmd_timedwait\<close> in \<^verbatim>\<open>lib/buffer/ThreadDecoder.c\<close>, with which the calling thread waits for its worker:
  the point in time up to which \<^verbatim>\<open>pthread_cond_timedwait\<close> waits, and the number of milliseconds of the
  Windows build.  The steps of \<open>Thread_Decoder\<close> are the same for every limit.
\<close>

record timespec =
  tv_sec :: int
  tv_nsec :: int

text \<open>\<open>abstime\<close> is what \<^verbatim>\<open>clock_gettime\<close> gives.  One second is carried at most; the code's only limit is 50000 ns.\<close>

definition wait_until :: "timespec \<Rightarrow> nat \<Rightarrow> timespec" where
  "wait_until abstime nsec =
     (let abstime = abstime\<lparr>tv_nsec := tv_nsec abstime + int nsec\<rparr>
      in if 1000000000 \<le> tv_nsec abstime
         then abstime\<lparr>tv_nsec := tv_nsec abstime - 1000000000, tv_sec := tv_sec abstime + 1\<rparr>
         else abstime)"

definition INFINITE :: UInt32 where "INFINITE = 0xFFFFFFFF"

text \<open>\<^verbatim>\<open>DWORD\<close> and, on Windows, \<^verbatim>\<open>unsigned long\<close> are unsigned 32-bit integers.\<close>

definition nsec_to_ms :: "UInt32 \<Rightarrow> UInt32" where
  "nsec_to_ms nsec =
     (if nsec = 0 then INFINITE
      else let t = nsec div 1000000 in if t < 0 then 1 else t)"

text \<open>A limit of a second or less is a valid time, and lies \<open>nsec\<close> nanoseconds ahead.\<close>

lemma wait_until_exact:
  assumes "0 \<le> tv_nsec t" "tv_nsec t < 1000000000" "nsec \<le> 1000000000"
  shows "0 \<le> tv_nsec (wait_until t nsec) \<and> tv_nsec (wait_until t nsec) < 1000000000 \<and>
    tv_sec (wait_until t nsec) * 1000000000 + tv_nsec (wait_until t nsec) =
      tv_sec t * 1000000000 + tv_nsec t + int nsec"
  using assms by (simp add: wait_until_def Let_def algebra_simps)

text \<open>The branch that should round up is never taken: a wait of less than a millisecond becomes none, on Windows, so that
  the calling thread looks again and again without waiting.\<close>

lemma nsec_to_ms_no_wait:
  assumes "0 < nsec" "nsec < 1000000"
  shows "nsec_to_ms nsec = 0"
proof -
  have "nsec div 1000000 = 0"
    using assms(2) by (simp add: word_eq_iff_unsigned unat_div_distrib word_less_nat_alt flip: unat_eq_0)
  moreover have "nsec \<noteq> 0" using assms(1) by auto
  ultimately show ?thesis by (simp add: nsec_to_ms_def)
qed

lemma nsec_to_ms_of_T_decode: "nsec_to_ms 50000 = 0"
  by (rule nsec_to_ms_no_wait) simp_all

end
