(* ===== verification/Spec2Isabelle.thy ===== *)
theory Spec2Isabelle
  imports Object_Life Memory Cut_Off Timed_Wait
begin

text \<open>
  The PPMd codec of pyppmd.

  pyppmd compresses byte strings with prediction by partial matching: PPMd7 (variant H, as in the 7z
  format) and PPMd8 (variant I).  A model predicts the next byte from the contexts it has seen, a
  range coder turns the predictions into bits, and an extension module wraps both into Python objects.
  The decoder pulls its input byte by byte in the middle of a symbol, so it runs in a thread of its
  own, which stops there until the next piece of input comes.

  The parts, their sources (under \<^verbatim>\<open>src/\<close>) and their theories:

  \<^item> \<open>Ppmd_Prelude\<close>: the types of \<^verbatim>\<open>lib/ppmd/Interface.h\<close> and \<^verbatim>\<open>Arch.h\<close>, byte streams as lists (reading
    past the end of one returns 0), words, options and folds.
  \<^item> \<open>Range_Coder\<close>: the interface of a range coder (locale \<open>range_coder\<close>: coding decisions, their
    limits, what an encoder's state promises of its later output) and the proof that the decoder takes
    the decisions the encoder coded.  \<open>Ppmd7_Range\<close> (\<^verbatim>\<open>Ppmd7Enc.c\<close>, \<^verbatim>\<open>Ppmd7Dec.c\<close>: the 7z coder with carry
    propagation) and \<open>Ppmd8_Range\<close> (\<^verbatim>\<open>Ppmd8Enc.c\<close>, \<^verbatim>\<open>Ppmd8Dec.c\<close>: the carryless coder) interpret it.
  \<^item> \<open>Ppmd_Core\<close> (\<^verbatim>\<open>Ppmd.h\<close>): scaling constants, probability and SEE updates, packed states, the arena.
    \<open>Ppmd_Base\<close>, \<open>Ppmd7_Model\<close> (\<^verbatim>\<open>Ppmd7.c\<close>) and \<open>Ppmd8_Model\<close> (\<^verbatim>\<open>Ppmd8.c\<close>): construction of the tables, the
    suballocator, restart and restoration of the model, context creation, update, rescaling, the
    escape estimates.
  \<^item> The suballocators.  \<open>Unit_Tables\<close>: \<^verbatim>\<open>Indx2Units\<close> and \<^verbatim>\<open>Units2Indx\<close>.  \<open>Suballocator\<close>: the abstract heap (the
    free addresses as a multiset, locales \<open>free_lists\<close> and \<open>free_units\<close> for the operations on nodes, interpreted for both
    node layouts).  \<open>Glue7\<close>, \<open>Glue8\<close>: \<^verbatim>\<open>GlueFreeBlocks\<close>.  \<open>Allocation\<close>: locale \<open>suballocator\<close>, what both programs build
    with the same code.  \<open>Memory\<close>: the theorems on both.  \<open>Cut_Off\<close>: the depth of \<^verbatim>\<open>CutOff\<close>.
  \<^item> \<open>Ppmd_Codec\<close>, \<open>Ppmd7_Codec\<close>, \<open>Ppmd8_Codec\<close>: \<^verbatim>\<open>Ppmd7_EncodeSymbol\<close>, \<^verbatim>\<open>Ppmd7_DecodeSymbol\<close> and those of
    PPMd8.  The symbol coders are written over an arbitrary decision coder; \<open>trace7\<close> and \<open>trace8\<close> are
    the decisions of a symbol.  \<open>Ppmd_Start\<close>, \<open>Ppmd7_Roundtrip\<close>, \<open>Ppmd8_Roundtrip\<close>: the initial model is
    well formed, and messages round-trip.
  \<^item> \<open>Output_Buffer\<close> (\<^verbatim>\<open>lib/buffer/blockoutput.h\<close>, \<^verbatim>\<open>Writer\<close> of \<^verbatim>\<open>Buffer.c\<close>): the list of output blocks.
  \<^item> \<open>Encoder_Object\<close> (\<^verbatim>\<open>ext/_ppmdmodule.c\<close>): \<^verbatim>\<open>__new__\<close>, \<^verbatim>\<open>__init__\<close>, \<^verbatim>\<open>encode\<close>, \<^verbatim>\<open>flush\<close>, \<^verbatim>\<open>dealloc\<close> of the
    two encoder classes.  \<open>Encoder_Stream\<close> and \<open>Encoder_Roundtrip\<close>: what their calls return together is one
    stream of the codec.
  \<^item> \<open>Thread_Decoder\<close> (\<^verbatim>\<open>lib/buffer/ThreadDecoder.c\<close>, \<^verbatim>\<open>Reader\<close> of \<^verbatim>\<open>Buffer.c\<close>): the worker and the calling
    thread as a step relation with every interleaving, and a call of \<^verbatim>\<open>T_decode\<close> as a function.
    \<open>Decoder_Chunks\<close>: a stream fed in pieces.  \<open>Timed_Wait\<close>: the limits of \<^verbatim>\<open>ppmd_timedwait\<close>.
  \<^item> \<open>Decoder_Object\<close> (\<^verbatim>\<open>ext/_ppmdmodule.c\<close>): \<^verbatim>\<open>__new__\<close>, \<^verbatim>\<open>__init__\<close>, \<^verbatim>\<open>decode\<close>, \<^verbatim>\<open>unused_data\<close>,
    \<^verbatim>\<open>dealloc\<close> of the two decoder classes, with the buffer of unconsumed input.  \<open>Decoder_Stream\<close>: the symbol
    decoders read their input from the front and depend on nothing behind what they read.  \<open>Decoder_Run\<close>
    (locale \<open>stream_decoder\<close>): what the calls of the thread decode.  \<open>Decoder_Roundtrip\<close>: the calls of
    an object.
  \<^item> \<open>Message_Roundtrip\<close>: the composition, from the encoder objects to the decoder objects.  \<open>Object_Life\<close>: objects
    initialised alike, after a failed \<^verbatim>\<open>__init__\<close>, and after \<^verbatim>\<open>flush\<close>.

  How the code is represented.  C integers of a fixed width are words, with wrap-around; sizes that are
  only compared and added are natural numbers.  The build is a 64-bit one (LP64), so references into the
  arena are the 32-bit offsets of \<^verbatim>\<open>Ppmd.h\<close>.  The arena is a function from addresses to bytes, written and
  read in little-endian order; pointers are offsets in it, and 0 is NULL.  Structures are records, and a function
  that changes one returns it updated.  Loops whose end rests on the arena's content are partial functions
  to \<open>option\<close>; \<open>None\<close> is a call that does not return, an access the C code must not make, or a failed
  assertion (the assertions of the extension module are taken as compiled in).  Memory allocation is an argument, with the
  content of fresh memory.  For encoder and decoder to agree the arena must have the same content at
  the start where the code reads it before writing it; the round-trip theorems start both from one model.

  What the theorems show.  The range coders return the decisions they were given, the symbol coders
  return messages, the encoder objects' calls return one such stream, the decoder objects return its message,
  and the objects composed return the message they were given, whatever follows the stream.
  A stream in two pieces decodes to what it decodes to in one.  The suballocators refine a set of free addresses: an allocation
  takes its block out of it, glueing and shrinking lose no address, and nothing in use is written; \<open>GlueFreeBlocks\<close> ends.  \<open>T_decode\<close> is
  deterministic in spite of its threads, ends, and does not deadlock.  The output blocks refine a list of bytes and the
  input buffer a queue.  Construction and \<^verbatim>\<open>__init__\<close> establish the invariants, for all arguments.  Some theorems
  state what goes wrong: bytes dropped at the end of an output block, reads and writes outside buffers
  after unlucky refills, a race in \<^verbatim>\<open>T_Free\<close>, objects left unusable by a failed \<^verbatim>\<open>__init__\<close>,
  an end reported too early, a second \<^verbatim>\<open>flush\<close> that is not refused.

  The suballocators' invariant \<open>ready\<close> says that the lists hold nodes within the arena, that no address is free twice, and
  that what begins behind a free block, where \<^verbatim>\<open>GlueFreeBlocks\<close> looks for a neighbour, does not begin like a free node unless
  it is one.  The last part rests on the callers, who fill a block with a context (whose \<^verbatim>\<open>NumStats\<close> is not 0 in
  \<^verbatim>\<open>Ppmd7.c\<close>) or states; the theorems have it as the condition under which an allocation restores the invariant.
  That each update of the model meets it is not proved here.

  Bounds.  Messages through a decoder object are shorter than \<open>2 ^ 31\<close> (a C \<^verbatim>\<open>int\<close>), pieces given to an encoder
  shorter than \<open>2 ^ 32\<close> (its loop index); the 7z coder counts pending bytes in 64 bits.  No recursion needs fuel
  but \<^verbatim>\<open>CutOff\<close>, whose depth the order bounds: more fuel than \<open>MaxOrder + 1\<close> changes no result (\<open>CutOff_depth\<close>).  Round trips suppose that the model
  has coded the message without an access outside its structures (\<open>run_trace\<close>, \<open>run_wf\<close>); that its updates
  always stay within them is not proved here.

  Not modelled: locks of the objects and reference counts; type tables and module initialisation; the
  emulation of POSIX threads for Windows (vendored); the cffi binding and the Python
  wrapper classes; the effect of a timed wait's limit (the calling thread may look at any time) and the clock calls of macOS;
  code that the headers switch off (\<^verbatim>\<open>PPMD8_FREEZE_SUPPORT\<close>, \<^verbatim>\<open>PPMD_32BIT\<close> of a 32-bit build); \<^verbatim>\<open>OutputBuffer_OnError\<close>,
  which only drops references.
\<close>

end
